(* ===== verification/Prelude.thy ===== *)
theory Prelude
  imports Main "HOL-Library.Word"
begin

text \<open>
  Shared vocabulary of the development: the status codes of \<^verbatim>\<open>include/errors.h\<close>, the
  result type of every fallible operation, the 64-bit integers of the B+Tree keys, the
  C-locale character classes of \<^verbatim>\<open><ctype.h>\<close>, C strings, decimal printing as done by
  \<^verbatim>\<open>printf\<close>'s \<^verbatim>\<open>%zu\<close> and \<^verbatim>\<open>PRIu64\<close>, and the generic list
  lemmas the components share.
\<close>

named_theorems cdefs \<open>definitions of small C-level operations, unfolded together\<close>

section \<open>Status codes, failures and results\<close>

datatype status =
    STATUS_OK
  | STATUS_INVALID_ARGS
  | STATUS_FILE_ERROR
  | STATUS_LEX_ERROR
  | STATUS_PARSE_ERROR
  | STATUS_SCHEMA_ERROR
  | STATUS_STORAGE_ERROR
  | STATUS_EXEC_ERROR
  | STATUS_INDEX_ERROR

text \<open>
  A failing call of the engine returns a status code and leaves a message in the caller's
  \<^verbatim>\<open>errbuf\<close>: \<open>Failure st msg\<close>.  \<open>Diverges\<close> is the outcome of a
  pointer-chasing loop of \<^verbatim>\<open>bptree.c\<close> that would not end (a cyclic structure); the
  theorems show that it never happens on the trees the program builds.
\<close>

datatype failure = Failure status string | Diverges

type_synonym 'a result = "failure + 'a"

text \<open>
  \<^verbatim>\<open>set_error\<close>: every caller of the engine passes an \<^verbatim>\<open>errbuf\<close> of 256 bytes, and
  \<^verbatim>\<open>vsnprintf\<close> keeps at most 255 characters of the message.
\<close>

definition errbuf_size :: nat where
  "errbuf_size = 256"

definition set_error :: "string \<Rightarrow> string" where
  "set_error msg = take (errbuf_size - 1) msg"

definition fail :: "status \<Rightarrow> string \<Rightarrow> 'a result" where
  "fail st msg = Inl (Failure st (set_error msg))"

lemma fail_neq_Inr [simp]: "fail st msg \<noteq> Inr x" "Inr x \<noteq> fail st msg"
  by (simp_all add: fail_def)

lemma isl_fail [simp]: "isl (fail st msg)"
  by (simp add: fail_def)

section \<open>Machine integers\<close>

type_synonym u64 = "64 word"

definition UINT64_MAX :: u64 where
  "UINT64_MAX = - 1"

section \<open>Characters and C strings\<close>

definition code :: "char \<Rightarrow> nat" where
  "code c = of_char c"

definition NUL :: char where "NUL = CHR 0x00"
definition TAB :: char where "TAB = CHR 0x09"
definition LF :: char where "LF = CHR 0x0A"
definition CR :: char where "CR = CHR 0x0D"

text \<open>The \<^verbatim>\<open><ctype.h>\<close> classes in the C locale (the program never calls \<^verbatim>\<open>setlocale\<close>).\<close>

definition isspace :: "char \<Rightarrow> bool" where
  "isspace c \<longleftrightarrow> code c = 32 \<or> (9 \<le> code c \<and> code c \<le> 13)"

definition isdigit :: "char \<Rightarrow> bool" where
  "isdigit c \<longleftrightarrow> 48 \<le> code c \<and> code c \<le> 57"

definition isupper :: "char \<Rightarrow> bool" where
  "isupper c \<longleftrightarrow> 65 \<le> code c \<and> code c \<le> 90"

definition islower :: "char \<Rightarrow> bool" where
  "islower c \<longleftrightarrow> 97 \<le> code c \<and> code c \<le> 122"

definition isalpha :: "char \<Rightarrow> bool" where
  "isalpha c \<longleftrightarrow> isupper c \<or> islower c"

definition isalnum :: "char \<Rightarrow> bool" where
  "isalnum c \<longleftrightarrow> isalpha c \<or> isdigit c"

definition toupper :: "char \<Rightarrow> char" where
  "toupper c = (if islower c then char_of (code c - 32) else c)"

lemmas ctype_defs = isspace_def isdigit_def isupper_def islower_def isalpha_def isalnum_def code_def

text \<open>A C string stops at the first NUL byte.\<close>

definition cstr :: "string \<Rightarrow> string" where
  "cstr s = takeWhile (\<lambda>c. c \<noteq> NUL) s"

definition no_nul :: "string \<Rightarrow> bool" where
  "no_nul s \<longleftrightarrow> NUL \<notin> set s"

lemma no_nul_simps [simp]:
  "no_nul []"
  "no_nul (c # s) \<longleftrightarrow> c \<noteq> NUL \<and> no_nul s"
  "no_nul (s @ t) \<longleftrightarrow> no_nul s \<and> no_nul t"
  by (auto simp: no_nul_def)

lemma cstr_no_nul [simp]: "no_nul s \<Longrightarrow> cstr s = s"
  by (auto simp: cstr_def no_nul_def takeWhile_eq_all_conv)

lemma no_nul_cstr [simp]: "no_nul (cstr s)"
  by (auto simp: cstr_def no_nul_def dest: set_takeWhileD)

text \<open>The character a pointer into a C string reads; at its end that is the terminating NUL.\<close>

definition char_at :: "string \<Rightarrow> char" where
  "char_at s = (case s of [] \<Rightarrow> NUL | c # _ \<Rightarrow> c)"

lemma char_at_simps [simp]: "char_at [] = NUL" "char_at (c # s) = c"
  by (simp_all add: char_at_def)

lemma char_at_append: "w \<noteq> [] \<Longrightarrow> char_at (w @ s) = char_at w"
  by (cases w) auto

lemma char_at_iff: "c \<noteq> NUL \<Longrightarrow> char_at s = c \<longleftrightarrow> (\<exists>r. s = c # r)"
  by (cases s) auto

lemma NUL_classes [simp]: "\<not> isdigit NUL" "\<not> isalpha NUL" "\<not> isspace NUL"
  by (simp_all add: ctype_defs NUL_def)

text \<open>Scanning a run of characters of one class.\<close>

lemma list_all_takeWhile: "list_all P (takeWhile P s)"
  by (auto simp: list_all_iff dest: set_takeWhileD)

lemma while_all:
  assumes "list_all P w" "\<not> P c"
  shows "takeWhile P (w @ c # s) = w" "dropWhile P (w @ c # s) = c # s"
  using assms by (auto simp: list_all_iff takeWhile_append dropWhile_append takeWhile_eq_all_conv)

lemma no_nul_dropWhile: "no_nul s \<Longrightarrow> no_nul (dropWhile P s)"
  by (auto simp: no_nul_def dest: set_dropWhileD)

text \<open>The \<^verbatim>\<open>'%s'\<close> of the message formats.\<close>

definition quoted :: "string \<Rightarrow> string" where
  "quoted s = [CHR 0x27] @ s @ [CHR 0x27]"

section \<open>Decimal printing\<close>

definition digit_char :: "nat \<Rightarrow> char" where
  "digit_char d = char_of (48 + d)"

fun print_nat :: "nat \<Rightarrow> string" where
  "print_nat n = (if n < 10 then [digit_char n] else print_nat (n div 10) @ [digit_char (n mod 10)])"

declare print_nat.simps [simp del]

definition print_u64 :: "u64 \<Rightarrow> string" where
  "print_u64 v = print_nat (unat v)"

lemma code_digit_char [simp]: "d < 10 \<Longrightarrow> code (digit_char d) = 48 + d"
  by (simp add: code_def digit_char_def)

lemma isdigit_digit_char [simp]: "d < 10 \<Longrightarrow> isdigit (digit_char d)"
  by (simp add: isdigit_def)

lemma print_nat_digits: "c \<in> set (print_nat n) \<Longrightarrow> isdigit c"
proof (induction n rule: print_nat.induct)
  case (1 n)
  show ?case
  proof (cases "n < 10")
    case True
    with "1.prems" show ?thesis by (simp add: print_nat.simps [of n])
  next
    case False
    with "1.prems" have "c \<in> set (print_nat (n div 10)) \<or> c = digit_char (n mod 10)"
      by (auto simp: print_nat.simps [of n])
    with "1.IH" [OF False] show ?thesis by auto
  qed
qed

lemma print_nat_not_Nil [simp]: "print_nat n \<noteq> []"
  by (subst print_nat.simps) simp

lemma no_nul_print_nat: "no_nul (print_nat n)"
  using print_nat_digits [of NUL n] by (auto simp: no_nul_def)

lemma last_print_nat: "isdigit (last (print_nat n))"
  by (rule print_nat_digits [of _ n]) simp

definition print_int :: "int \<Rightarrow> string" where
  "print_int i = (if i < 0 then CHR ''-'' # print_nat (nat (- i)) else print_nat (nat i))"

section \<open>Numbers from text\<close>

text \<open>The value of a string of digits, continued from a value read so far.\<close>

fun digits_value :: "string \<Rightarrow> nat \<Rightarrow> nat" where
  "digits_value [] n = n"
| "digits_value (c # cs) n = digits_value cs (n * 10 + (code c - 48))"

lemma digits_value_append [simp]: "digits_value (xs @ ys) n = digits_value ys (digits_value xs n)"
  by (induction xs arbitrary: n) simp_all

lemma digits_value_mono: "n \<le> digits_value cs n"
proof (induction cs arbitrary: n)
  case (Cons c cs)
  show ?case using Cons.IH [of "n * 10 + (code c - 48)"] by simp
qed simp

lemma digits_value_print: "digits_value (print_nat n) 0 = n"
proof (induction n rule: print_nat.induct)
  case (1 n)
  show ?case
  proof (cases "n < 10")
    case True
    then show ?thesis by (simp add: print_nat.simps [of n])
  next
    case False
    with 1 show ?thesis by (simp add: print_nat.simps [of n])
  qed
qed

text \<open>
  \<^verbatim>\<open>strtoull(s, &endptr, 10)\<close>: leading white space, an optional sign, digits.  The result
  is the value and the unread rest; without digits that rest is the whole text.  A value beyond 64
  bits saturates, and a minus sign negates modulo \<open>2 ^ 64\<close>.
\<close>

definition number_sign :: "string \<Rightarrow> bool \<times> string" where
  "number_sign s =
     (if char_at s = CHR ''-'' then (True, tl s) else if char_at s = CHR ''+'' then (False, tl s) else (False, s))"

definition strtoull :: "string \<Rightarrow> u64 \<times> string" where
  "strtoull s =
     (let (negative, t) = number_sign (dropWhile isspace s);
          digits = takeWhile isdigit t;
          n = digits_value digits 0
      in if digits = [] then (0, s)
         else (if n \<ge> 2 ^ 64 then UINT64_MAX else if negative then - of_nat n else of_nat n, dropWhile isdigit t))"

text \<open>\<^verbatim>\<open>strtol(s, &endptr, 10)\<close> on 64 bits: it saturates at both ends of the range.\<close>

definition strtol :: "string \<Rightarrow> int \<times> string" where
  "strtol s =
     (let (negative, t) = number_sign (dropWhile isspace s);
          digits = takeWhile isdigit t;
          n = int (digits_value digits 0)
      in if digits = [] then (0, s)
         else (max (- (2 ^ 63)) (min (2 ^ 63 - 1) (if negative then - n else n)), dropWhile isdigit t))"

lemma print_nat_inj: "print_nat m = print_nat n \<longleftrightarrow> m = n"
  by (metis digits_value_print)

lemma digit_classes: "isdigit c \<Longrightarrow> \<not> isspace c \<and> c \<noteq> CHR ''-'' \<and> c \<noteq> CHR ''+''"
  by (auto simp: isdigit_def isspace_def code_def)

lemma digits_no_sign:
  assumes "list_all isdigit w" "w \<noteq> []"
  shows "number_sign (dropWhile isspace w) = (False, w)" "takeWhile isdigit w = w" "dropWhile isdigit w = []"
  using assms digit_classes by (cases w; auto simp: number_sign_def list_all_iff takeWhile_eq_all_conv)+

lemma strtoull_digits:
  "list_all isdigit w \<Longrightarrow> w \<noteq> [] \<Longrightarrow>
     strtoull w = (if digits_value w 0 \<ge> 2 ^ 64 then UINT64_MAX else of_nat (digits_value w 0), [])"
  by (simp add: strtoull_def digits_no_sign)

lemma strtoull_print: "n < 2 ^ 64 \<Longrightarrow> strtoull (print_nat n) = (of_nat n, [])"
  using print_nat_digits [of _ n] by (simp add: strtoull_digits list_all_iff digits_value_print)

text \<open>\<^verbatim>\<open>strncmp(s, w, strlen(w)) == 0\<close>.\<close>

definition starts_with :: "string \<Rightarrow> string \<Rightarrow> bool" where
  "starts_with w s \<longleftrightarrow> take (length w) s = w"

text \<open>A command-line argument in its short or long form.\<close>

definition is_option :: "string \<Rightarrow> string \<Rightarrow> string \<Rightarrow> bool" where
  "is_option a short_name long_name \<longleftrightarrow> a = short_name \<or> a = long_name"

section \<open>Lists\<close>

lemma take_Suc_append_nth:
  "i < length xs \<Longrightarrow> take (Suc i) xs = take i xs @ [xs ! i]"
  by (rule take_Suc_conv_app_nth)

end
