(* ===== verification/Json_Writer.thy ===== *)
theory Json_Writer
  imports Prelude
begin

text \<open>
  The growing text buffer of \<^verbatim>\<open>src/json_writer.c\<close>: the characters written so far and the
  allocated capacity.  \<^verbatim>\<open>len\<close> is the length of the characters; \<^verbatim>\<open>realloc\<close>
  does not fail in the model.  Shown: no write passes the capacity, every operation appends exactly
  its text, and an escaped string is a JSON string literal that denotes its text.
\<close>

section \<open>The buffer\<close>

record json_buffer =
  jb_data :: string
  jb_cap :: nat

definition json_buffer_init :: json_buffer where
  "json_buffer_init = \<lparr>jb_data = [], jb_cap = 256\<rparr>"

text \<open>The doubling loop of \<^verbatim>\<open>json_ensure_capacity\<close>; its caller passes a positive capacity.\<close>

function grow_capacity :: "nat \<Rightarrow> nat \<Rightarrow> nat" where
  "grow_capacity required_len new_cap =
     (if 0 < new_cap \<and> required_len + 1 > new_cap then grow_capacity required_len (new_cap * 2) else new_cap)"
  by pat_completeness auto
termination
  by (relation "measure (\<lambda>(required_len, new_cap). required_len + 1 - new_cap)") auto

declare grow_capacity.simps [simp del]

definition json_ensure_capacity :: "json_buffer \<Rightarrow> nat \<Rightarrow> json_buffer" where
  "json_ensure_capacity buf required_len =
     (if required_len + 1 \<le> jb_cap buf then buf
      else buf\<lparr>jb_cap := grow_capacity required_len (if jb_cap buf = 0 then 256 else jb_cap buf)\<rparr>)"

definition json_append :: "json_buffer \<Rightarrow> string \<Rightarrow> json_buffer" where
  "json_append buf str =
     (let buf = json_ensure_capacity buf (length (jb_data buf) + length (cstr str))
      in buf\<lparr>jb_data := jb_data buf @ cstr str\<rparr>)"

definition json_append_char :: "json_buffer \<Rightarrow> char \<Rightarrow> json_buffer" where
  "json_append_char buf ch =
     (let buf = json_ensure_capacity buf (length (jb_data buf) + 1)
      in buf\<lparr>jb_data := jb_data buf @ [ch]\<rparr>)"

definition DQUOTE :: char where "DQUOTE = CHR 0x22"
definition BSLASH :: char where "BSLASH = CHR 0x5C"

text \<open>\<^verbatim>\<open>%04x\<close> of a byte.\<close>

definition hex_digit :: "nat \<Rightarrow> char" where
  "hex_digit d = (if d < 10 then char_of (48 + d) else char_of (87 + d))"

definition control_escape :: "char \<Rightarrow> string" where
  "control_escape ch = [BSLASH] @ ''u00'' @ [hex_digit (code ch div 16), hex_digit (code ch mod 16)]"

text \<open>One round of the loop of \<^verbatim>\<open>json_append_escaped_string\<close>.\<close>

definition append_escaped_char :: "char \<Rightarrow> json_buffer \<Rightarrow> json_buffer" where
  "append_escaped_char ch buf =
     (if ch = DQUOTE then json_append buf [BSLASH, DQUOTE]
      else if ch = BSLASH then json_append buf [BSLASH, BSLASH]
      else if ch = LF then json_append buf [BSLASH, CHR ''n'']
      else if ch = CR then json_append buf [BSLASH, CHR ''r'']
      else if ch = TAB then json_append buf [BSLASH, CHR ''t'']
      else if code ch < 32 then json_append buf (control_escape ch)
      else json_append_char buf ch)"

definition json_append_escaped_string :: "json_buffer \<Rightarrow> string \<Rightarrow> json_buffer" where
  "json_append_escaped_string buf str =
     json_append_char (fold append_escaped_char (cstr str) (json_append_char buf DQUOTE)) DQUOTE"

definition json_buffer_take :: "json_buffer \<Rightarrow> string" where
  "json_buffer_take buf = jb_data buf"

section \<open>The capacity is never exceeded\<close>

text \<open>The characters and the terminating NUL fit into the allocation.\<close>

definition jb_inv :: "json_buffer \<Rightarrow> bool" where
  "jb_inv buf \<longleftrightarrow> length (jb_data buf) + 1 \<le> jb_cap buf"

lemma grow_capacity_enough: "0 < new_cap \<Longrightarrow> required_len + 1 \<le> grow_capacity required_len new_cap"
proof (induction required_len new_cap rule: grow_capacity.induct)
  case (1 required_len new_cap)
  then show ?case by (cases "required_len + 1 > new_cap") (auto simp: grow_capacity.simps [of required_len new_cap])
qed

lemma ensure_capacity:
  "required_len + 1 \<le> jb_cap (json_ensure_capacity buf required_len)"
  "jb_data (json_ensure_capacity buf required_len) = jb_data buf"
  using grow_capacity_enough [of "if jb_cap buf = 0 then 256 else jb_cap buf" required_len]
  by (simp_all add: json_ensure_capacity_def)

lemma init_buffer [simp]: "jb_inv json_buffer_init" "jb_data json_buffer_init = []"
  by (simp_all add: jb_inv_def json_buffer_init_def)

lemma append_buffer [simp]:
  "jb_inv (json_append buf str)" "jb_data (json_append buf str) = jb_data buf @ cstr str"
  using ensure_capacity [where buf = buf and required_len = "length (jb_data buf) + length (cstr str)"]
  by (simp_all add: json_append_def Let_def jb_inv_def)

lemma append_char_buffer [simp]:
  "jb_inv (json_append_char buf ch)" "jb_data (json_append_char buf ch) = jb_data buf @ [ch]"
  using ensure_capacity [where buf = buf and required_len = "length (jb_data buf) + 1"]
  by (simp_all add: json_append_char_def Let_def jb_inv_def)

section \<open>What an escaped string is\<close>

definition escape_json_char :: "char \<Rightarrow> string" where
  "escape_json_char ch =
     (if ch = DQUOTE then [BSLASH, DQUOTE]
      else if ch = BSLASH then [BSLASH, BSLASH]
      else if ch = LF then [BSLASH, CHR ''n'']
      else if ch = CR then [BSLASH, CHR ''r'']
      else if ch = TAB then [BSLASH, CHR ''t'']
      else if code ch < 32 then control_escape ch
      else [ch])"

definition escape_json :: "string \<Rightarrow> string" where
  "escape_json str = concat (map escape_json_char str)"

definition json_string_text :: "string \<Rightarrow> string" where
  "json_string_text str = [DQUOTE] @ escape_json str @ [DQUOTE]"

lemma hex_digit_not_NUL: "d < 16 \<Longrightarrow> hex_digit d \<noteq> NUL"
proof -
  have "d < 16 \<Longrightarrow> code (hex_digit d) \<noteq> code NUL" by (simp add: hex_digit_def code_def NUL_def)
  then show "d < 16 \<Longrightarrow> hex_digit d \<noteq> NUL" by auto
qed

lemma no_nul_control_escape: "no_nul (control_escape ch)"
proof -
  have "code ch < 256" by (simp add: code_def)
  then have "code ch div 16 < 16" "code ch mod 16 < 16" by auto
  with hex_digit_not_NUL show ?thesis by (simp add: control_escape_def BSLASH_def NUL_def)
qed

lemma append_escaped_char_data:
  "jb_data (append_escaped_char ch buf) = jb_data buf @ escape_json_char ch" "jb_inv (append_escaped_char ch buf)"
  by (auto simp: append_escaped_char_def escape_json_char_def no_nul_control_escape DQUOTE_def BSLASH_def NUL_def)

lemma fold_append_escaped: "jb_data (fold append_escaped_char str buf) = jb_data buf @ escape_json str"
  by (induction str arbitrary: buf) (simp_all add: append_escaped_char_data escape_json_def)

lemma append_escaped_buffer [simp]:
  "jb_inv (json_append_escaped_string buf str)"
  "jb_data (json_append_escaped_string buf str) = jb_data buf @ json_string_text (cstr str)"
  by (simp_all add: json_append_escaped_string_def fold_append_escaped json_string_text_def)

section \<open>JSON string literals\<close>

text \<open>
  A reference decoder for the inside of a JSON string literal (RFC 8259), as far as it denotes bytes:
  the characters up to the closing quote, and the text after it.
\<close>

definition hex_value :: "char \<Rightarrow> nat option" where
  "hex_value c =
     (if isdigit c then Some (code c - 48)
      else if 97 \<le> code c \<and> code c \<le> 102 then Some (code c - 87)
      else if 65 \<le> code c \<and> code c \<le> 70 then Some (code c - 55)
      else None)"

definition hex4 :: "char list \<Rightarrow> char option" where
  "hex4 ds = (case map hex_value ds of
       [Some a, Some b, Some c, Some d] \<Rightarrow>
         (let n = ((a * 16 + b) * 16 + c) * 16 + d in if n < 128 then Some (char_of n) else None)
     | _ \<Rightarrow> None)"

definition simple_escapes :: "(char \<times> char) list" where
  "simple_escapes = [(DQUOTE, DQUOTE), (BSLASH, BSLASH), (CHR ''/'', CHR ''/''), (CHR ''b'', CHR 0x08),
     (CHR ''f'', CHR 0x0C), (CHR ''n'', LF), (CHR ''r'', CR), (CHR ''t'', TAB)]"

definition cons_char :: "char option \<Rightarrow> (string \<times> string) option \<Rightarrow> (string \<times> string) option" where
  "cons_char c r = (case (c, r) of (Some c, Some (s, rest)) \<Rightarrow> Some (c # s, rest) | _ \<Rightarrow> None)"

fun json_literal :: "string \<Rightarrow> (string \<times> string) option" where
  "json_literal [] = None"
| "json_literal (c # s) =
     (if c = DQUOTE then Some ([], s)
      else if code c < 32 then None
      else if c = BSLASH then
        (case s of
           [] \<Rightarrow> None
         | e # s1 \<Rightarrow>
             if e = CHR ''u'' then cons_char (hex4 (take 4 s1)) (json_literal (drop 4 s1))
             else cons_char (map_of simple_escapes e) (json_literal s1))
      else cons_char (Some c) (json_literal s))"

lemma hex_value_digit:
  assumes "d < 16"
  shows "hex_value (hex_digit d) = Some d"
proof (cases "d < 10")
  case True
  then show ?thesis by (simp add: hex_digit_def hex_value_def isdigit_def code_def)
next
  case False
  with assms have "code (hex_digit d) = 87 + d" by (simp add: hex_digit_def code_def)
  with False assms show ?thesis by (simp add: hex_value_def isdigit_def)
qed

lemma hex4_control:
  assumes "code c < 32"
  shows "hex4 [CHR ''0'', CHR ''0'', hex_digit (code c div 16), hex_digit (code c mod 16)] = Some c"
proof -
  have z: "hex_value (CHR ''0'') = Some 0" by (simp add: hex_value_def isdigit_def code_def)
  have "hex_value (hex_digit (code c div 16)) = Some (code c div 16)"
    "hex_value (hex_digit (code c mod 16)) = Some (code c mod 16)"
    using assms by (auto intro!: hex_value_digit)
  with assms show ?thesis by (simp add: hex4_def z Let_def) (simp add: code_def)
qed

lemma literal_char: "json_literal (escape_json_char c @ s) = cons_char (Some c) (json_literal s)"
proof -
  have q: "code DQUOTE = 34" "code BSLASH = 92" "DQUOTE \<noteq> BSLASH" "BSLASH \<noteq> DQUOTE"
    by (simp_all add: code_def DQUOTE_def BSLASH_def)
  consider (simple) "c \<in> {DQUOTE, BSLASH, LF, CR, TAB}" | (control) "c \<notin> {DQUOTE, BSLASH, LF, CR, TAB}" "code c < 32"
    | (plain) "c \<notin> {DQUOTE, BSLASH, LF, CR, TAB}" "\<not> code c < 32" by blast
  then show ?thesis
  proof cases
    case simple
    then show ?thesis using q
      by (auto simp: escape_json_char_def simple_escapes_def DQUOTE_def BSLASH_def LF_def CR_def TAB_def)
  next
    case control
    then show ?thesis using q hex4_control [of c] by (simp add: escape_json_char_def control_escape_def)
  next
    case plain
    then show ?thesis by (simp add: escape_json_char_def)
  qed
qed

lemma literal_escape: "json_literal (escape_json str @ DQUOTE # rest) = Some (str, rest)"
proof (induction str)
  case (Cons c str)
  have "escape_json (c # str) @ DQUOTE # rest = escape_json_char c @ (escape_json str @ DQUOTE # rest)"
    by (simp add: escape_json_def)
  with Cons show ?case by (simp only: literal_char) (simp add: cons_char_def)
qed (simp add: escape_json_def)

section \<open>Properties of the writer\<close>

text \<open>
  C24. Appending a string to the buffer writes, after what is there, a quote and then a text that the
  JSON rules for string literals decode to exactly the string, whatever follows it; the text and its
  terminating NUL fit into the allocated capacity, which the doubling loop provides.
\<close>

theorem escaped_string_denotes_text:
  "\<exists>body. jb_data (json_append_escaped_string buf str) = jb_data buf @ [DQUOTE] @ body \<and>
     (\<forall>rest. json_literal (body @ rest) = Some (cstr str, rest)) \<and>
     length (jb_data (json_append_escaped_string buf str)) < jb_cap (json_append_escaped_string buf str)"
  using literal_escape append_escaped_buffer(1) [of buf str]
  by (intro exI [of _ "escape_json (cstr str) @ [DQUOTE]"]) (simp add: json_string_text_def jb_inv_def)

end
