(* ===== verification/Http.thy ===== *)
theory Http
  imports Json_Writer
begin

text \<open>
  Reading a request from a socket and writing a response to it, \<^verbatim>\<open>src/http.c\<close>.  The
  network is a list of events: what successive calls of \<^verbatim>\<open>recv\<close> and \<^verbatim>\<open>send\<close>
  return, data in arbitrary pieces, interruptions by signals and errors included.  Shown: the request
  read depends only on the bytes and not on how the network cuts them, it stays within the fixed
  buffers, and a response is sent completely however it is cut.
\<close>

section \<open>The network\<close>

text \<open>The end of the list is the end of the stream.\<close>

datatype recv_event = Bytes string | Interrupted | Broken

datatype recv_result = Received string | Recv_interrupted | Recv_failed

fun recv :: "nat \<Rightarrow> recv_event list \<Rightarrow> recv_result \<times> recv_event list" where
  "recv len [] = (Received [], [])"
| "recv len (Bytes s # es) = (Received (take len s), if length s \<le> len then es else Bytes (drop len s) # es)"
| "recv len (Interrupted # es) = (Recv_interrupted, es)"
| "recv len (Broken # es) = (Recv_failed, es)"

fun recv_size :: "recv_event \<Rightarrow> nat" where
  "recv_size (Bytes s) = Suc (length s)"
| "recv_size _ = 1"

definition net_size :: "recv_event list \<Rightarrow> nat" where
  "net_size es = sum_list (map recv_size es)"

lemma recv_received: "recv len es = (Received d, es') \<Longrightarrow> d \<noteq> [] \<Longrightarrow> net_size es' < net_size es"
  by (induction len es rule: recv.induct) (auto simp: net_size_def split: if_splits)

lemma recv_interrupted: "recv len es = (Recv_interrupted, es') \<Longrightarrow> net_size es' < net_size es"
  by (induction len es rule: recv.induct) (auto simp: net_size_def split: if_splits)

text \<open>What the calls of \<^verbatim>\<open>send\<close> do: take some bytes (at most those offered), or fail.\<close>

datatype send_event = Takes nat | Send_interrupted | Send_broken

section \<open>Requests\<close>

record http_request =
  http_method :: string
  path :: string
  body :: string
  body_len :: nat

datatype http_read_status = HTTP_READ_BAD_REQUEST | HTTP_READ_PAYLOAD_TOO_LARGE | HTTP_READ_INTERNAL_ERROR

type_synonym 'a http_result = "(http_read_status \<times> string) + 'a"

definition HTTP_MAX_HEADER_SIZE :: nat where "HTTP_MAX_HEADER_SIZE = 8192"
definition HTTP_MAX_BODY_SIZE :: nat where "HTTP_MAX_BODY_SIZE = 8192"
definition HTTP_MAX_METHOD_SIZE :: nat where "HTTP_MAX_METHOD_SIZE = 8"
definition HTTP_MAX_PATH_SIZE :: nat where "HTTP_MAX_PATH_SIZE = 256"

lemmas http_sizes = HTTP_MAX_HEADER_SIZE_def HTTP_MAX_BODY_SIZE_def HTTP_MAX_METHOD_SIZE_def HTTP_MAX_PATH_SIZE_def

definition bad_request :: "string \<Rightarrow> 'a http_result" where
  "bad_request msg = Inl (HTTP_READ_BAD_REQUEST, set_error msg)"

text \<open>The first position at which \<^verbatim>\<open>\r\n\r\n\<close> begins.\<close>

fun find_header_end :: "string \<Rightarrow> nat option" where
  "find_header_end (a # b # c # d # s) =
     (if a = CR \<and> b = LF \<and> c = CR \<and> d = LF then Some 0
      else map_option Suc (find_header_end (b # c # d # s)))"
| "find_header_end _ = None"

text \<open>\<^verbatim>\<open>strstr(s, "\r\n")\<close>: the line before it and what follows.\<close>

fun split_crlf :: "string \<Rightarrow> (string \<times> string) option" where
  "split_crlf (a # b # s) =
     (if a = CR \<and> b = LF then Some ([], s)
      else map_option (\<lambda>(line, rest). (a # line, rest)) (split_crlf (b # s)))"
| "split_crlf _ = None"

text \<open>\<^verbatim>\<open>strchr(s, c)\<close>: the text before it and what follows.\<close>

definition split_char :: "char \<Rightarrow> string \<Rightarrow> (string \<times> string) option" where
  "split_char c s = (case dropWhile (\<lambda>x. x \<noteq> c) s of [] \<Rightarrow> None | _ # rest \<Rightarrow> Some (takeWhile (\<lambda>x. x \<noteq> c) s, rest))"

definition parse_request_line :: "string \<Rightarrow> (string \<times> string) http_result" where
  "parse_request_line line =
     (case split_char (CHR '' '') line of
        None \<Rightarrow> bad_request ''malformed request line''
      | Some (mthd, after) \<Rightarrow>
          (case split_char (CHR '' '') after of
             None \<Rightarrow> bad_request ''malformed request line''
           | Some (pth, version) \<Rightarrow>
               if mthd = [] \<or> length mthd \<ge> HTTP_MAX_METHOD_SIZE \<or> pth = [] \<or> length pth \<ge> HTTP_MAX_PATH_SIZE \<or>
                  version = [] \<or> \<not> starts_with ''HTTP/'' version
               then bad_request ''malformed request line''
               else Inr (mthd, pth)))"

text \<open>\<^verbatim>\<open>strncasecmp(line, "Content-Length:", 15) == 0\<close>.\<close>

definition is_content_length :: "string \<Rightarrow> bool" where
  "is_content_length line \<longleftrightarrow> map toupper (take 15 line) = map toupper ''Content-Length:''"

definition content_length_value :: "string \<Rightarrow> u64 http_result" where
  "content_length_value line =
     (let v = dropWhile (\<lambda>c. c = CHR '' '' \<or> c = TAB) (drop 15 line) in
      if v = [] then bad_request ''missing Content-Length''
      else let (parsed, rest) = strtoull v
           in if rest \<noteq> [] then bad_request ''invalid Content-Length'' else Inr parsed)"

lemma split_crlf_shorter: "split_crlf s = Some (line, rest) \<Longrightarrow> length rest < length s"
  by (induction s arbitrary: line rest rule: split_crlf.induct) (fastforce split: if_splits)+

text \<open>The loop over the header lines: the length found, if any.\<close>

function content_length_loop :: "u64 option \<Rightarrow> string \<Rightarrow> u64 option http_result" where
  "content_length_loop found s =
     (if s = [] then Inr found
      else case split_crlf s of
        None \<Rightarrow> bad_request ''malformed request headers''
      | Some (line, rest) \<Rightarrow>
          if line = [] then Inr found
          else if is_content_length line then
            (if found \<noteq> None then bad_request ''duplicate Content-Length''
             else case content_length_value line of
                    Inl e \<Rightarrow> Inl e
                  | Inr n \<Rightarrow> content_length_loop (Some n) rest)
          else content_length_loop found rest)"
  by pat_completeness auto
termination
  by (relation "measure (\<lambda>(found, s). length s)") (auto dest: split_crlf_shorter)

declare content_length_loop.simps [simp del]

definition parse_content_length :: "string \<Rightarrow> u64 option http_result" where
  "parse_content_length headers = content_length_loop None (cstr headers)"

text \<open>The body length that the request line and the header lines ask for.\<close>

definition request_head :: "string \<Rightarrow> (string \<times> string \<times> nat) http_result" where
  "request_head buffer =
     (case split_crlf (cstr buffer) of
        None \<Rightarrow> bad_request ''malformed request line''
      | Some (line, rest) \<Rightarrow>
          (case parse_request_line line of
             Inl e \<Rightarrow> Inl e
           | Inr (mthd, pth) \<Rightarrow>
               if mthd = ''POST'' then
                 (case parse_content_length rest of
                    Inl e \<Rightarrow> Inl e
                  | Inr None \<Rightarrow> bad_request ''missing Content-Length''
                  | Inr (Some n) \<Rightarrow>
                      if unat n > HTTP_MAX_BODY_SIZE
                      then Inl (HTTP_READ_PAYLOAD_TOO_LARGE, set_error ''request body too large'')
                      else Inr (mthd, pth, unat n))
               else Inr (mthd, pth, 0)))"

text \<open>Reading until the header is complete.\<close>

function header_loop :: "string \<Rightarrow> recv_event list \<Rightarrow> (nat \<times> string \<times> recv_event list) http_result" where
  "header_loop buffer es =
     (case find_header_end buffer of
        Some i \<Rightarrow> Inr (i, buffer, es)
      | None \<Rightarrow>
          if length buffer \<ge> HTTP_MAX_HEADER_SIZE then bad_request ''request header too large''
          else case recv (HTTP_MAX_HEADER_SIZE + HTTP_MAX_BODY_SIZE - length buffer) es of
            (Recv_interrupted, es') \<Rightarrow> header_loop buffer es'
          | (Recv_failed, es') \<Rightarrow> bad_request ''failed to read request''
          | (Received d, es') \<Rightarrow>
              if d = [] then bad_request ''unexpected EOF while reading request''
              else header_loop (buffer @ d) es')"
  by pat_completeness auto
termination
  by (relation "measure (\<lambda>(buffer, es). net_size es)") (auto dest!: recv_received [OF sym] recv_interrupted [OF sym])

text \<open>Reading the rest of the body.\<close>

function body_loop :: "nat \<Rightarrow> string \<Rightarrow> recv_event list \<Rightarrow> (string \<times> recv_event list) http_result" where
  "body_loop n got es =
     (if length got \<ge> n then Inr (got, es)
      else case recv (n - length got) es of
        (Recv_interrupted, es') \<Rightarrow> body_loop n got es'
      | (Recv_failed, es') \<Rightarrow> bad_request ''failed to read request body''
      | (Received d, es') \<Rightarrow>
          if d = [] then bad_request ''unexpected EOF while reading request body''
          else body_loop n (got @ d) es')"
  by pat_completeness auto
termination
  by (relation "measure (\<lambda>(n, got, es). net_size es)") (auto dest!: recv_received [OF sym] recv_interrupted [OF sym])

declare header_loop.simps [simp del] body_loop.simps [simp del]

definition http_read_request :: "recv_event list \<Rightarrow> http_request http_result" where
  "http_read_request es =
     (case header_loop [] es of
        Inl e \<Rightarrow> Inl e
      | Inr (i, buffer, es1) \<Rightarrow>
          if i + 4 > HTTP_MAX_HEADER_SIZE then bad_request ''request header too large''
          else case request_head buffer of
            Inl e \<Rightarrow> Inl e
          | Inr (mthd, pth, n) \<Rightarrow>
              (case body_loop n (take n (drop (i + 4) buffer)) es1 of
                 Inl e \<Rightarrow> Inl e
               | Inr (b, _) \<Rightarrow> Inr \<lparr>http_method = mthd, path = pth, body = b, body_len = n\<rparr>))"

section \<open>Responses\<close>

definition http_status_text :: "int \<Rightarrow> string" where
  "http_status_text status_code =
     (if status_code = 200 then ''OK''
      else if status_code = 400 then ''Bad Request''
      else if status_code = 404 then ''Not Found''
      else if status_code = 405 then ''Method Not Allowed''
      else if status_code = 413 then ''Payload Too Large''
      else if status_code = 500 then ''Internal Server Error''
      else if status_code = 503 then ''Service Unavailable''
      else ''Internal Server Error'')"

text \<open>The bytes sent, whether all were, and the remaining events.\<close>

fun write_all :: "string \<Rightarrow> send_event list \<Rightarrow> string \<times> bool \<times> send_event list" where
  "write_all buf es =
     (if buf = [] then ([], True, es)
      else case es of
        [] \<Rightarrow> ([], False, [])
      | Send_interrupted # es' \<Rightarrow> write_all buf es'
      | Send_broken # es' \<Rightarrow> ([], False, es')
      | Takes k # es' \<Rightarrow>
          if k = 0 then ([], False, es')
          else let (sent, ok, es'') = write_all (drop k buf) es' in (take k buf @ sent, ok, es''))"

declare write_all.simps [simp del]

definition CRLF :: string where
  "CRLF = [CR, LF]"

definition response_header :: "int \<Rightarrow> nat \<Rightarrow> string" where
  "response_header status_code n =
     ''HTTP/1.1 '' @ print_int status_code @ '' '' @ http_status_text status_code @ CRLF @
     ''Content-Type: application/json'' @ CRLF @
     ''Content-Length: '' @ print_nat n @ CRLF @
     ''Connection: close'' @ CRLF @ CRLF"

definition http_send_json_response :: "int \<Rightarrow> string \<Rightarrow> send_event list \<Rightarrow> string \<times> bool \<times> send_event list" where
  "http_send_json_response status_code json_body es =
     (let text_body = cstr json_body;
          header = response_header status_code (length text_body)
      in if length header \<ge> 256 then ([], False, es)
         else case write_all header es of
           (sent, False, es') \<Rightarrow> (sent, False, es')
         | (sent, True, es') \<Rightarrow>
             if text_body = [] then (sent, True, es')
             else let (sent', ok, es'') = write_all text_body es' in (sent @ sent', ok, es''))"

definition error_body :: "string \<Rightarrow> string \<Rightarrow> string" where
  "error_body error_code msg =
     (let buf = json_append json_buffer_init
            (''{'' @ [DQUOTE] @ ''success'' @ [DQUOTE] @ '':false,'' @ [DQUOTE] @ ''error_code'' @ [DQUOTE] @ '':'');
          buf = json_append_escaped_string buf error_code;
          buf = json_append buf ('','' @ [DQUOTE] @ ''message'' @ [DQUOTE] @ '':'');
          buf = json_append_escaped_string buf msg
      in json_buffer_take (json_append_char buf (CHR ''}'')))"

definition http_send_error_response ::
  "int \<Rightarrow> string \<Rightarrow> string \<Rightarrow> send_event list \<Rightarrow> string \<times> bool \<times> send_event list" where
  "http_send_error_response status_code error_code msg es =
     http_send_json_response status_code (error_body error_code msg) es"


section \<open>A request as a function of the bytes of the stream\<close>

text \<open>The bytes up to the end of the stream or the first error, and whether there is one.\<close>

fun stream :: "recv_event list \<Rightarrow> string \<times> bool" where
  "stream [] = ([], False)"
| "stream (Bytes s # es) = (let (bs, broken) = stream es in (s @ bs, broken))"
| "stream (Interrupted # es) = stream es"
| "stream (Broken # es) = ([], True)"

text \<open>\<^verbatim>\<open>recv\<close> returns no bytes only at the end of the stream.\<close>

definition net_ok :: "recv_event list \<Rightarrow> bool" where
  "net_ok es \<longleftrightarrow> Bytes [] \<notin> set es"

definition http_parse :: "string \<Rightarrow> bool \<Rightarrow> http_request http_result" where
  "http_parse bs broken =
     (case find_header_end bs of
        None \<Rightarrow>
          bad_request (if length bs \<ge> HTTP_MAX_HEADER_SIZE then ''request header too large''
                       else if broken then ''failed to read request''
                       else ''unexpected EOF while reading request'')
      | Some i \<Rightarrow>
          if i + 4 > HTTP_MAX_HEADER_SIZE then bad_request ''request header too large''
          else case request_head (take (i + 4) bs) of
            Inl e \<Rightarrow> Inl e
          | Inr (mthd, pth, n) \<Rightarrow>
              if length bs < i + 4 + n then
                bad_request (if broken then ''failed to read request body'' else ''unexpected EOF while reading request body'')
              else Inr \<lparr>http_method = mthd, path = pth, body = take n (drop (i + 4) bs), body_len = n\<rparr>)"

lemma recv_stream:
  assumes "recv len es = (Received d, es')" "net_ok es" "0 < len"
  shows "net_ok es' \<and> stream es = (d @ fst (stream es'), snd (stream es')) \<and> (d = [] \<longrightarrow> stream es = ([], False)) \<and> length d \<le> len"
  using assms by (cases es rule: stream.cases) (auto simp: net_ok_def split: if_splits prod.splits)

lemma recv_no_data:
  "recv len es = (Recv_interrupted, es') \<Longrightarrow> net_ok es \<Longrightarrow> net_ok es' \<and> stream es' = stream es"
  "recv len es = (Recv_failed, es') \<Longrightarrow> stream es = ([], True)"
  by (cases es rule: stream.cases; simp add: net_ok_def)+

lemma find_end_append: "find_header_end s = Some i \<Longrightarrow> find_header_end (s @ x) = Some i"
  by (induction s arbitrary: i rule: find_header_end.induct) (auto split: if_splits)

lemma find_end_bound: "find_header_end s = Some i \<Longrightarrow> i + 4 \<le> length s \<and> s = take i s @ [CR, LF, CR, LF] @ drop (i + 4) s"
proof (induction s arbitrary: i rule: find_header_end.induct)
  case (1 a b c d s)
  show ?case
  proof (cases "a = CR \<and> b = LF \<and> c = CR \<and> d = LF")
    case False
    with 1(2) obtain j where "i = Suc j" "find_header_end (b # c # d # s) = Some j" by (auto split: if_splits)
    with 1(1) [OF False, of j] drop_Suc_Cons [of "j + 4" a] show ?thesis by (simp add: add.commute)
  qed (use 1(2) in auto)
qed simp_all

lemma find_end_prefix: "find_header_end (s @ x) = Some i \<Longrightarrow> i + 4 \<le> length s \<Longrightarrow> find_header_end s = Some i"
  by (induction s arbitrary: i rule: find_header_end.induct) (auto split: if_splits)

text \<open>The header loop, by what it has read and the rest of the stream.\<close>

definition header_outcome ::
  "string \<Rightarrow> bool \<Rightarrow> (nat \<times> string \<times> recv_event list) http_result \<Rightarrow> bool" where
  "header_outcome bs broken r \<longleftrightarrow>
     (case r of
        Inr (i, buffer, es) \<Rightarrow>
          find_header_end bs = Some i \<and> find_header_end buffer = Some i \<and> buffer @ fst (stream es) = bs \<and>
          snd (stream es) = broken \<and> net_ok es
      | Inl e \<Rightarrow>
          (case find_header_end bs of
             Some i \<Rightarrow> i + 4 > HTTP_MAX_HEADER_SIZE \<and> Inl e = (bad_request ''request header too large'' :: unit http_result)
           | None \<Rightarrow> Inl e = (bad_request (if length bs \<ge> HTTP_MAX_HEADER_SIZE then ''request header too large''
                       else if broken then ''failed to read request''
                       else ''unexpected EOF while reading request'') :: unit http_result)))"

lemma header_loop_outcome:
  "net_ok es \<Longrightarrow> header_outcome (buffer @ fst (stream es)) (snd (stream es)) (header_loop buffer es)"
proof (induction buffer es rule: header_loop.induct)
  case (1 buffer es)
  let ?len = "HTTP_MAX_HEADER_SIZE + HTTP_MAX_BODY_SIZE - length buffer"
  show ?case
  proof (cases "find_header_end buffer")
    case (Some i)
    with 1 find_end_append show ?thesis by (simp add: header_loop.simps [of buffer] header_outcome_def)
  next
    case None
    show ?thesis
    proof (cases "length buffer \<ge> HTTP_MAX_HEADER_SIZE")
      case True
      then have "header_loop buffer es = bad_request ''request header too large''"
        using None by (simp add: header_loop.simps [of buffer])
      moreover have "i + 4 > HTTP_MAX_HEADER_SIZE" if "find_header_end (buffer @ fst (stream es)) = Some i" for i
        using find_end_prefix [OF that] None True by fastforce
      ultimately show ?thesis using True by (auto simp: header_outcome_def bad_request_def split: option.split)
    next
      case False
      then have len: "0 < ?len" by (simp add: http_sizes)
      obtain r es' where r: "recv ?len es = (r, es')" by fastforce
      note step = header_loop.simps [of buffer] None False r
      show ?thesis
      proof (cases r)
        case (Received d)
        note st = recv_stream [OF r [unfolded Received] 1(3) len]
        show ?thesis
        proof (cases "d = []")
          case True
          with st have "stream es = ([], False)" by metis
          with True None False Received show ?thesis by (simp add: step header_outcome_def bad_request_def)
        next
          case d: False
          from 1(1) [OF None False r [symmetric] Received d] st d show ?thesis
            by (simp add: step Received)
        qed
      next
        case Recv_interrupted
        with 1(2) [OF None False r [symmetric]] recv_no_data(1) [of ?len es es'] r 1(3) show ?thesis by (simp add: step)
      next
        case Recv_failed
        then have "stream es = ([], True)" using recv_no_data(2) r by blast
        with Recv_failed None False show ?thesis by (simp add: step header_outcome_def bad_request_def)
      qed
    qed
  qed
qed


text \<open>The head of a request depends only on the bytes up to the empty line.\<close>

lemma split_crlf_append: "split_crlf s = Some (line, rest) \<Longrightarrow> split_crlf (s @ x) = Some (line, rest @ x)"
  by (induction s arbitrary: line rest rule: split_crlf.induct) (auto split: if_splits)

lemma split_crlf_eq: "split_crlf s = Some (line, rest) \<Longrightarrow> s = line @ [CR, LF] @ rest"
  by (induction s arbitrary: line rest rule: split_crlf.induct) (auto split: if_splits)

lemma split_crlf_found: "\<exists>line rest. split_crlf (u @ [CR, LF]) = Some (line, rest)"
  by (induction u rule: split_crlf.induct) auto

definition ends_line :: "string \<Rightarrow> bool" where
  "ends_line w \<longleftrightarrow> w = [] \<or> (\<exists>u. w = u @ [CR, LF])"

lemma ends_line_rest:
  assumes "split_crlf (u @ [CR, LF]) = Some (line, rest)"
  shows "ends_line rest"
proof (cases rest rule: rev_cases)
  case (snoc r c)
  from split_crlf_eq [OF assms] snoc have e: "u @ [CR] = line @ [CR, LF] @ r" "c = LF" by simp_all
  then have "r \<noteq> []" by (auto simp: LF_def CR_def)
  then obtain r' d where r: "r = r' @ [d]" by (metis rev_exhaust)
  with e(1) have "d = CR" by simp
  with r snoc e(2) show ?thesis by (simp add: ends_line_def)
qed (simp add: ends_line_def)

lemma split_header_line:
  assumes "ends_line w" "w \<noteq> []"
  obtains line rest where "split_crlf w = Some (line, rest)" "ends_line rest" "length rest < length w"
proof -
  obtain u where u: "w = u @ [CR, LF]" using assms by (auto simp: ends_line_def)
  with split_crlf_found obtain line rest where "split_crlf w = Some (line, rest)" by blast
  with u ends_line_rest split_crlf_shorter that show thesis by blast
qed

lemma content_length_line:
  assumes "split_crlf s = Some (line, rest)"
  shows "content_length_loop found s =
    (if line = [] then Inr found
     else if is_content_length line then
       (if found \<noteq> None then bad_request ''duplicate Content-Length''
        else case content_length_value line of
               Inl e \<Rightarrow> Inl e
             | Inr n \<Rightarrow> content_length_loop (Some n) rest)
     else content_length_loop found rest)"
  using assms by (cases "s = []") (simp_all add: content_length_loop.simps [of found s])

lemma content_length_local:
  "ends_line w \<Longrightarrow> content_length_loop found (w @ [CR, LF] @ r) = content_length_loop found (w @ [CR, LF])"
proof (induction "length w" arbitrary: w found rule: less_induct)
  case less
  show ?case
  proof (cases "w = []")
    case True
    then show ?thesis by (simp add: content_length_loop.simps [of found])
  next
    case False
    with less.prems obtain line rest where l: "split_crlf w = Some (line, rest)" "ends_line rest" "length rest < length w"
      using split_header_line by blast
    then have IH: "content_length_loop f (rest @ [CR, LF] @ r) = content_length_loop f (rest @ [CR, LF])" for f
      using less.hyps by blast
    show ?thesis
      using content_length_line [OF split_crlf_append [OF l(1), of "[CR, LF] @ r"], of found]
        content_length_line [OF split_crlf_append [OF l(1), of "[CR, LF]"], of found] IH
      by (simp split: sum.split)
  qed
qed

lemma cstr_append_nul: "\<not> no_nul h \<Longrightarrow> cstr (h @ x) = cstr h"
  by (auto simp: cstr_def no_nul_def takeWhile_append)

lemma cstr_append: "no_nul h \<Longrightarrow> cstr (h @ x) = h @ cstr x"
  by (auto simp: cstr_def no_nul_def takeWhile_append)

lemma no_nul_crlf: "no_nul [CR, LF, CR, LF]" "no_nul [CR, LF]"
  by (simp_all add: NUL_def CR_def LF_def)

lemma request_head_local: "request_head (h @ [CR, LF, CR, LF] @ x) = request_head (h @ [CR, LF, CR, LF])"
proof (cases "no_nul h")
  case True
  obtain line rest where l: "split_crlf (h @ [CR, LF]) = Some (line, rest)" using split_crlf_found by blast
  have n: "no_nul rest" using split_crlf_eq [OF l] True by (metis no_nul_crlf(2) no_nul_simps(3))
  have "cstr (h @ [CR, LF, CR, LF] @ x) = (h @ [CR, LF]) @ [CR, LF] @ cstr x"
    "cstr (h @ [CR, LF, CR, LF]) = (h @ [CR, LF]) @ [CR, LF]"
    using True cstr_append [OF no_nul_crlf(1), of x] no_nul_crlf by (simp_all add: cstr_append)
  then have s: "split_crlf (cstr (h @ [CR, LF, CR, LF] @ x)) = Some (line, rest @ [CR, LF] @ cstr x)"
    "split_crlf (cstr (h @ [CR, LF, CR, LF])) = Some (line, rest @ [CR, LF])"
    using split_crlf_append [OF l] by metis+
  have "parse_content_length (rest @ [CR, LF] @ cstr x) = parse_content_length (rest @ [CR, LF])"
    using content_length_local [OF ends_line_rest [OF l]] n no_nul_crlf(2)
    by (simp add: parse_content_length_def cstr_append del: append_assoc)
  then show ?thesis unfolding request_head_def s by (simp split: sum.split)
next
  case False
  then show ?thesis using cstr_append_nul [OF False] unfolding request_head_def by metis
qed

lemma request_head_complete:
  assumes "find_header_end s = Some i"
  shows "request_head s = request_head (take (i + 4) s)"
proof -
  have s: "i + 4 \<le> length s" "s = take i s @ [CR, LF, CR, LF] @ drop (i + 4) s" using find_end_bound [OF assms] by simp_all
  then have "take (i + 4) s = take i s @ [CR, LF, CR, LF]"
    by (metis (no_types, lifting) append.assoc append_eq_conv_conj length_append length_take list.size(3,4) min.absorb2
        add_leD1 numeral_Bit0 One_nat_def add_Suc_right add_0_right numeral_One)
  with request_head_local [of "take i s" "drop (i + 4) s"] s(2) show ?thesis by metis
qed

text \<open>The body loop.\<close>

lemma body_loop_outcome:
  "net_ok es \<Longrightarrow> length got \<le> n \<Longrightarrow>
   (case body_loop n got es of
      Inr (b, _) \<Rightarrow> n \<le> length got + length (fst (stream es)) \<and> b = take n (got @ fst (stream es))
    | Inl e \<Rightarrow> length got + length (fst (stream es)) < n \<and>
        Inl e = (bad_request (if snd (stream es) then ''failed to read request body''
                              else ''unexpected EOF while reading request body'') :: unit http_result))"
proof (induction n got es rule: body_loop.induct)
  case (1 n got es)
  show ?case
  proof (cases "length got \<ge> n")
    case True
    with 1(4) show ?thesis by (simp add: body_loop.simps [of n])
  next
    case False
    obtain r es' where r: "recv (n - length got) es = (r, es')" by fastforce
    note step = body_loop.simps [of n got] False r
    have lt: "length got < n" using False by simp
    show ?thesis
    proof (cases r)
      case (Received d)
      have st: "net_ok es'" "stream es = (d @ fst (stream es'), snd (stream es'))" "length d \<le> n - length got"
        "d = [] \<longrightarrow> stream es = ([], False)"
        using recv_stream [OF r [unfolded Received] 1(3)] False by auto
      show ?thesis
      proof (cases "d = []")
        case True
        with st(4) have "stream es = ([], False)" by blast
        with True False Received show ?thesis by (simp add: step bad_request_def lt)
      next
        case d: False
        have "length (got @ d) \<le> n" using st(3) lt by simp
        note IH = 1(1) [OF False r [symmetric] Received d st(1) this, unfolded append_assoc length_append add.assoc]
        have e: "fst (stream es) = d @ fst (stream es')" "snd (stream es) = snd (stream es')" using st(2) by simp_all
        have "body_loop n got es = body_loop n (got @ d) es'" using d by (simp add: step Received)
        with IH show ?thesis unfolding e length_append by simp
      qed
    next
      case Recv_interrupted
      then have e: "net_ok es'" "stream es' = stream es" using recv_no_data(1) [of "n - length got" es es'] r 1(3) by simp_all
      have "body_loop n got es = body_loop n got es'"
        using Recv_interrupted False r by (simp add: body_loop.simps [of n got es])
      with 1(2) [OF False r [symmetric] Recv_interrupted e(1) 1(4)] show ?thesis unfolding e(2) by simp
    next
      case Recv_failed
      then have "stream es = ([], True)" using recv_no_data(2) r by blast
      with Recv_failed False show ?thesis by (simp add: step bad_request_def lt)
    qed
  qed
qed


lemma body_read:
  assumes "net_ok es" "k \<le> length buffer"
  shows "(case body_loop n (take n (drop k buffer)) es of Inl e \<Rightarrow> Inl e | Inr (b, _) \<Rightarrow> Inr (f b)) =
    (if length (buffer @ fst (stream es)) < k + n then
       bad_request (if snd (stream es) then ''failed to read request body'' else ''unexpected EOF while reading request body'')
     else Inr (f (take n (drop k (buffer @ fst (stream es))))))"
proof -
  let ?d = "drop k buffer" and ?s = "fst (stream es)"
  have "n \<le> length (take n ?d) + length ?s \<longleftrightarrow> \<not> length (buffer @ ?s) < k + n" using assms(2) by auto
  moreover have "take n (take n ?d @ ?s) = take n (drop k (buffer @ ?s))" using assms(2) by (cases "n \<le> length ?d") auto
  ultimately show ?thesis
    using body_loop_outcome [OF assms(1), of "take n ?d" n]
    by (auto simp: bad_request_def not_less [symmetric] split: sum.splits)
qed

lemma http_read_parse:
  assumes "net_ok es"
  shows "http_read_request es = http_parse (fst (stream es)) (snd (stream es))"
proof -
  let ?bs = "fst (stream es)" and ?br = "snd (stream es)"
  have h: "header_outcome ?bs ?br (header_loop [] es)" using header_loop_outcome [OF assms, of "[]"] by simp
  show ?thesis
  proof (cases "header_loop [] es")
    case (Inl e)
    with h show ?thesis
      by (auto simp: http_read_request_def http_parse_def header_outcome_def bad_request_def split: option.splits)
  next
    case (Inr x)
    then obtain i buffer es1 where x: "header_loop [] es = Inr (i, buffer, es1)" by (cases x) auto
    with h have f: "find_header_end ?bs = Some i" "find_header_end buffer = Some i"
      and bs: "?bs = buffer @ fst (stream es1)" "snd (stream es1) = ?br" and ok: "net_ok es1"
      by (auto simp: header_outcome_def)
    have b: "i + 4 \<le> length buffer" using find_end_bound [OF f(2)] by simp
    have rh: "request_head buffer = request_head (take (i + 4) ?bs)"
      using request_head_complete [OF f(2)] bs(1) b by simp
    show ?thesis
    proof (cases "request_head buffer")
      case (Inl e)
      then show ?thesis using x f(1) rh by (simp add: http_read_request_def http_parse_def)
    next
      case (Inr y)
      obtain mthd pth n where y: "y = (mthd, pth, n)" by (cases y)
      have rq: "request_head (take (i + 4) ?bs) = Inr (mthd, pth, n)" "request_head buffer = Inr (mthd, pth, n)"
        using rh Inr y by simp_all
      from body_read [OF ok b, where n = n and f = "\<lambda>b. \<lparr>http_method = mthd, path = pth, body = b, body_len = n\<rparr>"] bs
      show ?thesis
        unfolding http_read_request_def http_parse_def x f(1) sum.case prod.case option.case rq by simp
    qed
  qed
qed


section \<open>The text of a request\<close>

definition line_ok :: "string \<Rightarrow> bool" where
  "line_ok l \<longleftrightarrow> l \<noteq> [] \<and> CR \<notin> set l \<and> LF \<notin> set l \<and> no_nul l"

definition crlf_lines :: "string list \<Rightarrow> string" where
  "crlf_lines ls = concat (map (\<lambda>l. l @ CRLF) ls)"

text \<open>A request with further header lines \<open>hs\<close>, as a client sends it.\<close>

definition request_lines :: "string \<Rightarrow> string \<Rightarrow> string list \<Rightarrow> string \<Rightarrow> string list" where
  "request_lines mthd pth hs b =
     (mthd @ '' '' @ pth @ '' HTTP/1.1'') # hs @ [''Content-Length: '' @ print_nat (length b)]"

definition request_text :: "string \<Rightarrow> string \<Rightarrow> string list \<Rightarrow> string \<Rightarrow> string" where
  "request_text mthd pth hs b = crlf_lines (request_lines mthd pth hs b) @ CRLF @ b"

definition request_ok :: "string \<Rightarrow> string \<Rightarrow> string list \<Rightarrow> string \<Rightarrow> bool" where
  "request_ok mthd pth hs b \<longleftrightarrow>
     line_ok mthd \<and> line_ok pth \<and> CHR '' '' \<notin> set (mthd @ pth) \<and>
     length mthd < HTTP_MAX_METHOD_SIZE \<and> length pth < HTTP_MAX_PATH_SIZE \<and>
     list_all (\<lambda>h. line_ok h \<and> \<not> is_content_length h) hs \<and>
     length (crlf_lines (request_lines mthd pth hs b)) + 2 \<le> HTTP_MAX_HEADER_SIZE \<and> length b \<le> HTTP_MAX_BODY_SIZE"

lemma CR_LF [simp]: "CR \<noteq> LF" "LF \<noteq> CR" "CR \<noteq> NUL" "LF \<noteq> NUL"
  by (simp_all add: CR_def LF_def NUL_def)

lemma find_skip: "c \<noteq> CR \<Longrightarrow> find_header_end (c # s) = map_option Suc (find_header_end s)"
  by (cases s rule: find_header_end.cases) auto

lemma find_skip_line: "CR \<notin> set l \<Longrightarrow> find_header_end (l @ s) = map_option (\<lambda>i. i + length l) (find_header_end s)"
proof (induction l)
  case (Cons c l)
  then show ?case using find_skip [of c] by (auto simp: option.map_comp o_def)
qed (simp add: option.map_ident)

lemma find_skip_crlf: "x \<noteq> CR \<Longrightarrow> find_header_end (CR # LF # x # s) = map_option (\<lambda>i. i + 2) (find_header_end (x # s))"
  by (cases s) (simp_all add: find_skip option.map_comp o_def)

lemma find_lines:
  "list_all line_ok ls \<Longrightarrow> ls \<noteq> [] \<Longrightarrow>
     find_header_end (crlf_lines ls @ CRLF @ b) = Some (length (crlf_lines ls) - 2)"
proof (induction ls)
  case (Cons l ls)
  show ?case
  proof (cases ls)
    case Nil
    with Cons.prems show ?thesis by (simp add: crlf_lines_def CRLF_def find_skip_line line_ok_def)
  next
    case (Cons k ks)
    with Cons.prems obtain x t where k: "k = x # t" "x \<noteq> CR" by (cases k) (auto simp: line_ok_def)
    let ?s = "crlf_lines ls @ CRLF @ b"
    have "?s = x # t @ CRLF @ crlf_lines ks @ CRLF @ b" using Cons k by (simp add: crlf_lines_def)
    then have f: "find_header_end (CRLF @ ?s) = map_option (\<lambda>i. i + 2) (find_header_end ?s)"
      using find_skip_crlf [OF k(2)] by (simp add: CRLF_def)
    have "find_header_end ?s = Some (length (crlf_lines ls) - 2)" using Cons.IH Cons.prems Cons by simp
    moreover have "length (crlf_lines ls) \<ge> 2" using Cons by (simp add: crlf_lines_def CRLF_def)
    moreover have "crlf_lines (l # ls) @ CRLF @ b = l @ CRLF @ ?s" by (simp add: crlf_lines_def)
    moreover have "CR \<notin> set l" using Cons.prems by (simp add: line_ok_def)
    ultimately show ?thesis
      using f by (simp add: find_skip_line crlf_lines_def CRLF_def)
  qed
qed simp

lemma split_line: "CR \<notin> set l \<Longrightarrow> split_crlf (l @ CR # LF # s) = Some (l, s)"
proof (induction l)
  case (Cons c l)
  then show ?case by (cases l) auto
qed simp

lemma content_length_lines:
  assumes "list_all (\<lambda>h. line_ok h \<and> \<not> is_content_length h) hs" "n \<le> HTTP_MAX_BODY_SIZE"
  shows "content_length_loop None (crlf_lines (hs @ [''Content-Length: '' @ print_nat n]) @ CRLF) = Inr (Some (of_nat n))"
  using assms(1)
proof (induction hs)
  case Nil
  let ?l = "''Content-Length: '' @ print_nat n"
  have d: "CR \<notin> set (print_nat n)" using print_nat_digits [of CR n] by (auto simp: isdigit_def code_def CR_def)
  have "CR \<notin> set ?l" using d by (simp add: CR_def)
  then have s: "split_crlf (?l @ CR # LF # [CR, LF]) = Some (?l, [CR, LF])" by (rule split_line)
  have v: "dropWhile (\<lambda>c. c = CHR '' '' \<or> c = TAB) (print_nat n) = print_nat n"
  proof (cases "print_nat n")
    case (Cons c cs)
    then have "isdigit c" using print_nat_digits [of c n] by simp
    then have "c \<noteq> CHR '' ''" "c \<noteq> TAB" by (auto simp: isdigit_def code_def TAB_def)
    with Cons show ?thesis by simp
  qed simp
  have "content_length_value ?l = Inr (of_nat n)"
    using v assms(2) strtoull_print [of n] by (simp add: content_length_value_def http_sizes)
  moreover have "is_content_length ?l" by (simp add: is_content_length_def)
  moreover have "content_length_loop f [CR, LF] = Inr f" for f using content_length_line [of "[CR, LF]" "[]" "[]" f] by simp
  ultimately show ?case
    using content_length_line [OF s, of None] by (simp add: crlf_lines_def CRLF_def)
next
  case (Cons h hs)
  let ?rest = "crlf_lines (hs @ [''Content-Length: '' @ print_nat n]) @ CRLF"
  have "split_crlf (h @ CR # LF # ?rest) = Some (h, ?rest)" using Cons.prems split_line by (simp add: line_ok_def)
  from content_length_line [OF this, of None] Cons show ?case by (simp add: crlf_lines_def CRLF_def line_ok_def)
qed


lemma no_nul_lines: "list_all line_ok ls \<Longrightarrow> no_nul (crlf_lines ls)"
  by (induction ls) (simp_all add: crlf_lines_def CRLF_def line_ok_def)

lemma split_char_found: "c \<notin> set l \<Longrightarrow> split_char c (l @ c # s) = Some (l, s)"
  by (auto simp: split_char_def takeWhile_append dropWhile_append takeWhile_eq_all_conv)

lemma request_lines_ok:
  assumes "request_ok mthd pth hs b"
  shows "list_all line_ok (request_lines mthd pth hs b)"
proof -
  have d: "c \<notin> set (print_nat n)" if "c \<in> {CR, LF, NUL}" for c n
    using print_nat_digits [of c n] that by (auto simp: isdigit_def code_def CR_def LF_def NUL_def)
  have "line_ok (''Content-Length: '' @ print_nat (length b))"
    using d by (simp add: line_ok_def no_nul_def) (simp add: CR_def LF_def NUL_def)
  moreover have "line_ok (mthd @ '' '' @ pth @ '' HTTP/1.1'')"
    using assms by (simp add: request_ok_def line_ok_def) (simp add: CR_def LF_def NUL_def)
  moreover have "list_all line_ok hs" using assms by (auto simp: request_ok_def list_all_iff)
  ultimately show ?thesis by (simp add: request_lines_def)
qed

lemma request_line_parsed:
  assumes "request_ok mthd pth hs b"
  shows "parse_request_line (mthd @ '' '' @ pth @ '' HTTP/1.1'') = Inr (mthd, pth)"
proof -
  have "split_char (CHR '' '') (mthd @ CHR '' '' # pth @ '' HTTP/1.1'') = Some (mthd, pth @ '' HTTP/1.1'')"
    using assms by (intro split_char_found) (simp add: request_ok_def)
  moreover have "split_char (CHR '' '') (pth @ CHR '' '' # ''HTTP/1.1'') = Some (pth, ''HTTP/1.1'')"
    using assms by (intro split_char_found) (simp add: request_ok_def)
  ultimately show ?thesis
    using assms by (simp add: parse_request_line_def request_ok_def line_ok_def starts_with_def)
qed

lemma request_head_lines:
  assumes "request_ok mthd pth hs b"
  shows "request_head (crlf_lines (request_lines mthd pth hs b) @ CRLF) =
    Inr (mthd, pth, if mthd = ''POST'' then length b else 0)"
proof -
  let ?l = "mthd @ '' '' @ pth @ '' HTTP/1.1''" and ?k = "hs @ [''Content-Length: '' @ print_nat (length b)]"
  have ok: "list_all line_ok (request_lines mthd pth hs b)" by (rule request_lines_ok [OF assms])
  have n: "no_nul (crlf_lines (request_lines mthd pth hs b) @ CRLF)" "no_nul (crlf_lines ?k @ CRLF)"
    using no_nul_lines [OF ok] no_nul_lines [of ?k] ok by (simp_all add: CRLF_def request_lines_def)
  have "crlf_lines (request_lines mthd pth hs b) @ CRLF = ?l @ CR # LF # crlf_lines ?k @ CRLF"
    by (simp add: request_lines_def crlf_lines_def CRLF_def)
  moreover have "CR \<notin> set ?l" using ok by (simp add: request_lines_def line_ok_def)
  ultimately have s: "split_crlf (cstr (crlf_lines (request_lines mthd pth hs b) @ CRLF)) = Some (?l, crlf_lines ?k @ CRLF)"
    using split_line n(1) by (metis cstr_no_nul)
  have p: "parse_content_length (crlf_lines ?k @ CRLF) = Inr (Some (of_nat (length b)))"
    using content_length_lines [of hs "length b"] assms n(2) by (simp add: parse_content_length_def request_ok_def)
  have "unat (of_nat (length b) :: u64) = length b"
    using assms by (simp add: request_ok_def http_sizes unat_of_nat take_bit_nat_eq_self)
  then show ?thesis
    using assms unfolding request_head_def s option.case prod.case request_line_parsed [OF assms] sum.case p
    by (simp add: request_ok_def)
qed

lemma http_parse_text:
  assumes "request_ok mthd pth hs b"
  shows "http_parse (request_text mthd pth hs b @ x) broken =
    Inr \<lparr>http_method = mthd, path = pth, body = (if mthd = ''POST'' then b else []), body_len = (if mthd = ''POST'' then length b else 0)\<rparr>"
proof -
  let ?c = "crlf_lines (request_lines mthd pth hs b)"
  have f: "find_header_end (request_text mthd pth hs b @ x) = Some (length ?c - 2)"
    using find_lines [OF request_lines_ok [OF assms], of "b @ x"] by (simp add: request_text_def request_lines_def)
  have "length ?c \<ge> 2" by (simp add: crlf_lines_def request_lines_def CRLF_def)
  then have c: "length ?c - 2 + 4 = length (?c @ CRLF)" by (simp add: CRLF_def)
  then have i: "length ?c - 2 + 4 \<le> HTTP_MAX_HEADER_SIZE" using assms by (simp add: request_ok_def CRLF_def)
  have t: "request_text mthd pth hs b @ x = (?c @ CRLF) @ b @ x" by (simp add: request_text_def)
  have "request_head (take (length ?c - 2 + 4) (request_text mthd pth hs b @ x)) =
      Inr (mthd, pth, if mthd = ''POST'' then length b else 0)"
    unfolding c t append_eq_conv_conj [THEN iffD1, OF refl, THEN conjunct1] using request_head_lines [OF assms] by simp
  moreover have "drop (length ?c - 2 + 4) (request_text mthd pth hs b @ x) = b @ x" unfolding c t by simp
  moreover have "length (request_text mthd pth hs b @ x) = length ?c - 2 + 4 + length b + length x" unfolding c t by simp
  ultimately show ?thesis using f i by (simp add: http_parse_def)
qed

text \<open>
  A request as a client writes it is read back: for any verb, path, further header lines and body
  within the limits, any cutting by the network, and whatever follows the body.
\<close>

lemma http_request_round_trip:
  assumes "request_ok mthd pth hs b" "net_ok es" "fst (stream es) = request_text mthd pth hs b @ extra"
  shows "http_read_request es =
    Inr \<lparr>http_method = mthd, path = pth, body = (if mthd = ''POST'' then b else []), body_len = (if mthd = ''POST'' then length b else 0)\<rparr>"
  using http_read_parse [OF assms(2)] http_parse_text [OF assms(1)] assms(3) by simp

section \<open>Bounds\<close>

lemma request_line_bounds:
  "parse_request_line line = Inr (mthd, pth) \<Longrightarrow> length mthd < HTTP_MAX_METHOD_SIZE \<and> length pth < HTTP_MAX_PATH_SIZE"
  by (auto simp: parse_request_line_def bad_request_def split: option.splits if_splits)

lemma request_head_bounds:
  "request_head s = Inr (mthd, pth, n) \<Longrightarrow>
     length mthd < HTTP_MAX_METHOD_SIZE \<and> length pth < HTTP_MAX_PATH_SIZE \<and> n \<le> HTTP_MAX_BODY_SIZE"
  by (auto simp: request_head_def bad_request_def dest!: request_line_bounds split: option.splits sum.splits if_splits)

lemma http_parse_bounds:
  "http_parse bs broken = Inr req \<Longrightarrow>
     length (http_method req) < HTTP_MAX_METHOD_SIZE \<and> length (path req) < HTTP_MAX_PATH_SIZE \<and>
     body_len req \<le> HTTP_MAX_BODY_SIZE \<and> length (body req) = body_len req"
  by (auto simp: http_parse_def bad_request_def dest!: request_head_bounds find_end_bound split: option.splits sum.splits if_splits)

section \<open>Sending\<close>

lemma write_all_Nil: "write_all [] es = ([], True, es)"
  by (subst write_all.simps) simp

lemma write_all_outcome:
  "write_all buf es = (sent, ok, es') \<Longrightarrow> if ok then sent = buf else \<exists>rest. buf = sent @ rest"
proof (induction buf es arbitrary: sent ok es' rule: write_all.induct)
  case (1 buf es)
  show ?case
  proof (cases "buf = []")
    case False
    show ?thesis
    proof (cases es)
      case (Cons e es1)
      show ?thesis
      proof (cases e)
        case (Takes k)
        show ?thesis
        proof (cases "k = 0")
          case False
          obtain s1 ok1 es2 where w: "write_all (drop k buf) es1 = (s1, ok1, es2)" by (metis prod_cases3)
          then have r: "sent = take k buf @ s1" "ok = ok1"
            using 1(3) \<open>buf \<noteq> []\<close> Cons Takes False by (simp_all add: write_all.simps [of buf])
          from 1(1) [OF \<open>buf \<noteq> []\<close> Cons Takes False w] r show ?thesis
            by (metis append.assoc append_take_drop_id)
        qed (use 1(3) \<open>buf \<noteq> []\<close> Cons Takes in \<open>simp add: write_all.simps [of buf]\<close>)
      next
        case Send_interrupted
        with 1(2) [OF \<open>buf \<noteq> []\<close> Cons] 1(3) \<open>buf \<noteq> []\<close> Cons show ?thesis by (simp add: write_all.simps [of buf])
      qed (use 1(3) \<open>buf \<noteq> []\<close> Cons in \<open>simp add: write_all.simps [of buf]\<close>)
    qed (use 1(3) \<open>buf \<noteq> []\<close> in \<open>simp add: write_all.simps [of buf]\<close>)
  qed (use 1(3) in \<open>simp add: write_all_Nil\<close>)
qed


text \<open>A connection that stays up and takes at least one byte each time.\<close>

fun takes :: "send_event list \<Rightarrow> nat" where
  "takes [] = 0"
| "takes (Takes k # es) = Suc (takes es)"
| "takes (_ # es) = takes es"

definition send_ok :: "send_event list \<Rightarrow> bool" where
  "send_ok es \<longleftrightarrow> Send_broken \<notin> set es \<and> Takes 0 \<notin> set es"

lemma write_all_complete:
  "send_ok es \<Longrightarrow> length buf \<le> takes es \<Longrightarrow>
     \<exists>es'. write_all buf es = (buf, True, es') \<and> send_ok es' \<and> takes es \<le> takes es' + length buf"
proof (induction es arbitrary: buf)
  case Nil
  then show ?case by (simp add: write_all.simps)
next
  case (Cons e es)
  show ?case
  proof (cases "buf = []")
    case False
    show ?thesis
    proof (cases e)
      case (Takes k)
      then have k: "k \<noteq> 0" using Cons.prems(1) by (auto simp: send_ok_def)
      have "send_ok es" "length (drop k buf) \<le> takes es"
        using Cons.prems False k Takes by (auto simp: send_ok_def)
      from Cons.IH [OF this] obtain es' where
        es': "write_all (drop k buf) es = (drop k buf, True, es')" "send_ok es'" "takes es \<le> takes es' + length (drop k buf)"
        by blast
      have "length (drop k buf) < length buf" using k False by simp
      with es'(3) have "takes (e # es) \<le> takes es' + length buf" unfolding Takes takes.simps by linarith
      with es' show ?thesis using False k Takes by (simp add: write_all.simps [of buf])
    next
      case Send_interrupted
      with Cons.IH [of buf] Cons.prems False show ?thesis by (simp add: write_all.simps [of buf] send_ok_def)
    qed (use Cons.prems in \<open>simp add: send_ok_def\<close>)
  qed (use Cons.prems in \<open>simp add: write_all.simps\<close>)
qed

lemma print_nat_length: "n < 10 ^ Suc k \<Longrightarrow> length (print_nat n) \<le> Suc k"
proof (induction k arbitrary: n)
  case 0
  then show ?case by (simp add: print_nat.simps [of n])
next
  case (Suc k)
  show ?case
  proof (cases "n < 10")
    case False
    with Suc.IH [of "n div 10"] Suc.prems show ?thesis by (simp add: print_nat.simps [of n] less_mult_imp_div_less mult.commute)
  qed (simp add: print_nat.simps [of n])
qed

definition status_codes :: "int set" where
  "status_codes = {200, 400, 404, 405, 413, 500, 503}"

lemma response_header_fits:
  assumes "status_code \<in> status_codes" "n < 2 ^ 64"
  shows "length (response_header status_code n) < 256"
proof -
  have "length (print_nat n) \<le> 20" using print_nat_length [of n 19] assms(2) by simp
  moreover have "length (print_int status_code) \<le> 3"
    using assms(1) print_nat_length [of "nat status_code" 2] by (auto simp: status_codes_def print_int_def)
  moreover have "length (http_status_text status_code) \<le> 21" by (simp add: http_status_text_def)
  ultimately show ?thesis by (simp add: response_header_def CRLF_def)
qed

definition response_text :: "int \<Rightarrow> string \<Rightarrow> string" where
  "response_text status_code json_body =
     response_header status_code (length (cstr json_body)) @ cstr json_body"

lemma send_outcome:
  assumes "status_code \<in> status_codes" "length (cstr json_body) < 2 ^ 64"
    and "http_send_json_response status_code json_body es = (sent, ok, es')"
  shows "if ok then sent = response_text status_code json_body else \<exists>rest. response_text status_code json_body = sent @ rest"
proof -
  let ?h = "response_header status_code (length (cstr json_body))"
  have f: "\<not> 256 \<le> length ?h" using response_header_fits [OF assms(1,2)] by simp
  obtain s1 ok1 es1 where w1: "write_all ?h es = (s1, ok1, es1)" by (metis prod_cases3)
  obtain s2 ok2 es2 where w2: "write_all (cstr json_body) es1 = (s2, ok2, es2)" by (metis prod_cases3)
  show ?thesis
    using write_all_outcome [OF w1] write_all_outcome [OF w2] assms(3) f w1 w2
    by (cases ok1; cases ok2; cases "cstr json_body = []") (auto simp: http_send_json_response_def response_text_def Let_def)
qed

lemma send_completes:
  assumes "status_code \<in> status_codes" "length (cstr json_body) < 2 ^ 64"
    and "send_ok es" "length (response_text status_code json_body) \<le> takes es"
  shows "\<exists>es'. http_send_json_response status_code json_body es = (response_text status_code json_body, True, es')"
proof -
  let ?h = "response_header status_code (length (cstr json_body))"
  have f: "\<not> 256 \<le> length ?h" using response_header_fits [OF assms(1,2)] by simp
  obtain es1 where w1: "write_all ?h es = (?h, True, es1)" "send_ok es1" "takes es \<le> takes es1 + length ?h"
    using write_all_complete [OF assms(3), of ?h] assms(4) by (auto simp: response_text_def)
  obtain es2 where w2: "write_all (cstr json_body) es1 = (cstr json_body, True, es2)"
    using write_all_complete [OF w1(2), of "cstr json_body"] w1(3) assms(4) by (auto simp: response_text_def)
  show ?thesis using f w1 w2 by (simp add: http_send_json_response_def response_text_def Let_def)
qed


section \<open>Properties of the HTTP layer\<close>

definition demo_request :: string where
  "demo_request = request_text ''POST'' ''/query'' [''Host: db''] ''{}''"

text \<open>The request in three pieces, cut inside the header and inside the body, with an interruption.\<close>

definition demo_net :: "recv_event list" where
  "demo_net = [Bytes (take 10 demo_request), Interrupted, Bytes (drop 10 (take (length demo_request - 1) demo_request)),
     Bytes (drop (length demo_request - 1) demo_request)]"

lemma demo_request_ok: "request_ok ''POST'' ''/query'' [''Host: db''] ''{}''"
  by code_simp

lemma demo_net_facts: "net_ok demo_net" "stream demo_net = (demo_request, False)"
  by code_simp+

text \<open>
  C34. What \<^verbatim>\<open>http_read_request\<close> returns depends only on the bytes that arrive before the
  end or the breakdown of the connection and not on how \<^verbatim>\<open>recv\<close> cuts them or how often it
  is interrupted: it equals the one-pass parse of those bytes, errors included.  A request it accepts
  fits the fixed buffers: the verb and the path with their terminators, the body its limit.
\<close>

theorem http_read_chunking:
  assumes "net_ok es"
  shows "http_read_request es = http_parse (fst (stream es)) (snd (stream es)) \<and>
    (\<forall>req. http_read_request es = Inr req \<longrightarrow>
       length (http_method req) < HTTP_MAX_METHOD_SIZE \<and> length (path req) < HTTP_MAX_PATH_SIZE \<and>
       body_len req \<le> HTTP_MAX_BODY_SIZE \<and> length (body req) = body_len req)"
  using http_read_parse [OF assms] http_parse_bounds by auto

theorem http_read_chunking_witness:
  "http_read_request demo_net = http_parse demo_request False \<and>
   http_read_request demo_net = Inr \<lparr>http_method = ''POST'', path = ''/query'', body = ''{}'', body_len = 2\<rparr>"
proof -
  have "http_read_request demo_net = http_parse demo_request False"
    using http_read_chunking [OF demo_net_facts(1)] demo_net_facts(2) by simp
  moreover have "http_parse demo_request False = Inr \<lparr>http_method = ''POST'', path = ''/query'', body = ''{}'', body_len = 2\<rparr>"
    using http_parse_text [OF demo_request_ok, of "[]" False] by (simp add: demo_request_def)
  ultimately show ?thesis by simp
qed

text \<open>
  C35. A response with one of the server's status codes is sent whole or is a prefix of the whole:
  if sending reports success, the bytes sent are the status line, the headers with the exact length
  of the body, and the body; if it fails, they are a prefix of that.  The header always fits its
  256-byte buffer, and on a connection that keeps taking bytes sending succeeds, however few bytes
  each call takes.
\<close>

theorem response_sent_whole:
  assumes "status_code \<in> status_codes" "length (cstr json_body) < 2 ^ 64"
  shows "length (response_header status_code (length (cstr json_body))) < 256 \<and>
    (case http_send_json_response status_code json_body es of (sent, ok, es') \<Rightarrow>
       if ok then sent = response_text status_code json_body else \<exists>rest. response_text status_code json_body = sent @ rest) \<and>
    (send_ok es \<and> length (response_text status_code json_body) \<le> takes es \<longrightarrow>
       (\<exists>es'. http_send_json_response status_code json_body es = (response_text status_code json_body, True, es')))"
  using response_header_fits [OF assms] send_outcome [OF assms] send_completes [OF assms] by (auto split: prod.split)

theorem response_sent_whole_witness:
  "\<exists>es'. http_send_json_response 200 ''{}'' (replicate 200 (Takes 1)) = (response_text 200 ''{}'', True, es')"
proof -
  have "takes (replicate n (Takes 1)) = n" for n by (induction n) simp_all
  moreover have "length (response_text 200 ''{}'') \<le> 200" by code_simp
  moreover have "200 \<in> status_codes" "length (cstr ''{}'') < 2 ^ 64" "send_ok (replicate 200 (Takes 1))"
    by (simp_all add: status_codes_def send_ok_def cstr_def NUL_def)
  ultimately show ?thesis using response_sent_whole [of 200 "''{}''" "replicate 200 (Takes 1)"] by simp
qed

end
