(* ===== verification/Json_Parser.thy ===== *)
theory Json_Parser
  imports Json_Writer
begin

text \<open>
  The request parser of \<^verbatim>\<open>src/json_parser.c\<close>: one string field out of a flat JSON object.
  The cursor is the text that remains, up to the terminating NUL.  Shown: which escaped strings it
  reads back, and the value it extracts from every object of scalar fields, with any white space and
  any duplicates.
\<close>

section \<open>The parser\<close>

datatype json_field_status =
    JSON_FIELD_OK
  | JSON_FIELD_MISSING_FIELD
  | JSON_FIELD_INVALID_JSON
  | JSON_FIELD_INTERNAL_ERROR

type_synonym 'a json_result = "(json_field_status \<times> string) + 'a"

definition json_error :: "json_field_status \<Rightarrow> string \<Rightarrow> 'a json_result" where
  "json_error st msg = Inl (st, set_error msg)"

definition json_space :: "char \<Rightarrow> bool" where
  "json_space c \<longleftrightarrow> c = CHR '' '' \<or> c = TAB \<or> c = LF \<or> c = CR"

definition skip_whitespace :: "string \<Rightarrow> string" where
  "skip_whitespace cursor = dropWhile json_space cursor"

definition unescape_json_char :: "char \<Rightarrow> char option" where
  "unescape_json_char c =
     (if c = DQUOTE \<or> c = BSLASH then Some c
      else if c = CHR ''n'' then Some LF
      else if c = CHR ''r'' then Some CR
      else if c = CHR ''t'' then Some TAB
      else None)"

text \<open>The loop of \<^verbatim>\<open>parse_json_string\<close>, after the opening quote.\<close>

fun json_string_loop :: "string \<Rightarrow> string \<Rightarrow> (string \<times> string) json_result" where
  "json_string_loop buffer [] = json_error JSON_FIELD_INVALID_JSON ''unterminated string''"
| "json_string_loop buffer (ch # s) =
     (if ch = DQUOTE then Inr (buffer, s)
      else if code ch < 32 then json_error JSON_FIELD_INVALID_JSON ''invalid control character in string''
      else if ch = BSLASH then
        (case s of
           [] \<Rightarrow> json_error JSON_FIELD_INVALID_JSON ''unterminated escape sequence''
         | escaped # s1 \<Rightarrow>
             (case unescape_json_char escaped of
                None \<Rightarrow> json_error JSON_FIELD_INVALID_JSON ''unsupported escape sequence''
              | Some c \<Rightarrow> json_string_loop (buffer @ [c]) s1))
      else json_string_loop (buffer @ [ch]) s)"

definition parse_json_string :: "string \<Rightarrow> (string \<times> string) json_result" where
  "parse_json_string cursor =
     (if char_at cursor \<noteq> DQUOTE then json_error JSON_FIELD_INVALID_JSON ''invalid json string''
      else json_string_loop [] (tl cursor))"

definition skip_digits :: "string \<Rightarrow> string" where
  "skip_digits cursor = dropWhile isdigit cursor"

text \<open>The optional fraction and exponent of a number.\<close>

definition consume_fraction :: "string \<Rightarrow> string json_result" where
  "consume_fraction s =
     (if char_at s = CHR ''.'' then
        (if isdigit (char_at (tl s)) then Inr (skip_digits (tl s))
         else json_error JSON_FIELD_INVALID_JSON ''invalid json number'')
      else Inr s)"

definition consume_exponent :: "string \<Rightarrow> string json_result" where
  "consume_exponent s =
     (if char_at s = CHR ''e'' \<or> char_at s = CHR ''E'' then
        (let s1 = (if char_at (tl s) = CHR ''+'' \<or> char_at (tl s) = CHR ''-'' then tl (tl s) else tl s) in
         if isdigit (char_at s1) then Inr (skip_digits s1)
         else json_error JSON_FIELD_INVALID_JSON ''invalid json number'')
      else Inr s)"

definition consume_number :: "string \<Rightarrow> string json_result" where
  "consume_number cursor =
     (let s = (if char_at cursor = CHR ''-'' then tl cursor else cursor) in
      if \<not> isdigit (char_at s) then json_error JSON_FIELD_INVALID_JSON ''invalid json value''
      else case consume_fraction (skip_digits s) of
             Inl e \<Rightarrow> Inl e
           | Inr s1 \<Rightarrow> consume_exponent s1)"

text \<open>
  The comparison of the cursor with \<^verbatim>\<open>start\<close> at the end of the C function never fires,
  since a number has at least one digit; it has no counterpart here.
\<close>

definition consume_json_value :: "string \<Rightarrow> string json_result" where
  "consume_json_value cursor =
     (if char_at cursor = DQUOTE then
        (case parse_json_string cursor of Inl e \<Rightarrow> Inl e | Inr (_, s) \<Rightarrow> Inr s)
      else if char_at cursor = CHR ''{'' \<or> char_at cursor = CHR ''['' then
        json_error JSON_FIELD_INVALID_JSON ''nested json values are not supported''
      else if starts_with ''true'' cursor then Inr (drop 4 cursor)
      else if starts_with ''false'' cursor then Inr (drop 5 cursor)
      else if starts_with ''null'' cursor then Inr (drop 4 cursor)
      else consume_number cursor)"

text \<open>The value after the key and the colon: the field found so far and the rest.\<close>

definition parse_field_value ::
  "string \<Rightarrow> string \<Rightarrow> string option \<Rightarrow> string \<Rightarrow> (string option \<times> string) json_result" where
  "parse_field_value field_name key found_value cursor =
     (if key = field_name then
        (if char_at cursor \<noteq> DQUOTE then
           (case consume_json_value cursor of
              Inr _ \<Rightarrow> json_error JSON_FIELD_MISSING_FIELD ''sql field must be a string''
            | Inl e \<Rightarrow> Inl e)
         else case parse_json_string cursor of
                Inl e \<Rightarrow> Inl e
              | Inr (v, s) \<Rightarrow> Inr (if found_value = None then Some v else found_value, s))
      else case consume_json_value cursor of
             Inl e \<Rightarrow> Inl e
           | Inr s \<Rightarrow> Inr (found_value, s))"

text \<open>One round of the loop up to the separator: key, colon, value, white space.\<close>

definition parse_json_entry :: "string \<Rightarrow> string option \<Rightarrow> string \<Rightarrow> (string option \<times> string) json_result" where
  "parse_json_entry field_name found_value cursor =
     (let s = skip_whitespace cursor in
      if char_at s \<noteq> DQUOTE then json_error JSON_FIELD_INVALID_JSON ''expected object key''
      else case parse_json_string s of
        Inl e \<Rightarrow> Inl e
      | Inr (key, s1) \<Rightarrow>
          (let s2 = skip_whitespace s1 in
           if char_at s2 \<noteq> CHR '':'' then
             json_error JSON_FIELD_INVALID_JSON (''expected '' @ quoted '':'' @ '' after object key'')
           else case parse_field_value field_name key found_value (skip_whitespace (tl s2)) of
             Inl e \<Rightarrow> Inl e
           | Inr (found, s3) \<Rightarrow> Inr (found, skip_whitespace s3)))"

section \<open>Progress\<close>

lemma special_not_NUL [simp]: "DQUOTE \<noteq> NUL" "BSLASH \<noteq> NUL" "CHR '':'' \<noteq> NUL" "CHR '','' \<noteq> NUL" "CHR ''}'' \<noteq> NUL" "CHR ''{'' \<noteq> NUL"
  by (simp_all add: DQUOTE_def BSLASH_def NUL_def)

lemma json_string_loop_rest: "json_string_loop buffer s = Inr (v, rest) \<Longrightarrow> length rest < length s"
proof (induction buffer s rule: json_string_loop.induct)
  case (2 buffer ch s)
  then show ?case
    by (cases s) (auto simp: json_error_def split: if_splits option.splits intro: less_SucI)
qed (simp add: json_error_def)

lemma parse_json_string_rest: "parse_json_string s = Inr (v, rest) \<Longrightarrow> length rest < length s"
  by (cases s) (auto simp: parse_json_string_def json_error_def split: if_splits dest: json_string_loop_rest)

lemma skip_whitespace_length: "length (skip_whitespace s) \<le> length s"
  by (simp add: skip_whitespace_def length_dropWhile_le)

lemma skip_digits_length: "length (skip_digits s) \<le> length s"
  by (simp add: skip_digits_def length_dropWhile_le)

lemma consume_fraction_rest: "consume_fraction s = Inr r \<Longrightarrow> length r \<le> length s"
  using skip_digits_length [of "tl s"]
  by (auto simp: consume_fraction_def json_error_def split: if_splits)

lemma consume_exponent_rest: "consume_exponent s = Inr r \<Longrightarrow> length r \<le> length s"
  using skip_digits_length [of "tl s"] skip_digits_length [of "tl (tl s)"]
  by (auto simp: consume_exponent_def json_error_def Let_def split: if_splits)

lemma consume_number_rest: "consume_number s = Inr r \<Longrightarrow> length r \<le> length s"
  using skip_digits_length [of s] skip_digits_length [of "tl s"]
  by (auto simp: consume_number_def json_error_def Let_def split: if_splits sum.splits
      dest!: consume_fraction_rest consume_exponent_rest)

lemma consume_json_value_rest: "consume_json_value s = Inr r \<Longrightarrow> length r \<le> length s"
  by (auto simp: consume_json_value_def json_error_def split: if_splits sum.splits
      dest!: consume_number_rest parse_json_string_rest)

lemma parse_field_value_rest: "parse_field_value f k found s = Inr (found', r) \<Longrightarrow> length r \<le> length s"
  by (auto simp: parse_field_value_def json_error_def split: if_splits sum.splits
      dest!: consume_json_value_rest parse_json_string_rest)

lemma parse_json_entry_rest:
  assumes "parse_json_entry f found s = Inr (found', r)"
  shows "length r < length s"
proof -
  obtain key s1 s3 where k: "parse_json_string (skip_whitespace s) = Inr (key, s1)"
    and v: "parse_field_value f key found (skip_whitespace (tl (skip_whitespace s1))) = Inr (found', s3)"
    and r: "r = skip_whitespace s3"
    using assms by (auto simp: parse_json_entry_def json_error_def Let_def split: if_splits sum.splits)
  have "length r \<le> length s3" unfolding r by (rule skip_whitespace_length)
  also have "\<dots> \<le> length (skip_whitespace (tl (skip_whitespace s1)))" by (rule parse_field_value_rest [OF v])
  also have "\<dots> \<le> length (tl (skip_whitespace s1))" by (rule skip_whitespace_length)
  also have "\<dots> \<le> length s1" using skip_whitespace_length [of s1] by simp
  also have "\<dots> < length (skip_whitespace s)" by (rule parse_json_string_rest [OF k])
  also have "\<dots> \<le> length s" by (rule skip_whitespace_length)
  finally show ?thesis .
qed

section \<open>The object loop\<close>

function json_fields_loop :: "string \<Rightarrow> string option \<Rightarrow> string \<Rightarrow> (string option \<times> string) json_result" where
  "json_fields_loop field_name found_value cursor =
     (case parse_json_entry field_name found_value cursor of
        Inl e \<Rightarrow> Inl e
      | Inr (found, s) \<Rightarrow>
          if char_at s = CHR '','' then json_fields_loop field_name found (tl s)
          else if char_at s = CHR ''}'' then Inr (found, tl s)
          else json_error JSON_FIELD_INVALID_JSON
                 (''expected '' @ quoted '','' @ '' or '' @ quoted ''}'' @ '' after object entry''))"
  by pat_completeness auto
termination
  by (relation "measure (\<lambda>(_, _, cursor). length cursor)")
    (auto dest!: parse_json_entry_rest)

declare json_fields_loop.simps [simp del]

definition json_extract_string_field :: "string \<Rightarrow> string \<Rightarrow> string json_result" where
  "json_extract_string_field json field_name =
     (let cursor = skip_whitespace (cstr json) in
      if char_at cursor \<noteq> CHR ''{'' then
        json_error JSON_FIELD_INVALID_JSON ''top-level json value must be an object''
      else if char_at (skip_whitespace (tl cursor)) = CHR ''}'' then
        json_error JSON_FIELD_MISSING_FIELD ''missing sql field''
      else case json_fields_loop field_name None (skip_whitespace (tl cursor)) of
             Inl e \<Rightarrow> Inl e
           | Inr (found, s) \<Rightarrow>
               if skip_whitespace s \<noteq> [] then
                 json_error JSON_FIELD_INVALID_JSON ''unexpected trailing characters after json object''
               else case found of
                      None \<Rightarrow> json_error JSON_FIELD_MISSING_FIELD ''missing sql field''
                    | Some v \<Rightarrow> Inr v)"

section \<open>Strings that are read back\<close>

text \<open>The characters whose escape the parser knows: everything but the other control characters.\<close>

definition readable :: "string \<Rightarrow> bool" where
  "readable str \<longleftrightarrow> list_all (\<lambda>c. 32 \<le> code c \<or> c = LF \<or> c = CR \<or> c = TAB) str"

lemma quote_codes [simp]:
  "code DQUOTE = 34" "code BSLASH = 92" "DQUOTE \<noteq> BSLASH" "BSLASH \<noteq> DQUOTE"
  by (simp_all add: code_def DQUOTE_def BSLASH_def)

lemma string_loop_char:
  "json_string_loop buffer (escape_json_char c @ s) =
     (if readable [c] then json_string_loop (buffer @ [c]) s
      else json_error JSON_FIELD_INVALID_JSON ''unsupported escape sequence'')"
proof -
  have u: "unescape_json_char (CHR ''n'') = Some LF" "unescape_json_char (CHR ''r'') = Some CR"
    "unescape_json_char (CHR ''t'') = Some TAB" "unescape_json_char (CHR ''u'') = None"
    "unescape_json_char DQUOTE = Some DQUOTE" "unescape_json_char BSLASH = Some BSLASH"
    by (simp_all add: unescape_json_char_def DQUOTE_def BSLASH_def)
  have d: "LF \<noteq> CR" "LF \<noteq> TAB" "CR \<noteq> TAB" "LF \<notin> {DQUOTE, BSLASH}" "CR \<notin> {DQUOTE, BSLASH}" "TAB \<notin> {DQUOTE, BSLASH}"
    by (simp_all add: LF_def CR_def TAB_def DQUOTE_def BSLASH_def)
  consider "c = DQUOTE" | "c = BSLASH" | "c = LF" | "c = CR" | "c = TAB"
    | (control) "c \<notin> {DQUOTE, BSLASH, LF, CR, TAB}" "code c < 32"
    | (plain) "c \<notin> {DQUOTE, BSLASH, LF, CR, TAB}" "\<not> code c < 32" by blast
  then show ?thesis
  proof cases
    case control
    then show ?thesis using u by (simp add: escape_json_char_def control_escape_def readable_def)
  next
    case plain
    then show ?thesis by (simp add: escape_json_char_def readable_def)
  qed (use u d in \<open>simp_all add: escape_json_char_def readable_def\<close>)
qed

lemma json_loop_escape:
  "json_string_loop buffer (escape_json str @ DQUOTE # rest) =
     (if readable str then Inr (buffer @ str, rest)
      else json_error JSON_FIELD_INVALID_JSON ''unsupported escape sequence'')"
proof (induction str arbitrary: buffer)
  case (Cons c str)
  have "escape_json (c # str) @ DQUOTE # rest = escape_json_char c @ (escape_json str @ DQUOTE # rest)"
    by (simp add: escape_json_def)
  with Cons show ?case by (simp only: string_loop_char) (simp add: readable_def)
qed (simp add: escape_json_def readable_def)

lemma parse_string_text:
  "parse_json_string (json_string_text str @ rest) =
     (if readable str then Inr (str, rest)
      else json_error JSON_FIELD_INVALID_JSON ''unsupported escape sequence'')"
  by (simp add: parse_json_string_def json_string_text_def json_loop_escape)

section \<open>Objects of scalar fields\<close>

datatype json_scalar =
    JString string
  | JTrue
  | JFalse
  | JNull
  | JNumber bool string "string option" "(char \<times> string \<times> string) option"

text \<open>A number: sign, integer digits, fraction digits, exponent letter, sign and digits.\<close>

definition digits :: "string \<Rightarrow> bool" where
  "digits ds \<longleftrightarrow> ds \<noteq> [] \<and> list_all isdigit ds"

fun scalar_ok :: "json_scalar \<Rightarrow> bool" where
  "scalar_ok (JString str) \<longleftrightarrow> readable str"
| "scalar_ok (JNumber neg ds frac ex) \<longleftrightarrow>
     digits ds \<and> (case frac of None \<Rightarrow> True | Some f \<Rightarrow> digits f) \<and>
     (case ex of None \<Rightarrow> True
      | Some (e, sign, es) \<Rightarrow> (e = CHR ''e'' \<or> e = CHR ''E'') \<and> sign \<in> {[], ''+'', ''-''} \<and> digits es)"
| "scalar_ok _ \<longleftrightarrow> True"

fun scalar_text :: "json_scalar \<Rightarrow> string" where
  "scalar_text (JString str) = json_string_text str"
| "scalar_text JTrue = ''true''"
| "scalar_text JFalse = ''false''"
| "scalar_text JNull = ''null''"
| "scalar_text (JNumber neg ds frac ex) =
     (if neg then ''-'' else []) @ ds @ (case frac of None \<Rightarrow> [] | Some f \<Rightarrow> ''.'' @ f) @
     (case ex of None \<Rightarrow> [] | Some (e, sign, es) \<Rightarrow> [e] @ sign @ es)"

text \<open>An object with the white space \<open>w\<close> wherever JSON allows it.\<close>

definition entry_text :: "string \<Rightarrow> string \<times> json_scalar \<Rightarrow> string" where
  "entry_text w kv = w @ json_string_text (fst kv) @ w @ '':'' @ w @ scalar_text (snd kv) @ w"

fun entries_text :: "string \<Rightarrow> (string \<times> json_scalar) list \<Rightarrow> string" where
  "entries_text w [] = w"
| "entries_text w [kv] = entry_text w kv"
| "entries_text w (kv # kv' # kvs) = entry_text w kv @ '','' @ entries_text w (kv' # kvs)"

definition object_text :: "string \<Rightarrow> (string \<times> json_scalar) list \<Rightarrow> string" where
  "object_text w kvs = w @ ''{'' @ entries_text w kvs @ ''}'' @ w"

definition fields_ok :: "(string \<times> json_scalar) list \<Rightarrow> bool" where
  "fields_ok kvs \<longleftrightarrow> list_all (\<lambda>(k, v). readable k \<and> scalar_ok v) kvs"

text \<open>The values of a field, and what the first of them gives.\<close>

definition field_values :: "string \<Rightarrow> (string \<times> json_scalar) list \<Rightarrow> json_scalar list" where
  "field_values f kvs = map snd (filter (\<lambda>kv. fst kv = f) kvs)"

fun is_string :: "json_scalar \<Rightarrow> bool" where
  "is_string (JString _) \<longleftrightarrow> True"
| "is_string _ \<longleftrightarrow> False"

fun string_value :: "json_scalar \<Rightarrow> string" where
  "string_value (JString s) = s"
| "string_value _ = []"

definition field_result :: "json_scalar list \<Rightarrow> string json_result" where
  "field_result vs =
     (if \<not> list_all is_string vs then json_error JSON_FIELD_MISSING_FIELD ''sql field must be a string''
      else case vs of
             [] \<Rightarrow> json_error JSON_FIELD_MISSING_FIELD ''missing sql field''
           | v # _ \<Rightarrow> Inr (string_value v))"

section \<open>Reading objects\<close>

text \<open>What may follow a value: white space or a separator.\<close>

definition delimiter :: "char \<Rightarrow> bool" where
  "delimiter c \<longleftrightarrow> json_space c \<or> c = CHR '','' \<or> c = CHR ''}''"

lemma delimiter_classes:
  "delimiter c \<Longrightarrow> \<not> isdigit c \<and> c \<noteq> CHR ''.'' \<and> c \<noteq> CHR ''e'' \<and> c \<noteq> CHR ''E''"
  by (auto simp: delimiter_def json_space_def TAB_def LF_def CR_def ctype_defs)

text \<open>A run of digits before a text that does not go on with a digit.\<close>

lemma digits_run:
  assumes "digits ds" "\<not> isdigit (char_at r)" "r \<noteq> []"
  shows "skip_digits (ds @ r) = r" "isdigit (char_at (ds @ r))"
  using assms by (cases r; cases ds; auto simp: digits_def skip_digits_def while_all)+

lemma isdigit_signs [simp]:
  "\<not> isdigit (CHR ''+'')" "\<not> isdigit (CHR ''-'')" "\<not> isdigit (CHR ''.'')" "\<not> isdigit (CHR ''e'')" "\<not> isdigit (CHR ''E'')"
  by (simp_all add: ctype_defs)

lemma exponent_text:
  assumes "digits es" "sign \<in> {[], ''+'', ''-''}" "e = CHR ''e'' \<or> e = CHR ''E''"
    and r: "\<not> isdigit (char_at r)" "r \<noteq> []"
  shows "consume_exponent (e # sign @ es @ r) = Inr r"
proof -
  note run = digits_run [OF assms(1) r]
  then have "char_at (es @ r) \<noteq> CHR ''+''" "char_at (es @ r) \<noteq> CHR ''-''" by auto
  with assms(2,3) run show ?thesis by (auto simp: consume_exponent_def Let_def)
qed

lemma consume_number_text:
  assumes ok: "scalar_ok (JNumber neg ds frac ex)" and d: "delimiter (char_at r)" "r \<noteq> []"
  shows "consume_number (scalar_text (JNumber neg ds frac ex) @ r) = Inr r"
proof -
  let ?e = "case ex of None \<Rightarrow> [] | Some (e, sign, es) \<Rightarrow> [e] @ sign @ es"
  let ?f = "case frac of None \<Rightarrow> [] | Some f \<Rightarrow> ''.'' @ f"
  note c = delimiter_classes [OF d(1)]
  have exp: "consume_exponent (?e @ r) = Inr r"
  proof (cases ex)
    case None
    with c show ?thesis by (simp add: consume_exponent_def)
  next
    case (Some a)
    with ok c d(2) exponent_text [of "snd (snd a)" "fst (snd a)" "fst a" r] show ?thesis by (cases a) simp
  qed
  have ec: "\<not> isdigit (char_at (?e @ r)) \<and> char_at (?e @ r) \<noteq> CHR ''.'' \<and> ?e @ r \<noteq> []"
    using ok d(2) c by (cases ex) auto
  have frac: "consume_fraction (?f @ ?e @ r) = Inr (?e @ r)"
  proof (cases frac)
    case None
    with ec show ?thesis by (simp add: consume_fraction_def)
  next
    case (Some f)
    with ok ec digits_run [of f "?e @ r"] show ?thesis by (simp add: consume_fraction_def)
  qed
  have fc: "\<not> isdigit (char_at (?f @ ?e @ r))" "?f @ ?e @ r \<noteq> []" using ec by (cases frac; simp)+
  have "digits ds" using ok by simp
  from digits_run [OF this fc] have run: "skip_digits (ds @ ?f @ ?e @ r) = ?f @ ?e @ r"
    "isdigit (char_at (ds @ ?f @ ?e @ r))" by simp_all
  then have "char_at (ds @ ?f @ ?e @ r) \<noteq> CHR ''-''" by auto
  with run frac exp show ?thesis by (cases neg) (simp_all add: consume_number_def)
qed

lemma number_start:
  "scalar_ok (JNumber neg ds frac ex) \<Longrightarrow>
     let c = char_at (scalar_text (JNumber neg ds frac ex) @ r) in isdigit c \<or> c = CHR ''-''"
  by (cases neg; cases ds) (auto simp: digits_def Let_def)

lemma consume_scalar:
  assumes ok: "scalar_ok v" and d: "delimiter (char_at r)" "r \<noteq> []"
  shows "consume_json_value (scalar_text v @ r) = Inr r"
proof (cases v)
  case (JString str)
  with ok show ?thesis
    by (simp add: consume_json_value_def parse_string_text) (simp add: json_string_text_def)
next
  case (JNumber neg ds frac ex)
  let ?s = "scalar_text v @ r"
  have "isdigit (char_at ?s) \<or> char_at ?s = CHR ''-''" using number_start [of neg ds frac ex r] ok JNumber by (simp add: Let_def)
  then have "char_at ?s \<notin> {DQUOTE, CHR ''{'', CHR ''['', CHR ''t'', CHR ''f'', CHR ''n''}"
    by (auto simp: DQUOTE_def ctype_defs)
  moreover have "starts_with w ?s \<Longrightarrow> w \<noteq> [] \<Longrightarrow> char_at ?s = hd w" for w
    by (cases ?s; cases w) (auto simp: starts_with_def)
  ultimately have "consume_json_value ?s = consume_number ?s"
    by (auto simp: consume_json_value_def)
  with consume_number_text [of neg ds frac ex r] ok JNumber d show ?thesis by simp
qed (simp_all add: consume_json_value_def starts_with_def DQUOTE_def)

definition spaces :: "string \<Rightarrow> bool" where
  "spaces w \<longleftrightarrow> list_all json_space w"

lemma skip_spaces: "spaces w \<Longrightarrow> \<not> json_space (char_at s) \<Longrightarrow> s \<noteq> [] \<Longrightarrow> skip_whitespace (w @ s) = s"
  by (cases s) (simp_all add: spaces_def skip_whitespace_def while_all)

lemma skip_all_spaces: "spaces w \<Longrightarrow> skip_whitespace w = []"
  by (simp add: spaces_def skip_whitespace_def list_all_iff)

lemma not_space [simp]:
  "\<not> json_space DQUOTE" "\<not> json_space (CHR '':'')" "\<not> json_space (CHR '','')" "\<not> json_space (CHR ''}'')" "\<not> json_space (CHR ''{'')"
  by (simp_all add: json_space_def DQUOTE_def TAB_def LF_def CR_def)

lemma scalar_start:
  assumes "scalar_ok v"
  shows "\<not> json_space (char_at (scalar_text v @ s)) \<and> scalar_text v @ s \<noteq> []"
proof (cases v)
  case (JNumber neg ds frac ex)
  with assms have "isdigit (char_at (scalar_text v @ s)) \<or> char_at (scalar_text v @ s) = CHR ''-''"
    using number_start [of neg ds frac ex s] by (simp add: Let_def)
  then have "\<not> json_space (char_at (scalar_text v @ s))"
    by (auto simp: json_space_def TAB_def LF_def CR_def ctype_defs)
  with assms JNumber show ?thesis by (auto simp: digits_def)
qed (simp_all add: json_string_text_def json_space_def TAB_def LF_def CR_def DQUOTE_def)

lemma delimiter_after: "spaces w \<Longrightarrow> delimiter c \<Longrightarrow> delimiter (char_at (w @ c # s))"
  by (cases w) (auto simp: spaces_def delimiter_def)

lemma is_string_char: "scalar_ok v \<Longrightarrow> char_at (scalar_text v @ s) = DQUOTE \<longleftrightarrow> is_string v"
proof (cases v)
  case (JNumber neg ds frac ex)
  assume "scalar_ok v"
  with JNumber number_start [of neg ds frac ex s]
  have "isdigit (char_at (scalar_text v @ s)) \<or> char_at (scalar_text v @ s) = CHR ''-''" by (simp add: Let_def)
  then have "char_at (scalar_text v @ s) \<noteq> DQUOTE" by (auto simp: DQUOTE_def ctype_defs)
  with JNumber show ?thesis by simp
qed (simp_all add: json_string_text_def DQUOTE_def)

definition next_found :: "string \<Rightarrow> string option \<Rightarrow> string \<times> json_scalar \<Rightarrow> string option" where
  "next_found f found kv = (if fst kv = f \<and> found = None then Some (string_value (snd kv)) else found)"

lemma parse_value_text:
  assumes ok: "scalar_ok v" and w: "spaces w" and c: "c = CHR '','' \<or> c = CHR ''}''"
  shows "parse_field_value f k found (scalar_text v @ w @ c # s) =
    (if k = f \<and> \<not> is_string v then json_error JSON_FIELD_MISSING_FIELD ''sql field must be a string''
     else Inr (next_found f found (k, v), w @ c # s))"
proof -
  have "consume_json_value (scalar_text v @ w @ c # s) = Inr (w @ c # s)"
    using c w by (intro consume_scalar [OF ok] delimiter_after) (auto simp: delimiter_def)
  moreover have "is_string v \<Longrightarrow> parse_json_string (scalar_text v @ w @ c # s) = Inr (string_value v, w @ c # s)"
    using ok by (cases v) (simp_all add: parse_string_text)
  ultimately show ?thesis
    by (auto simp: parse_field_value_def is_string_char [OF ok] next_found_def)
qed

lemma parse_entry_text:
  assumes "readable k" "scalar_ok v" and w: "spaces w" and c: "c = CHR '','' \<or> c = CHR ''}''"
  shows "parse_json_entry f found (entry_text w (k, v) @ c # s) =
    (if k = f \<and> \<not> is_string v then json_error JSON_FIELD_MISSING_FIELD ''sql field must be a string''
     else Inr (next_found f found (k, v), c # s))"
proof -
  let ?v = "scalar_text v @ w @ c # s"
  have "skip_whitespace (entry_text w (k, v) @ c # s) = json_string_text k @ w @ '':'' @ w @ ?v"
    unfolding entry_text_def using w by (simp add: skip_spaces json_string_text_def)
  moreover have "skip_whitespace (w @ '':'' @ w @ ?v) = '':'' @ w @ ?v" using w by (simp add: skip_spaces)
  moreover have "skip_whitespace (w @ ?v) = ?v" using w scalar_start [OF assms(2)] by (simp add: skip_spaces)
  moreover have "skip_whitespace (w @ c # s) = c # s" using w c by (auto intro!: skip_spaces)
  moreover have "char_at (json_string_text k @ x) = DQUOTE" for x by (simp add: json_string_text_def)
  ultimately show ?thesis
    using assms(1) parse_value_text [OF assms(2) w c, of f k found s]
    by (simp add: parse_json_entry_def Let_def parse_string_text json_error_def)
qed

lemma fields_loop_text:
  "kvs \<noteq> [] \<Longrightarrow> fields_ok kvs \<Longrightarrow> spaces w \<Longrightarrow>
   json_fields_loop f found (entries_text w kvs @ CHR ''}'' # rest) =
     (if list_all is_string (field_values f kvs) then Inr (fold (\<lambda>kv fnd. next_found f fnd kv) kvs found, rest)
      else json_error JSON_FIELD_MISSING_FIELD ''sql field must be a string'')"
proof (induction w kvs arbitrary: found rule: entries_text.induct)
  case (2 w kv)
  then show ?case
    using parse_entry_text [of "fst kv" "snd kv" w "CHR ''}''" f found rest]
    by (cases kv) (auto simp: json_fields_loop.simps [of f found] fields_ok_def field_values_def json_error_def)
next
  case (3 w kv kv' kvs)
  then show ?case
    using parse_entry_text [of "fst kv" "snd kv" w "CHR '',''" f found "entries_text w (kv' # kvs) @ CHR ''}'' # rest"]
    by (cases kv) (auto simp: json_fields_loop.simps [of f found] fields_ok_def field_values_def json_error_def)
qed simp

lemma fold_found_Some: "fold (\<lambda>kv fnd. next_found f fnd kv) kvs (Some v) = Some v"
  by (induction kvs) (simp_all add: next_found_def)

lemma fold_found:
  "fold (\<lambda>kv fnd. next_found f fnd kv) kvs None =
     (case field_values f kvs of [] \<Rightarrow> None | v # _ \<Rightarrow> Some (string_value v))"
  by (induction kvs) (auto simp: next_found_def [of f None] field_values_def fold_found_Some)

lemma entry_skip: "parse_json_entry f found (skip_whitespace s) = parse_json_entry f found s"
  by (simp add: parse_json_entry_def skip_whitespace_def)

lemma fields_loop_skip: "json_fields_loop f found (skip_whitespace s) = json_fields_loop f found s"
  by (subst (1 2) json_fields_loop.simps) (simp add: entry_skip)

lemma char_of_entries: "spaces w \<Longrightarrow> kvs \<noteq> [] \<Longrightarrow> char_at (skip_whitespace (entries_text w kvs @ s)) = DQUOTE"
proof (induction w kvs rule: entries_text.induct)
  case (2 w kv)
  then show ?case by (simp add: entry_text_def skip_spaces json_string_text_def)
next
  case (3 w kv kv' kvs)
  then show ?case by (simp add: entry_text_def skip_spaces json_string_text_def)
qed simp

lemma spaces_no_nul: "spaces w \<Longrightarrow> no_nul w"
proof -
  have "\<not> json_space NUL" by (simp add: json_space_def NUL_def TAB_def LF_def CR_def)
  then show "spaces w \<Longrightarrow> no_nul w" by (auto simp: spaces_def list_all_iff no_nul_def)
qed

lemma no_nul_escape_json: "no_nul (escape_json str)"
proof -
  have "CHR ''n'' \<noteq> NUL" "CHR ''r'' \<noteq> NUL" "CHR ''t'' \<noteq> NUL" "code NUL = 0" by (simp_all add: NUL_def code_def)
  then have "no_nul (escape_json_char c)" for c
    by (auto simp: escape_json_char_def no_nul_control_escape)
  then show ?thesis by (induction str) (simp_all add: escape_json_def)
qed

lemma no_nul_string_text [simp]: "no_nul (json_string_text str)"
  by (simp add: json_string_text_def no_nul_escape_json)

lemma digits_no_NUL: "digits ds \<Longrightarrow> no_nul ds"
  by (auto simp: digits_def list_all_iff no_nul_def)

lemma no_nul_scalar: "scalar_ok v \<Longrightarrow> no_nul (scalar_text v)"
  by (cases v) (auto simp: digits_no_NUL NUL_def split: option.split)

lemma no_nul_entries: "spaces w \<Longrightarrow> fields_ok kvs \<Longrightarrow> no_nul (entries_text w kvs)"
  by (induction w kvs rule: entries_text.induct)
    (auto simp: entry_text_def fields_ok_def spaces_no_nul no_nul_scalar NUL_def)

lemma extract_object:
  assumes "fields_ok kvs" "spaces w"
  shows "json_extract_string_field (object_text w kvs) f = field_result (field_values f kvs)"
proof -
  let ?s = "entries_text w kvs @ CHR ''}'' # w"
  have "no_nul (object_text w kvs)"
    unfolding object_text_def using assms spaces_no_nul no_nul_entries by (simp add: NUL_def)
  moreover have "skip_whitespace (object_text w kvs) = CHR ''{'' # ?s"
    unfolding object_text_def using assms(2) by (simp add: skip_spaces)
  ultimately have s: "skip_whitespace (cstr (object_text w kvs)) = CHR ''{'' # ?s" by simp
  show ?thesis
  proof (cases "kvs = []")
    case True
    with s assms(2) show ?thesis
      by (simp add: json_extract_string_field_def skip_spaces field_result_def field_values_def Let_def)
  next
    case False
    then have "char_at (skip_whitespace ?s) \<noteq> CHR ''}''"
      using char_of_entries [OF assms(2), of kvs "CHR ''}'' # w"] by (simp add: DQUOTE_def)
    with s fields_loop_text [OF False assms, of f None w] show ?thesis
      by (auto simp: json_extract_string_field_def fields_loop_skip fold_found field_result_def json_error_def
          skip_all_spaces [OF assms(2)] Let_def split: list.split)
  qed
qed

section \<open>Properties of the parser\<close>

text \<open>
  C25. The parser reads back exactly the strings without control characters other than newline,
  carriage return and tab: a string written by \<^verbatim>\<open>json_append_escaped_string\<close> is decoded
  to itself, and any other string is refused, since the writer emits \<^verbatim>\<open>\u00XX\<close> escapes
  that the parser does not support.
\<close>

theorem json_string_round_trip:
  "parse_json_string (jb_data (json_append_escaped_string json_buffer_init str) @ rest) =
     (if readable (cstr str) then Inr (cstr str, rest)
      else json_error JSON_FIELD_INVALID_JSON ''unsupported escape sequence'')"
  by (simp add: parse_string_text)

text \<open>
  C26. From a JSON object of scalar fields, with any white space, the parser extracts the first value
  of the field when all values of that field are strings; it reports a missing field when there is no
  such field or when one of its values is not a string.  The other fields are skipped.
\<close>

theorem json_extract_correct:
  assumes "fields_ok kvs" "spaces w"
  shows "json_extract_string_field (object_text w kvs) f = field_result (field_values f kvs)"
  by (rule extract_object [OF assms])

theorem json_extract_correct_witness:
  "json_extract_string_field
     (object_text '' '' [(''n'', JNumber True ''1'' (Some ''5'') None), (''sql'', JString ''select'' ), (''sql'', JString ''x'')]) ''sql''
     = Inr ''select'' \<and>
   object_text '' '' [(''n'', JNull)] = '' { '' @ [DQUOTE] @ ''n'' @ [DQUOTE] @ '' : null } ''"
proof
  let ?k = "[(''n'', JNumber True ''1'' (Some ''5'') None), (''sql'', JString ''select'' ), (''sql'', JString ''x'')]"
  have "fields_ok ?k" "spaces '' ''" "field_result (field_values ''sql'' ?k) = Inr ''select''" by code_simp+
  with json_extract_correct [of ?k "'' ''" "''sql''"]
  show "json_extract_string_field (object_text '' '' ?k) ''sql'' = Inr ''select''" by simp
qed code_simp

end
