(* ===== verification/Finishing.thy ===== *)
theory Finishing
  imports Main
begin

text \<open>
  What the concurrent parts promise about ending, as one contract: a step relation with an invariant
  that steps keep, an amount of work that every step reduces, and a step as long as the system has
  not finished.  It gives that every schedule ends, within the amount of work, in a finished state.
  The requests at the engine and the server after a shutdown are its instances.
\<close>

locale finishing =
  fixes step :: "'s \<Rightarrow> 's \<Rightarrow> bool"
    and invar :: "'s \<Rightarrow> bool"
    and amount :: "'s \<Rightarrow> nat"
    and over :: "'s \<Rightarrow> bool"
  assumes keeps: "invar s \<Longrightarrow> step s s' \<Longrightarrow> invar s'"
    and reduces: "invar s \<Longrightarrow> step s s' \<Longrightarrow> amount s' < amount s"
    and goes_on: "invar s \<Longrightarrow> \<not> over s \<Longrightarrow> \<exists>s'. step s s'"
begin

lemma run_bounded: "(step ^^ n) s s' \<Longrightarrow> invar s \<Longrightarrow> invar s' \<and> n + amount s' \<le> amount s"
proof (induction n arbitrary: s')
  case (Suc n)
  then obtain s1 where "(step ^^ n) s s1" "step s1 s'" by auto
  with Suc keeps [of s1 s'] reduces [of s1 s'] show ?case by fastforce
qed simp

lemma run_ends: "invar s \<Longrightarrow> \<exists>s'. step\<^sup>*\<^sup>* s s' \<and> invar s' \<and> over s'"
proof (induction "amount s" arbitrary: s rule: less_induct)
  case less
  show ?case
  proof (cases "over s")
    case False
    then obtain s1 where s1: "step s s1" using goes_on [OF less.prems] by blast
    from less.hyps [OF reduces [OF less.prems s1] keeps [OF less.prems s1]] s1 show ?thesis
      by (meson converse_rtranclp_into_rtranclp)
  qed (use less.prems in blast)
qed

lemma every_schedule:
  assumes "invar s" "(step ^^ n) s s'"
  shows "n \<le> amount s \<and> (over s' \<or> (\<exists>s''. step s' s''))"
  using run_bounded [OF assms(2,1)] goes_on [of s'] by auto

end

end
