(* ===== verification/Lexer.thy ===== *)
theory Lexer
  imports Prelude
begin

text \<open>
  The SQL lexer of \<^verbatim>\<open>src/lexer.c\<close>.  The index into the text is modelled by the text that
  remains; \<^verbatim>\<open>sql[*index]\<close> at the end of the text is the terminating NUL.  The token
  array is a list, its count the length.  Shown: the shape of every token the lexer produces, and
  that it reads back every token sequence that is printed with blanks in between, in any letter
  case of the keywords.
\<close>

section \<open>Tokens\<close>

datatype token_type =
    TOKEN_EOF
  | TOKEN_IDENTIFIER
  | TOKEN_STRING
  | TOKEN_NUMBER
  | TOKEN_COMMA
  | TOKEN_LPAREN
  | TOKEN_RPAREN
  | TOKEN_SEMICOLON
  | TOKEN_STAR
  | TOKEN_INSERT
  | TOKEN_INTO
  | TOKEN_VALUES
  | TOKEN_SELECT
  | TOKEN_FROM
  | TOKEN_WHERE
  | TOKEN_EQUAL

record token =
  tok_type :: token_type
  tok_text :: string

definition lex_error :: "string \<Rightarrow> 'a result" where
  "lex_error msg = fail STATUS_LEX_ERROR (''LEX ERROR: '' @ msg)"

definition QUOTE :: char where "QUOTE = CHR 0x27"

section \<open>Keywords\<close>

definition chars_equal_ignore_case :: "char \<Rightarrow> char \<Rightarrow> bool" where
  "chars_equal_ignore_case a b \<longleftrightarrow> toupper a = toupper b"

fun strings_equal_ignore_case :: "string \<Rightarrow> string \<Rightarrow> bool" where
  "strings_equal_ignore_case (a # lhs) (b # rhs) =
     (if \<not> chars_equal_ignore_case a b then False else strings_equal_ignore_case lhs rhs)"
| "strings_equal_ignore_case lhs rhs = (lhs = [] \<and> rhs = [])"

definition keyword_type :: "string \<Rightarrow> token_type" where
  "keyword_type text =
     (if strings_equal_ignore_case text ''INSERT'' then TOKEN_INSERT
      else if strings_equal_ignore_case text ''INTO'' then TOKEN_INTO
      else if strings_equal_ignore_case text ''VALUES'' then TOKEN_VALUES
      else if strings_equal_ignore_case text ''SELECT'' then TOKEN_SELECT
      else if strings_equal_ignore_case text ''FROM'' then TOKEN_FROM
      else if strings_equal_ignore_case text ''WHERE'' then TOKEN_WHERE
      else TOKEN_IDENTIFIER)"

section \<open>Scanning one token\<close>

definition ident_char :: "char \<Rightarrow> bool" where
  "ident_char c \<longleftrightarrow> isalnum c \<or> c = CHR ''_''"

text \<open>Each scanner returns the token and the text after it.\<close>

definition tokenize_identifier :: "string \<Rightarrow> token \<times> string" where
  "tokenize_identifier s =
     (let text = takeWhile ident_char s
      in (\<lparr>tok_type = keyword_type text, tok_text = text\<rparr>, dropWhile ident_char s))"

text \<open>The loop of \<^verbatim>\<open>tokenize_number\<close>: the characters read so far and the rest.\<close>

fun number_loop :: "bool \<Rightarrow> string \<Rightarrow> string \<Rightarrow> (string \<times> string) result" where
  "number_loop seen_dot text [] = Inr (text, [])"
| "number_loop seen_dot text (c # s) =
     (if isdigit c \<or> (\<not> seen_dot \<and> c = CHR ''.'')
      then if c = CHR ''.'' \<and> \<not> isdigit (char_at s) then lex_error ''invalid number literal''
           else number_loop (seen_dot \<or> c = CHR ''.'') (text @ [c]) s
      else Inr (text, c # s))"

definition tokenize_number :: "string \<Rightarrow> (token \<times> string) result" where
  "tokenize_number s =
     (let (sign, digits) = (if char_at s = CHR ''-'' then ([CHR ''-''], tl s) else ([], s))
      in case number_loop False sign digits of
           Inl e \<Rightarrow> Inl e
         | Inr (text, rest) \<Rightarrow> Inr (\<lparr>tok_type = TOKEN_NUMBER, tok_text = text\<rparr>, rest))"

text \<open>The loop of \<^verbatim>\<open>tokenize_string\<close>, after the opening quote.\<close>

fun string_loop :: "string \<Rightarrow> string \<Rightarrow> (string \<times> string) result" where
  "string_loop buffer [] = lex_error ''unterminated string literal''"
| "string_loop buffer (c # s) =
     (if c = QUOTE
      then (if char_at s = QUOTE then string_loop (buffer @ [QUOTE]) (tl s) else Inr (buffer, s))
      else string_loop (buffer @ [c]) s)"

definition tokenize_string :: "string \<Rightarrow> (token \<times> string) result" where
  "tokenize_string s =
     (case string_loop [] (tl s) of
        Inl e \<Rightarrow> Inl e
      | Inr (text, rest) \<Rightarrow> Inr (\<lparr>tok_type = TOKEN_STRING, tok_text = text\<rparr>, rest))"

definition tokenize_symbol :: "char \<Rightarrow> token result" where
  "tokenize_symbol ch =
     (if ch = CHR '','' then Inr \<lparr>tok_type = TOKEN_COMMA, tok_text = [ch]\<rparr>
      else if ch = CHR ''('' then Inr \<lparr>tok_type = TOKEN_LPAREN, tok_text = [ch]\<rparr>
      else if ch = CHR '')'' then Inr \<lparr>tok_type = TOKEN_RPAREN, tok_text = [ch]\<rparr>
      else if ch = CHR '';'' then Inr \<lparr>tok_type = TOKEN_SEMICOLON, tok_text = [ch]\<rparr>
      else if ch = CHR ''*'' then Inr \<lparr>tok_type = TOKEN_STAR, tok_text = [ch]\<rparr>
      else if ch = CHR ''='' then Inr \<lparr>tok_type = TOKEN_EQUAL, tok_text = [ch]\<rparr>
      else lex_error ''invalid character'')"

section \<open>The token stream\<close>

text \<open>One round of the loop of \<^verbatim>\<open>tokenize_sql\<close> at a character that is not a blank.\<close>

definition scan_token :: "string \<Rightarrow> (token \<times> string) result" where
  "scan_token s =
     (let ch = char_at s in
      if isalpha ch \<or> ch = CHR ''_'' then Inr (tokenize_identifier s)
      else if isdigit ch \<or> (ch = CHR ''-'' \<and> isdigit (char_at (tl s))) then tokenize_number s
      else if ch = QUOTE then tokenize_string s
      else (case tokenize_symbol ch of Inl e \<Rightarrow> Inl e | Inr t \<Rightarrow> Inr (t, tl s)))"

definition EOF_TOKEN :: token where
  "EOF_TOKEN = \<lparr>tok_type = TOKEN_EOF, tok_text = []\<rparr>"

lemma dot_no_digit [simp]: "\<not> isdigit (CHR ''.'')" "\<not> isdigit (CHR ''-'')"
  by (simp_all add: ctype_defs)

lemma isdigit_not_dot: "isdigit c \<Longrightarrow> c \<noteq> CHR ''.''"
  by auto

lemma number_loop_rest: "number_loop b acc s = Inr (text, rest) \<Longrightarrow> length rest \<le> length s"
  by (induction b acc s rule: number_loop.induct) (auto simp: lex_error_def split: if_splits)

lemma number_loop_progress:
  "number_loop b acc s = Inr (text, rest) \<Longrightarrow> isdigit (char_at s) \<Longrightarrow> length rest < length s"
  by (cases s) (auto simp: lex_error_def dest!: number_loop_rest split: if_splits)

lemma tokenize_number_progress:
  assumes "tokenize_number s = Inr (t, rest)"
    and "isdigit (char_at s) \<or> (char_at s = CHR ''-'' \<and> isdigit (char_at (tl s)))"
  shows "length rest < length s"
proof (cases "char_at s = CHR ''-''")
  case True
  with assms obtain w where "number_loop False [CHR ''-''] (tl s) = Inr (w, rest)"
    and "isdigit (char_at (tl s))" by (auto simp: tokenize_number_def split: sum.splits)
  from number_loop_progress [OF this] show ?thesis by (simp add: less_diff_conv)
next
  case False
  with assms obtain w where "number_loop False [] s = Inr (w, rest)" and "isdigit (char_at s)"
    by (auto simp: tokenize_number_def split: sum.splits)
  from number_loop_progress [OF this] show ?thesis .
qed

lemma string_loop_rest: "string_loop acc s = Inr (text, rest) \<Longrightarrow> length rest < length s"
proof (induction acc s rule: string_loop.induct)
  case (2 buffer c s)
  then show ?case by (cases s) (auto split: if_splits dest: less_trans)
qed (simp add: lex_error_def)

lemma scan_token_progress:
  assumes "scan_token s = Inr (t, rest)" "s \<noteq> []"
  shows "length rest < length s"
proof -
  obtain c u where s: "s = c # u" using assms(2) by (cases s) auto
  consider (ident) "isalpha c \<or> c = CHR ''_''"
    | (number) "\<not> (isalpha c \<or> c = CHR ''_'')" "isdigit c \<or> (c = CHR ''-'' \<and> isdigit (char_at u))"
    | (other) "\<not> (isalpha c \<or> c = CHR ''_'')" "\<not> (isdigit c \<or> (c = CHR ''-'' \<and> isdigit (char_at u)))"
    by blast
  then show ?thesis
  proof cases
    case ident
    with assms s show ?thesis
      by (auto simp: scan_token_def tokenize_identifier_def ident_char_def isalnum_def Let_def
          less_Suc_eq_le length_dropWhile_le)
  next
    case number
    with assms s have "tokenize_number s = Inr (t, rest)" by (simp add: scan_token_def Let_def)
    with number s show ?thesis by (intro tokenize_number_progress [of s t rest]) auto
  next
    case other
    with assms s show ?thesis
      by (auto simp: scan_token_def tokenize_string_def Let_def split: if_splits sum.splits dest: string_loop_rest)
  qed
qed

function tokenize_loop :: "string \<Rightarrow> token list \<Rightarrow> token list result" where
  "tokenize_loop [] tokens = Inr (tokens @ [EOF_TOKEN])"
| "tokenize_loop (ch # s) tokens =
     (if isspace ch then tokenize_loop s tokens
      else case scan_token (ch # s) of
          Inl e \<Rightarrow> Inl e
        | Inr (t, rest) \<Rightarrow> tokenize_loop rest (tokens @ [t]))"
  by pat_completeness auto
termination
  by (relation "measure (\<lambda>(s, _). length s)") (auto dest: scan_token_progress)

definition tokenize_sql :: "string \<Rightarrow> token list result" where
  "tokenize_sql sql = tokenize_loop (cstr sql) []"

definition token_type_name :: "token_type \<Rightarrow> string" where
  "token_type_name type = (case type of
       TOKEN_EOF \<Rightarrow> ''TOKEN_EOF''
     | TOKEN_IDENTIFIER \<Rightarrow> ''TOKEN_IDENTIFIER''
     | TOKEN_STRING \<Rightarrow> ''TOKEN_STRING''
     | TOKEN_NUMBER \<Rightarrow> ''TOKEN_NUMBER''
     | TOKEN_COMMA \<Rightarrow> ''TOKEN_COMMA''
     | TOKEN_LPAREN \<Rightarrow> ''TOKEN_LPAREN''
     | TOKEN_RPAREN \<Rightarrow> ''TOKEN_RPAREN''
     | TOKEN_SEMICOLON \<Rightarrow> ''TOKEN_SEMICOLON''
     | TOKEN_STAR \<Rightarrow> ''TOKEN_STAR''
     | TOKEN_INSERT \<Rightarrow> ''TOKEN_INSERT''
     | TOKEN_INTO \<Rightarrow> ''TOKEN_INTO''
     | TOKEN_VALUES \<Rightarrow> ''TOKEN_VALUES''
     | TOKEN_SELECT \<Rightarrow> ''TOKEN_SELECT''
     | TOKEN_FROM \<Rightarrow> ''TOKEN_FROM''
     | TOKEN_WHERE \<Rightarrow> ''TOKEN_WHERE''
     | TOKEN_EQUAL \<Rightarrow> ''TOKEN_EQUAL'')"

section \<open>The tokens of the language\<close>

definition ident_text :: "string \<Rightarrow> bool" where
  "ident_text s \<longleftrightarrow> s \<noteq> [] \<and> (isalpha (char_at s) \<or> char_at s = CHR ''_'') \<and> list_all ident_char s"

text \<open>Digits, then possibly a dot and at least one digit.\<close>

definition unsigned_text :: "string \<Rightarrow> bool" where
  "unsigned_text s \<longleftrightarrow>
     takeWhile isdigit s \<noteq> [] \<and>
     (case dropWhile isdigit s of
        [] \<Rightarrow> True
      | c # r \<Rightarrow> c = CHR ''.'' \<and> r \<noteq> [] \<and> list_all isdigit r)"

definition number_text :: "string \<Rightarrow> bool" where
  "number_text s \<longleftrightarrow> unsigned_text (if char_at s = CHR ''-'' then tl s else s)"

text \<open>The reserved words, in any letter case; every other word is an identifier.\<close>

definition keyword_table :: "(string \<times> token_type) list" where
  "keyword_table = [(''INSERT'', TOKEN_INSERT), (''INTO'', TOKEN_INTO), (''VALUES'', TOKEN_VALUES),
     (''SELECT'', TOKEN_SELECT), (''FROM'', TOKEN_FROM), (''WHERE'', TOKEN_WHERE)]"

definition word_type :: "string \<Rightarrow> token_type" where
  "word_type w = (case map_of keyword_table (map toupper w) of
       None \<Rightarrow> TOKEN_IDENTIFIER | Some ty \<Rightarrow> ty)"

definition symbol_char :: "token_type \<Rightarrow> char" where
  "symbol_char ty = (case ty of
       TOKEN_COMMA \<Rightarrow> CHR '','' | TOKEN_LPAREN \<Rightarrow> CHR ''('' | TOKEN_RPAREN \<Rightarrow> CHR '')''
     | TOKEN_SEMICOLON \<Rightarrow> CHR '';'' | TOKEN_STAR \<Rightarrow> CHR ''*'' | TOKEN_EQUAL \<Rightarrow> CHR ''=''
     | _ \<Rightarrow> NUL)"

definition token_ok :: "token \<Rightarrow> bool" where
  "token_ok t = (case tok_type t of
       TOKEN_EOF \<Rightarrow> False
     | TOKEN_STRING \<Rightarrow> no_nul (tok_text t)
     | TOKEN_NUMBER \<Rightarrow> number_text (tok_text t)
     | ty \<Rightarrow> if symbol_char ty \<noteq> NUL then tok_text t = [symbol_char ty]
            else ident_text (tok_text t) \<and> word_type (tok_text t) = ty)"

text \<open>The SQL spelling of a token: a string literal doubles its quotes.\<close>

fun escape_quotes :: "string \<Rightarrow> string" where
  "escape_quotes [] = []"
| "escape_quotes (c # s) = (if c = QUOTE then [QUOTE, QUOTE] else [c]) @ escape_quotes s"

definition print_token :: "token \<Rightarrow> string" where
  "print_token t =
     (if tok_type t = TOKEN_STRING then [QUOTE] @ escape_quotes (tok_text t) @ [QUOTE] else tok_text t)"

definition print_tokens :: "token list \<Rightarrow> string" where
  "print_tokens ts = concat (map (\<lambda>t. print_token t @ '' '') ts)"

section \<open>What the lexer produces\<close>

lemma strings_equal_ignore_case_iff:
  "strings_equal_ignore_case lhs rhs \<longleftrightarrow> map toupper lhs = map toupper rhs"
  by (induction lhs rhs rule: strings_equal_ignore_case.induct) (auto simp: chars_equal_ignore_case_def)

lemma toupper_keywords:
  "map toupper ''INSERT'' = ''INSERT''" "map toupper ''INTO'' = ''INTO''"
  "map toupper ''VALUES'' = ''VALUES''" "map toupper ''SELECT'' = ''SELECT''"
  "map toupper ''FROM'' = ''FROM''" "map toupper ''WHERE'' = ''WHERE''"
  by (simp_all add: toupper_def ctype_defs)

lemma keyword_type_word: "keyword_type w = word_type w"
proof -
  have "(if u = ''INSERT'' then TOKEN_INSERT else if u = ''INTO'' then TOKEN_INTO
      else if u = ''VALUES'' then TOKEN_VALUES else if u = ''SELECT'' then TOKEN_SELECT
      else if u = ''FROM'' then TOKEN_FROM else if u = ''WHERE'' then TOKEN_WHERE else TOKEN_IDENTIFIER) =
      (case map_of keyword_table u of None \<Rightarrow> TOKEN_IDENTIFIER | Some ty \<Rightarrow> ty)" for u
    by (simp add: keyword_table_def)
  then show ?thesis
    unfolding keyword_type_def strings_equal_ignore_case_iff toupper_keywords word_type_def .
qed

lemma token_ok_eq:
  "token_ok t = (case tok_type t of
       TOKEN_EOF \<Rightarrow> False
     | TOKEN_STRING \<Rightarrow> no_nul (tok_text t)
     | TOKEN_NUMBER \<Rightarrow> number_text (tok_text t)
     | ty \<Rightarrow> if symbol_char ty \<noteq> NUL then tok_text t = [symbol_char ty]
            else ident_text (tok_text t) \<and> keyword_type (tok_text t) = ty)"
  unfolding token_ok_def keyword_type_word ..

lemma number_loop_digits:
  "number_loop True acc s = Inr (acc @ takeWhile isdigit s, dropWhile isdigit s)"
  by (induction s arbitrary: acc) auto

lemma number_loop_eq:
  "number_loop False acc s =
     (case dropWhile isdigit s of
        [] \<Rightarrow> Inr (acc @ takeWhile isdigit s, [])
      | c # r \<Rightarrow> if c = CHR ''.''
                then if isdigit (char_at r)
                     then Inr (acc @ takeWhile isdigit s @ c # takeWhile isdigit r, dropWhile isdigit r)
                     else lex_error ''invalid number literal''
                else Inr (acc @ takeWhile isdigit s, c # r))"
proof (induction s arbitrary: acc)
  case (Cons a s)
  then show ?case
    by (cases "isdigit a"; cases "dropWhile isdigit s")
      (simp_all del: dropWhile_eq_Nil_conv add: number_loop_digits isdigit_not_dot)
qed simp

lemma string_loop_no_nul:
  "string_loop acc s = Inr (w, rest) \<Longrightarrow> no_nul acc \<Longrightarrow> no_nul s \<Longrightarrow> no_nul w \<and> no_nul rest"
proof (induction acc s rule: string_loop.induct)
  case (2 buffer c s)
  then show ?case by (cases s) (auto split: if_splits simp: QUOTE_def NUL_def)
qed (simp add: lex_error_def)

lemma string_loop_escape:
  "char_at rest \<noteq> QUOTE \<Longrightarrow> string_loop acc (escape_quotes s @ QUOTE # rest) = Inr (acc @ s, rest)"
  by (induction s arbitrary: acc) auto

lemma token_ok_ident: "ident_text w \<Longrightarrow> token_ok \<lparr>tok_type = keyword_type w, tok_text = w\<rparr>"
  by (auto simp: token_ok_eq keyword_type_def symbol_char_def)

lemma takeWhile_ident: "isalpha c \<or> c = CHR ''_'' \<Longrightarrow> ident_text (takeWhile ident_char (c # s))"
  by (auto simp: ident_text_def ident_char_def isalnum_def list_all_iff dest: set_takeWhileD)

lemma unsigned_text_join:
  assumes "list_all isdigit ds" "ds \<noteq> []" "r = [] \<or> (\<exists>fs. r = CHR ''.'' # fs \<and> fs \<noteq> [] \<and> list_all isdigit fs)"
  shows "unsigned_text (ds @ r)"
proof -
  have "takeWhile isdigit (ds @ r) = ds" "dropWhile isdigit (ds @ r) = r"
    using assms by (auto simp: list_all_iff takeWhile_append takeWhile_eq_all_conv dropWhile_append)
  with assms show ?thesis by (auto simp: unsigned_text_def)
qed

lemma takeWhile_digit_Nil: "isdigit (char_at s) \<Longrightarrow> takeWhile isdigit s \<noteq> []"
  by (cases s) auto

lemma number_loop_text:
  assumes "number_loop False acc s = Inr (w, rest)" "isdigit (char_at s)"
  shows "\<exists>d. w = acc @ d \<and> unsigned_text d \<and> isdigit (char_at d) \<and> (no_nul s \<longrightarrow> no_nul rest)"
proof -
  let ?d = "takeWhile isdigit s"
  have d: "list_all isdigit ?d" "?d \<noteq> []" "isdigit (char_at ?d)"
    using assms(2) by (auto simp: list_all_takeWhile takeWhile_digit_Nil) (cases s; simp)
  have n: "no_nul s \<Longrightarrow> no_nul (dropWhile isdigit s)" by (rule no_nul_dropWhile)
  consider (plain) "w = acc @ ?d" "rest = dropWhile isdigit s"
    | (frac) r where "dropWhile isdigit s = CHR ''.'' # r" "isdigit (char_at r)"
        "w = acc @ ?d @ CHR ''.'' # takeWhile isdigit r" "rest = dropWhile isdigit r"
    using assms(1) by (auto simp: number_loop_eq lex_error_def split: list.splits if_splits)
  then show ?thesis
  proof cases
    case plain
    with d n unsigned_text_join [of ?d "[]"] show ?thesis by auto
  next
    case (frac r)
    have "char_at (?d @ x) = char_at ?d" for x using d(2) by (cases ?d) auto
    moreover have "unsigned_text (?d @ CHR ''.'' # takeWhile isdigit r)"
      using d frac(2) by (intro unsigned_text_join) (auto simp: list_all_takeWhile takeWhile_digit_Nil)
    ultimately show ?thesis using d(3) frac n no_nul_dropWhile by auto
  qed
qed

lemma tokenize_number_ok:
  assumes "tokenize_number s = Inr (t, rest)"
    and "isdigit (char_at s) \<or> (char_at s = CHR ''-'' \<and> isdigit (char_at (tl s)))"
  shows "token_ok t \<and> (no_nul s \<longrightarrow> no_nul rest)"
proof (cases "char_at s = CHR ''-''")
  case True
  with assms obtain w where t: "t = \<lparr>tok_type = TOKEN_NUMBER, tok_text = w\<rparr>"
    and "number_loop False [CHR ''-''] (tl s) = Inr (w, rest)" "isdigit (char_at (tl s))"
    by (auto simp: tokenize_number_def split: sum.splits)
  from number_loop_text [OF this(2,3)] t show ?thesis
    by (cases s) (auto simp: token_ok_eq number_text_def)
next
  case False
  with assms obtain w where t: "t = \<lparr>tok_type = TOKEN_NUMBER, tok_text = w\<rparr>"
    and "number_loop False [] s = Inr (w, rest)" "isdigit (char_at s)"
    by (auto simp: tokenize_number_def split: sum.splits)
  from number_loop_text [OF this(2,3)] t show ?thesis by (auto simp: token_ok_eq number_text_def)
qed

lemma tokenize_symbol_ok: "tokenize_symbol c = Inr t \<Longrightarrow> token_ok t"
  by (auto simp: tokenize_symbol_def token_ok_eq symbol_char_def lex_error_def NUL_def split: if_splits)

lemma tokenize_string_ok:
  assumes "tokenize_string s = Inr (t, rest)" "no_nul s"
  shows "token_ok t \<and> no_nul rest"
proof -
  have "no_nul (tl s)" using assms(2) by (cases s) auto
  moreover obtain w where "string_loop [] (tl s) = Inr (w, rest)"
    and "t = \<lparr>tok_type = TOKEN_STRING, tok_text = w\<rparr>"
    using assms(1) by (auto simp: tokenize_string_def split: sum.splits)
  ultimately show ?thesis using string_loop_no_nul [of "[]" "tl s"] by (simp add: token_ok_eq)
qed

lemma scan_token_ok:
  assumes "scan_token s = Inr (t, rest)" "no_nul s" "s \<noteq> []"
  shows "token_ok t \<and> no_nul rest"
proof -
  obtain c u where s: "s = c # u" using assms(3) by (cases s) auto
  show ?thesis
  proof (cases "isalpha c \<or> c = CHR ''_''")
    case True
    with assms(1) s have "t = \<lparr>tok_type = keyword_type (takeWhile ident_char s), tok_text = takeWhile ident_char s\<rparr>"
      "rest = dropWhile ident_char s" by (auto simp: scan_token_def tokenize_identifier_def Let_def)
    with takeWhile_ident [OF True, of u] token_ok_ident no_nul_dropWhile [OF assms(2)] s show ?thesis by simp
  next
    case False
    with assms s show ?thesis
      by (auto simp: scan_token_def Let_def split: if_splits sum.splits
          dest: tokenize_number_ok tokenize_string_ok tokenize_symbol_ok)
  qed
qed

lemma tokenize_loop_ok:
  "tokenize_loop s tokens = Inr toks \<Longrightarrow> no_nul s \<Longrightarrow>
     \<exists>ts. toks = tokens @ ts @ [EOF_TOKEN] \<and> list_all token_ok ts"
proof (induction s tokens rule: tokenize_loop.induct)
  case (2 ch s tokens)
  show ?case
  proof (cases "isspace ch")
    case True
    with 2 show ?thesis by auto
  next
    case False
    with "2.prems" obtain t rest where t: "scan_token (ch # s) = Inr (t, rest)"
      "tokenize_loop rest (tokens @ [t]) = Inr toks" by (auto split: sum.splits)
    from scan_token_ok [OF t(1)] "2.prems"(2) have "token_ok t" "no_nul rest" by auto
    with "2.IH"(2) [OF False t(1) refl] t(2) obtain ts
      where "toks = (tokens @ [t]) @ ts @ [EOF_TOKEN]" "list_all token_ok ts" by blast
    with \<open>token_ok t\<close> show ?thesis by (intro exI [of _ "t # ts"]) simp
  qed
qed (force intro: exI [of _ "[]"])

section \<open>Reading printed tokens\<close>

lemma unsigned_text_cases:
  assumes "unsigned_text d"
  obtains ds where "d = ds" "list_all isdigit ds" "ds \<noteq> []"
  | ds fs where "d = ds @ CHR ''.'' # fs" "list_all isdigit ds" "ds \<noteq> []" "list_all isdigit fs" "fs \<noteq> []"
proof -
  have d: "d = takeWhile isdigit d @ dropWhile isdigit d" by simp
  have "takeWhile isdigit d \<noteq> []" "list_all isdigit (takeWhile isdigit d)"
    using assms by (auto simp: unsigned_text_def list_all_takeWhile)
  then show thesis using assms that d
    by (cases "dropWhile isdigit d") (auto simp: unsigned_text_def simp del: takeWhile_dropWhile_id dropWhile_eq_Nil_conv)
qed

lemma blank_classes [simp]:
  "\<not> isdigit (CHR '' '')" "\<not> ident_char (CHR '' '')" "isspace (CHR '' '')" "CHR '' '' \<noteq> QUOTE" "CHR '' '' \<noteq> NUL"
  by (simp_all add: ident_char_def ctype_defs QUOTE_def NUL_def)

lemma number_loop_print:
  assumes "unsigned_text d"
  shows "number_loop False acc (d @ CHR '' '' # rest) = Inr (acc @ d, CHR '' '' # rest) \<and> isdigit (char_at d) \<and> d \<noteq> []"
  using assms
proof (cases rule: unsigned_text_cases)
  case (1 ds)
  then have "isdigit (char_at ds)" by (cases ds) auto
  with 1 show ?thesis by (simp add: number_loop_eq while_all)
next
  case (2 ds fs)
  then have "isdigit (char_at fs)" "isdigit (char_at ds)" by (cases fs; cases ds; simp)+
  with 2 show ?thesis by (simp add: number_loop_eq while_all char_at_append)
qed

lemma scan_ident:
  assumes "ident_text w"
  shows "scan_token (w @ CHR '' '' # rest) = Inr (\<lparr>tok_type = keyword_type w, tok_text = w\<rparr>, CHR '' '' # rest)"
proof -
  have "char_at (w @ CHR '' '' # rest) = char_at w" using assms by (simp add: ident_text_def char_at_append)
  with assms show ?thesis
    by (simp add: scan_token_def Let_def ident_text_def tokenize_identifier_def while_all)
qed

lemma letters_digits: "isdigit c \<Longrightarrow> \<not> isalpha c \<and> c \<noteq> CHR ''_'' \<and> c \<noteq> CHR ''-'' \<and> \<not> isspace c \<and> c \<noteq> NUL"
  by (auto simp: ctype_defs NUL_def)

lemma isalpha_minus: "\<not> isalpha (CHR ''-'')"
  by (simp add: ctype_defs)

lemma scan_number:
  assumes "number_text w"
  shows "scan_token (w @ CHR '' '' # rest) = Inr (\<lparr>tok_type = TOKEN_NUMBER, tok_text = w\<rparr>, CHR '' '' # rest)"
proof (cases "char_at w = CHR ''-''")
  case True
  then obtain d where w: "w = CHR ''-'' # d" by (cases w) (auto simp: NUL_def)
  then have "unsigned_text d" using assms by (simp add: number_text_def)
  from number_loop_print [OF this] w show ?thesis
    by (simp add: scan_token_def tokenize_number_def char_at_append Let_def isalpha_minus)
next
  case False
  with assms have "unsigned_text w" by (simp add: number_text_def)
  from number_loop_print [OF this] letters_digits show ?thesis
    by (simp add: scan_token_def tokenize_number_def char_at_append Let_def)
qed

lemma scan_string:
  "scan_token ((QUOTE # escape_quotes w @ [QUOTE]) @ CHR '' '' # rest) =
     Inr (\<lparr>tok_type = TOKEN_STRING, tok_text = w\<rparr>, CHR '' '' # rest)"
proof -
  have "\<not> isalpha QUOTE" "QUOTE \<noteq> CHR ''_''" "\<not> isdigit QUOTE" "QUOTE \<noteq> CHR ''-''"
    by (simp_all add: QUOTE_def ctype_defs)
  then show ?thesis by (simp add: scan_token_def tokenize_string_def string_loop_escape Let_def)
qed

lemma scan_symbol:
  "symbol_char ty \<noteq> NUL \<Longrightarrow> scan_token ([symbol_char ty] @ s) = Inr (\<lparr>tok_type = ty, tok_text = [symbol_char ty]\<rparr>, s)"
  by (cases ty) (simp_all add: scan_token_def symbol_char_def tokenize_symbol_def QUOTE_def ctype_defs Let_def)

lemma scan_print:
  assumes "token_ok t"
  shows "scan_token (print_token t @ CHR '' '' # rest) = Inr (t, CHR '' '' # rest)"
proof -
  consider (string) w where "t = \<lparr>tok_type = TOKEN_STRING, tok_text = w\<rparr>"
    | (number) w where "t = \<lparr>tok_type = TOKEN_NUMBER, tok_text = w\<rparr>" "number_text w"
    | (symbol) ty where "t = \<lparr>tok_type = ty, tok_text = [symbol_char ty]\<rparr>" "symbol_char ty \<noteq> NUL"
    | (word) w where "t = \<lparr>tok_type = keyword_type w, tok_text = w\<rparr>" "ident_text w"
    using assms by (cases t; cases "tok_type t") (auto simp: token_ok_eq split: if_splits)
  then show ?thesis
  proof cases
    case symbol
    then have "print_token t = [symbol_char (tok_type t)]" by (auto simp: print_token_def symbol_char_def)
    with symbol scan_symbol show ?thesis by simp
  next
    case (word w)
    then have "print_token t = w" by (simp add: print_token_def keyword_type_def)
    with word scan_ident show ?thesis by simp
  qed (simp_all add: print_token_def scan_number scan_string [simplified])
qed

lemma no_nul_ident: "list_all ident_char w \<Longrightarrow> no_nul w"
  by (auto simp: list_all_iff no_nul_def ident_char_def NUL_def ctype_defs)

lemma no_nul_digits: "list_all isdigit w \<Longrightarrow> no_nul w"
  by (auto simp: list_all_iff no_nul_def)

lemma no_nul_number: "number_text w \<Longrightarrow> no_nul w"
proof -
  have u: "unsigned_text d \<Longrightarrow> no_nul d" for d
    by (erule unsigned_text_cases) (auto simp: no_nul_digits NUL_def)
  assume "number_text w"
  then show ?thesis by (cases w) (auto simp: number_text_def NUL_def dest!: u split: if_splits)
qed

lemma no_nul_escape_quotes: "no_nul w \<Longrightarrow> no_nul (escape_quotes w)"
  by (induction w) (auto simp: QUOTE_def NUL_def)

lemma no_nul_print: "token_ok t \<Longrightarrow> no_nul (print_token t)"
  by (cases "tok_type t")
    (auto simp: token_ok_eq print_token_def ident_text_def no_nul_ident no_nul_number no_nul_escape_quotes
      QUOTE_def NUL_def split: if_splits)

lemma not_space_symbol: "symbol_char ty \<noteq> NUL \<Longrightarrow> \<not> isspace (symbol_char ty)"
  by (cases ty) (simp_all add: symbol_char_def ctype_defs)

lemma not_space_ident: "isalpha c \<or> c = CHR ''_'' \<Longrightarrow> \<not> isspace c"
  by (auto simp: ctype_defs)

lemma print_token_start:
  assumes "token_ok t"
  obtains c u where "print_token t = c # u" "\<not> isspace c"
proof -
  have "print_token t \<noteq> [] \<and> \<not> isspace (char_at (print_token t))"
  proof (cases "tok_type t = TOKEN_STRING")
    case True
    then show ?thesis by (simp add: print_token_def QUOTE_def ctype_defs)
  next
    case False
    show ?thesis
    proof (cases "tok_type t = TOKEN_NUMBER")
      case True
      then have "number_text (tok_text t)" using assms by (simp add: token_ok_eq)
      then have "tok_text t \<noteq> [] \<and> \<not> isspace (char_at (tok_text t))"
        using number_loop_print [of "tok_text t"] letters_digits
        by (auto simp: number_text_def ctype_defs split: if_splits)
      with True show ?thesis by (simp add: print_token_def)
    next
      case other: False
      with False assms not_space_symbol not_space_ident show ?thesis
        by (cases "tok_type t") (auto simp: token_ok_eq print_token_def ident_text_def split: if_splits)
    qed
  qed
  then show thesis using that by (cases "print_token t") auto
qed

lemma tokenize_loop_print:
  "list_all token_ok ts \<Longrightarrow> tokenize_loop (print_tokens ts) tokens = Inr (tokens @ ts @ [EOF_TOKEN])"
proof (induction ts arbitrary: tokens)
  case (Cons t ts)
  then obtain c u where c: "print_token t = c # u" "\<not> isspace c" by (auto elim: print_token_start)
  have "scan_token (print_token t @ CHR '' '' # print_tokens ts) = Inr (t, CHR '' '' # print_tokens ts)"
    using Cons.prems by (intro scan_print) simp
  with c Cons show ?case by (simp add: print_tokens_def)
qed (simp add: print_tokens_def)

lemma no_nul_print_tokens: "list_all token_ok ts \<Longrightarrow> no_nul (print_tokens ts)"
  by (induction ts) (simp_all add: print_tokens_def no_nul_print)

section \<open>The failures of the lexer\<close>

definition lex_failures :: "failure list" where
  "lex_failures = map (\<lambda>msg. Failure STATUS_LEX_ERROR (''LEX ERROR: '' @ msg))
     [''invalid number literal'', ''unterminated string literal'', ''invalid character'']"

lemma lex_error_failures:
  "msg \<in> {''invalid number literal'', ''unterminated string literal'', ''invalid character''} \<Longrightarrow>
   lex_error msg = Inl e \<Longrightarrow> e \<in> set lex_failures"
  by (auto simp: lex_error_def fail_def lex_failures_def set_error_def errbuf_size_def)

lemma number_loop_error: "number_loop b acc s = Inl e \<Longrightarrow> e \<in> set lex_failures"
  by (induction b acc s rule: number_loop.induct) (auto split: if_splits intro: lex_error_failures)

lemma string_loop_error: "string_loop acc s = Inl e \<Longrightarrow> e \<in> set lex_failures"
  by (induction acc s rule: string_loop.induct) (auto split: if_splits intro: lex_error_failures)

lemma scan_token_error: "scan_token s = Inl e \<Longrightarrow> e \<in> set lex_failures"
  by (auto simp: scan_token_def tokenize_number_def tokenize_string_def tokenize_symbol_def Let_def
      split: if_splits sum.splits intro: lex_error_failures number_loop_error string_loop_error)

lemma tokenize_loop_error: "tokenize_loop s tokens = Inl e \<Longrightarrow> e \<in> set lex_failures"
  by (induction s tokens rule: tokenize_loop.induct) (auto split: if_splits sum.splits intro: scan_token_error)

lemma tokenize_error: "tokenize_sql sql = Inl e \<Longrightarrow> e \<in> set lex_failures"
  by (simp add: tokenize_sql_def tokenize_loop_error)

section \<open>Properties of the lexer\<close>

text \<open>
  C19. Whatever the SQL text, a successful tokenization ends with exactly one end-of-input token, and
  every token before it is well formed for its type: identifiers consist of letters, digits and
  underscores, start with no digit and are no keyword in any letter case, keyword tokens spell their
  keyword in some letter case, numbers are an optional minus, digits and an optional fraction with at
  least one digit, and strings contain no NUL.  A text that fails to tokenize gives one of the three
  lexer errors.
\<close>

theorem tokens_well_formed:
  "case tokenize_sql sql of
     Inr toks \<Rightarrow> \<exists>ts. toks = ts @ [EOF_TOKEN] \<and> list_all token_ok ts
   | Inl e \<Rightarrow> e \<in> set lex_failures"
  using tokenize_loop_ok [of "cstr sql" "[]"] tokenize_error [of sql]
  by (auto simp: tokenize_sql_def split: sum.split)

text \<open>
  C20. The lexer reads back any sequence of well-formed tokens printed with blanks in between (strings
  in quotes with doubled inner quotes), so it loses no token, no character of a literal and no letter
  case of an identifier.
\<close>

theorem print_tokens_round_trip:
  assumes "list_all token_ok ts"
  shows "tokenize_sql (print_tokens ts) = Inr (ts @ [EOF_TOKEN])"
  using tokenize_loop_print [OF assms, of "[]"] no_nul_print_tokens [OF assms] by (simp add: tokenize_sql_def)

theorem print_tokens_round_trip_witness:
  "tokenize_sql ''sElect -1.50 ''
     = Inr [\<lparr>tok_type = TOKEN_SELECT, tok_text = ''sElect''\<rparr>, \<lparr>tok_type = TOKEN_NUMBER, tok_text = ''-1.50''\<rparr>, EOF_TOKEN] \<and>
   tokenize_sql ([QUOTE] @ ''it'' @ [QUOTE, QUOTE] @ ''s'' @ [QUOTE] @ '' ; '')
     = Inr [\<lparr>tok_type = TOKEN_STRING, tok_text = ''it'' @ [QUOTE] @ ''s''\<rparr>, \<lparr>tok_type = TOKEN_SEMICOLON, tok_text = '';''\<rparr>, EOF_TOKEN]"
proof -
  let ?a = "[\<lparr>tok_type = TOKEN_SELECT, tok_text = ''sElect''\<rparr>, \<lparr>tok_type = TOKEN_NUMBER, tok_text = ''-1.50''\<rparr>]"
  let ?b = "[\<lparr>tok_type = TOKEN_STRING, tok_text = ''it'' @ [QUOTE] @ ''s''\<rparr>, \<lparr>tok_type = TOKEN_SEMICOLON, tok_text = '';''\<rparr>]"
  have "list_all token_ok ?a" "list_all token_ok ?b" by code_simp+
  moreover have "print_tokens ?a = ''sElect -1.50 ''"
    "print_tokens ?b = [QUOTE] @ ''it'' @ [QUOTE, QUOTE] @ ''s'' @ [QUOTE] @ '' ; ''" by code_simp+
  ultimately show ?thesis using print_tokens_round_trip [of ?a] print_tokens_round_trip [of ?b] by simp
qed

end
