(* ===== verification/Ast.thy ===== *)
theory Ast
  imports Prelude
begin

text \<open>
  The statements of \<^verbatim>\<open>include/ast.h\<close>, shared by the parser and the executor.  The counts
  of the C structs are the lengths of the lists.
\<close>

datatype value_type = VALUE_STRING | VALUE_NUMBER

record literal_value =
  lit_type :: value_type
  lit_text :: string

record insert_statement =
  ins_table_name :: string
  ins_columns :: "string list"
  ins_values :: "literal_value list"

record where_clause =
  has_condition :: bool
  where_column :: string
  where_value :: literal_value

record select_statement =
  sel_table_name :: string
  select_all :: bool
  sel_columns :: "string list"
  sel_where :: where_clause

datatype statement = STMT_INSERT insert_statement | STMT_SELECT select_statement

text \<open>A zeroed \<^verbatim>\<open>WhereClause\<close>: no condition.\<close>

definition no_where :: where_clause where
  "no_where = \<lparr>has_condition = False, where_column = [],
     where_value = \<lparr>lit_type = VALUE_STRING, lit_text = []\<rparr>\<rparr>"

end
