(* ===== verification/Parser.thy ===== *)
theory Parser
  imports Lexer Ast
begin

text \<open>
  The recursive-descent parser of \<^verbatim>\<open>src/parser.c\<close>: a cursor into the token array, one
  definition per parsing function, the statement as the value on success.  Freed memory and the
  out-of-memory branches of the list helpers have no counterpart.  Shown: the parser accepts exactly
  the grammar given by \<open>statement_symbols\<close>, its cursor never passes the end-of-input token,
  every statement has an SQL text that is read back as this statement, and what it produces
  satisfies what the executor expects.
\<close>

section \<open>The cursor\<close>

record parser =
  tokens :: "token list"
  current :: nat

text \<open>
  \<^verbatim>\<open>items[current]\<close>.  Reading behind the array is undefined in C; the model gives the
  end-of-input token there, and \<open>parse_cursor_in_range\<close> below shows that the cursor stays
  inside every array that ends with this token, as those of \<^verbatim>\<open>tokenize_sql\<close> do.
\<close>

definition token_at :: "token list \<Rightarrow> nat \<Rightarrow> token" where
  "token_at toks i = (if i < length toks then toks ! i else EOF_TOKEN)"

definition parser_peek :: "parser \<Rightarrow> token" where
  "parser_peek p = token_at (tokens p) (current p)"

definition parser_previous :: "parser \<Rightarrow> token" where
  "parser_previous p = token_at (tokens p) (current p - 1)"

definition parser_advance :: "parser \<Rightarrow> parser" where
  "parser_advance p =
     (if tok_type (parser_peek p) \<noteq> TOKEN_EOF then p\<lparr>current := current p + 1\<rparr> else p)"

definition parser_match :: "parser \<Rightarrow> token_type \<Rightarrow> bool \<times> parser" where
  "parser_match p type =
     (if tok_type (parser_peek p) \<noteq> type then (False, p) else (True, parser_advance p))"

lemma parser_match_True:
  assumes "parser_match p type = (True, p')" "type \<noteq> TOKEN_EOF"
  shows "p' = p\<lparr>current := current p + 1\<rparr>" "current p < length (tokens p)" "tok_type (parser_peek p) = type"
  using assms
  by (auto simp: parser_match_def parser_advance_def parser_peek_def token_at_def EOF_TOKEN_def split: if_splits)

lemma parser_match_step:
  "(b, p') = parser_match p type \<Longrightarrow> b \<Longrightarrow> type \<noteq> TOKEN_EOF \<Longrightarrow>
     tokens p' = tokens p \<and> current p' = Suc (current p) \<and> current p < length (tokens p)"
  using parser_match_True [of p type p'] by auto

function parser_skip_semicolons :: "parser \<Rightarrow> parser" where
  "parser_skip_semicolons p =
     (case parser_match p TOKEN_SEMICOLON of
        (True, p') \<Rightarrow> parser_skip_semicolons p'
      | (False, p') \<Rightarrow> p')"
  by pat_completeness auto
termination
  by (relation "measure (\<lambda>p. length (tokens p) - current p)")
    (auto dest!: parser_match_step)

declare parser_skip_semicolons.simps [simp del]

definition parse_error :: "string \<Rightarrow> 'a result" where
  "parse_error msg = fail STATUS_PARSE_ERROR (''PARSE ERROR: '' @ msg)"

definition parser_expect_with_message :: "parser \<Rightarrow> token_type \<Rightarrow> string \<Rightarrow> parser result" where
  "parser_expect_with_message p type msg =
     (case parser_match p type of
        (True, p') \<Rightarrow> Inr p'
      | (False, _) \<Rightarrow> parse_error msg)"

section \<open>Names, literals and lists\<close>

definition parse_identifier :: "parser \<Rightarrow> (string \<times> parser) result" where
  "parse_identifier p =
     (if tok_type (parser_peek p) \<noteq> TOKEN_IDENTIFIER then parse_error ''expected identifier''
      else let p' = parser_advance p in Inr (tok_text (parser_previous p'), p'))"

definition parse_literal :: "parser \<Rightarrow> (literal_value \<times> parser) result" where
  "parse_literal p =
     (let tok = parser_peek p in
      if tok_type tok = TOKEN_STRING
      then Inr (\<lparr>lit_type = VALUE_STRING, lit_text = tok_text tok\<rparr>, parser_advance p)
      else if tok_type tok = TOKEN_NUMBER
      then Inr (\<lparr>lit_type = VALUE_NUMBER, lit_text = tok_text tok\<rparr>, parser_advance p)
      else parse_error ''expected literal'')"

text \<open>The loops after the first element of a list.\<close>

lemma parse_identifier_advances:
  "parse_identifier p = Inr (x, p') \<Longrightarrow> tokens p' = tokens p \<and> current p \<le> current p'"
  by (auto simp: parse_identifier_def parser_advance_def parse_error_def Let_def split: if_splits)

lemma parse_literal_advances:
  "parse_literal p = Inr (x, p') \<Longrightarrow> tokens p' = tokens p \<and> current p \<le> current p'"
  by (auto simp: parse_literal_def parser_advance_def parse_error_def Let_def split: if_splits)

function identifier_list_loop :: "parser \<Rightarrow> string list \<Rightarrow> (string list \<times> parser) result" where
  "identifier_list_loop p items =
     (case parser_match p TOKEN_COMMA of
        (True, p1) \<Rightarrow>
          (case parse_identifier p1 of
             Inl e \<Rightarrow> Inl e
           | Inr (identifier, p2) \<Rightarrow> identifier_list_loop p2 (items @ [identifier]))
      | (False, p1) \<Rightarrow> Inr (items, p1))"
  by pat_completeness auto
termination
  by (relation "measure (\<lambda>(p, _). length (tokens p) - current p)")
    (auto dest!: parser_match_step parse_identifier_advances)

definition parse_identifier_list :: "parser \<Rightarrow> (string list \<times> parser) result" where
  "parse_identifier_list p =
     (case parse_identifier p of
        Inl e \<Rightarrow> Inl e
      | Inr (identifier, p') \<Rightarrow> identifier_list_loop p' [identifier])"

function literal_list_loop :: "parser \<Rightarrow> literal_value list \<Rightarrow> (literal_value list \<times> parser) result" where
  "literal_list_loop p items =
     (case parser_match p TOKEN_COMMA of
        (True, p1) \<Rightarrow>
          (case parse_literal p1 of
             Inl e \<Rightarrow> Inl e
           | Inr (literal, p2) \<Rightarrow> literal_list_loop p2 (items @ [literal]))
      | (False, p1) \<Rightarrow> Inr (items, p1))"
  by pat_completeness auto
termination
  by (relation "measure (\<lambda>(p, _). length (tokens p) - current p)")
    (auto dest!: parser_match_step parse_literal_advances)

declare identifier_list_loop.simps [simp del] literal_list_loop.simps [simp del]

definition parse_literal_list :: "parser \<Rightarrow> (literal_value list \<times> parser) result" where
  "parse_literal_list p =
     (case parse_literal p of
        Inl e \<Rightarrow> Inl e
      | Inr (literal, p') \<Rightarrow> literal_list_loop p' [literal])"

section \<open>Statements\<close>

definition parse_where_clause :: "parser \<Rightarrow> (where_clause \<times> parser) result" where
  "parse_where_clause p =
     (case parser_match p TOKEN_WHERE of
        (False, p) \<Rightarrow> Inr (no_where, p)
      | (True, p) \<Rightarrow>
          (case parse_identifier p of
             Inl e \<Rightarrow> Inl e
           | Inr (column, p) \<Rightarrow>
               (case parser_expect_with_message p TOKEN_EQUAL (''expected '' @ quoted ''='' @ '' in WHERE clause'') of
                  Inl e \<Rightarrow> Inl e
                | Inr p \<Rightarrow>
                    (case parse_literal p of
                       Inl e \<Rightarrow> Inl e
                     | Inr (val, p) \<Rightarrow>
                         Inr (\<lparr>has_condition = True, where_column = column, where_value = val\<rparr>, p)))))"

text \<open>The optional column list of an INSERT.\<close>

definition parse_insert_columns :: "parser \<Rightarrow> (string list \<times> parser) result" where
  "parse_insert_columns p =
     (case parser_match p TOKEN_LPAREN of
        (False, p) \<Rightarrow> Inr ([], p)
      | (True, p) \<Rightarrow>
          (case parse_identifier_list p of
             Inl e \<Rightarrow> Inl e
           | Inr (cols, p) \<Rightarrow>
               (case parser_expect_with_message p TOKEN_RPAREN (''expected '' @ quoted '')'' @ '' after column list'') of
                  Inl e \<Rightarrow> Inl e
                | Inr p \<Rightarrow> Inr (cols, p))))"

definition parse_insert_values :: "parser \<Rightarrow> (literal_value list \<times> parser) result" where
  "parse_insert_values p =
     (case parser_expect_with_message p TOKEN_VALUES ''expected VALUES in INSERT statement'' of
        Inl e \<Rightarrow> Inl e
      | Inr p \<Rightarrow>
          (case parser_expect_with_message p TOKEN_LPAREN (''expected '' @ quoted ''('' @ '' before value list'') of
             Inl e \<Rightarrow> Inl e
           | Inr p \<Rightarrow>
               (case parse_literal_list p of
                  Inl e \<Rightarrow> Inl e
                | Inr (vals, p) \<Rightarrow>
                    (case parser_expect_with_message p TOKEN_RPAREN (''expected '' @ quoted '')'' @ '' after value list'') of
                       Inl e \<Rightarrow> Inl e
                     | Inr p \<Rightarrow> Inr (vals, p)))))"

definition parse_insert :: "parser \<Rightarrow> (statement \<times> parser) result" where
  "parse_insert p =
     (case parser_expect_with_message p TOKEN_INTO ''expected INTO after INSERT'' of
        Inl e \<Rightarrow> Inl e
      | Inr p \<Rightarrow>
          (case parse_identifier p of
             Inl e \<Rightarrow> Inl e
           | Inr (table, p) \<Rightarrow>
               (case parse_insert_columns p of
                  Inl e \<Rightarrow> Inl e
                | Inr (cols, p) \<Rightarrow>
                    (case parse_insert_values p of
                       Inl e \<Rightarrow> Inl e
                     | Inr (vals, p) \<Rightarrow>
                         Inr (STMT_INSERT \<lparr>ins_table_name = table, ins_columns = cols, ins_values = vals\<rparr>, p)))))"

text \<open>The select list: the flag \<^verbatim>\<open>select_all\<close> and the columns.\<close>

definition parse_select_list :: "parser \<Rightarrow> ((bool \<times> string list) \<times> parser) result" where
  "parse_select_list p =
     (case parser_match p TOKEN_STAR of
        (True, p) \<Rightarrow> Inr ((True, []), p)
      | (False, p) \<Rightarrow>
          (case parse_identifier_list p of
             Inl e \<Rightarrow> Inl e
           | Inr (cols, p) \<Rightarrow> Inr ((False, cols), p)))"

definition parse_select :: "parser \<Rightarrow> (statement \<times> parser) result" where
  "parse_select p =
     (case parse_select_list p of
        Inl e \<Rightarrow> Inl e
      | Inr ((star, cols), p) \<Rightarrow>
          (case parser_expect_with_message p TOKEN_FROM ''expected FROM after select list'' of
             Inl e \<Rightarrow> Inl e
           | Inr p \<Rightarrow>
               (case parse_identifier p of
                  Inl e \<Rightarrow> Inl e
                | Inr (table, p) \<Rightarrow>
                    (case parse_where_clause p of
                       Inl e \<Rightarrow> Inl e
                     | Inr (clause, p) \<Rightarrow>
                         Inr (STMT_SELECT \<lparr>sel_table_name = table, select_all = star, sel_columns = cols,
                                           sel_where = clause\<rparr>, p)))))"

text \<open>The branch of \<^verbatim>\<open>parse_next_statement\<close> on the first keyword.\<close>

definition parse_body :: "parser \<Rightarrow> (statement \<times> parser) result" where
  "parse_body p =
     (case parser_match p TOKEN_INSERT of
        (True, p1) \<Rightarrow> parse_insert p1
      | (False, _) \<Rightarrow>
          (case parser_match p TOKEN_SELECT of
             (True, p1) \<Rightarrow> parse_select p1
           | (False, _) \<Rightarrow> parse_error ''expected INSERT or SELECT''))"

text \<open>
  \<^verbatim>\<open>parse_next_statement\<close> returns the result and the value of \<^verbatim>\<open>*cursor\<close>
  after the call: it moves on success, and on a stream with no further statement.
\<close>

definition parse_next_statement :: "token list \<Rightarrow> nat \<Rightarrow> statement result \<times> nat" where
  "parse_next_statement toks cursor =
     (if toks = [] then (parse_error ''invalid token stream'', cursor)
      else if cursor \<ge> length toks then (parse_error ''parser cursor out of range'', cursor)
      else
        let p = parser_skip_semicolons \<lparr>tokens = toks, current = cursor\<rparr> in
        if tok_type (parser_peek p) = TOKEN_EOF
        then (parse_error ''expected INSERT or SELECT'', current p)
        else
          case parse_body p of
            Inl e \<Rightarrow> (Inl e, cursor)
          | Inr (stmt, p2) \<Rightarrow> (Inr stmt, current (snd (parser_match p2 TOKEN_SEMICOLON))))"

text \<open>The loop of \<^verbatim>\<open>parse_statement\<close>, also written out in \<^verbatim>\<open>db_api.c\<close> and
  \<^verbatim>\<open>main.c\<close>: the first index from the cursor on that holds no semicolon.\<close>

function skip_semicolon_tokens :: "token list \<Rightarrow> nat \<Rightarrow> nat" where
  "skip_semicolon_tokens toks cursor =
     (if cursor < length toks \<and> tok_type (toks ! cursor) = TOKEN_SEMICOLON
      then skip_semicolon_tokens toks (cursor + 1) else cursor)"
  by pat_completeness auto
termination
  by (relation "measure (\<lambda>(toks, cursor). length toks - cursor)") auto

declare skip_semicolon_tokens.simps [simp del]

definition parse_statement :: "token list \<Rightarrow> statement result" where
  "parse_statement toks =
     (case parse_next_statement toks 0 of
        (Inl e, _) \<Rightarrow> Inl e
      | (Inr stmt, cursor) \<Rightarrow>
          let cursor = skip_semicolon_tokens toks cursor in
          if cursor \<ge> length toks \<or> tok_type (toks ! cursor) \<noteq> TOKEN_EOF
          then parse_error ''unexpected trailing tokens''
          else Inr stmt)"

section \<open>The grammar\<close>

text \<open>
  A symbol is a token whose text counts only for names and literals: the letter case of a keyword
  does not matter.
\<close>

definition symbol :: "token_type \<Rightarrow> token" where
  "symbol ty = \<lparr>tok_type = ty, tok_text = []\<rparr>"

definition ident :: "string \<Rightarrow> token" where
  "ident s = \<lparr>tok_type = TOKEN_IDENTIFIER, tok_text = s\<rparr>"

definition lit :: "literal_value \<Rightarrow> token" where
  "lit v = \<lparr>tok_type = (case lit_type v of VALUE_STRING \<Rightarrow> TOKEN_STRING | VALUE_NUMBER \<Rightarrow> TOKEN_NUMBER),
            tok_text = lit_text v\<rparr>"

definition has_text :: "token_type \<Rightarrow> bool" where
  "has_text ty \<longleftrightarrow> ty \<in> {TOKEN_IDENTIFIER, TOKEN_STRING, TOKEN_NUMBER}"

definition erase :: "token \<Rightarrow> token" where
  "erase t = (if has_text (tok_type t) then t else symbol (tok_type t))"

fun comma_list :: "token list \<Rightarrow> token list" where
  "comma_list [] = []"
| "comma_list [x] = [x]"
| "comma_list (x # y # zs) = x # symbol TOKEN_COMMA # comma_list (y # zs)"

definition where_symbols :: "where_clause \<Rightarrow> token list" where
  "where_symbols c =
     (if has_condition c
      then [symbol TOKEN_WHERE, ident (where_column c), symbol TOKEN_EQUAL, lit (where_value c)] else [])"

definition column_symbols :: "string list \<Rightarrow> token list" where
  "column_symbols cols =
     (if cols = [] then [] else [symbol TOKEN_LPAREN] @ comma_list (map ident cols) @ [symbol TOKEN_RPAREN])"

definition value_symbols :: "literal_value list \<Rightarrow> token list" where
  "value_symbols vals =
     [symbol TOKEN_VALUES, symbol TOKEN_LPAREN] @ comma_list (map lit vals) @ [symbol TOKEN_RPAREN]"

definition select_list_symbols :: "bool \<Rightarrow> string list \<Rightarrow> token list" where
  "select_list_symbols star cols = (if star then [symbol TOKEN_STAR] else comma_list (map ident cols))"

fun statement_symbols :: "statement \<Rightarrow> token list" where
  "statement_symbols (STMT_INSERT i) =
     [symbol TOKEN_INSERT, symbol TOKEN_INTO, ident (ins_table_name i)] @
     column_symbols (ins_columns i) @ value_symbols (ins_values i)"
| "statement_symbols (STMT_SELECT s) =
     [symbol TOKEN_SELECT] @ select_list_symbols (select_all s) (sel_columns s) @
     [symbol TOKEN_FROM, ident (sel_table_name s)] @ where_symbols (sel_where s)"

text \<open>The statements the grammar has: a value list and a select list are not empty.\<close>

fun statement_wf :: "statement \<Rightarrow> bool" where
  "statement_wf (STMT_INSERT i) \<longleftrightarrow> ins_values i \<noteq> []"
| "statement_wf (STMT_SELECT s) \<longleftrightarrow>
     (select_all s \<longleftrightarrow> sel_columns s = []) \<and> (\<not> has_condition (sel_where s) \<longrightarrow> sel_where s = no_where)"

section \<open>Reading symbols\<close>

definition upcoming :: "parser \<Rightarrow> token list" where
  "upcoming p = map erase (drop (current p) (tokens p))"

text \<open>From \<open>p\<close> the parser reads the symbols \<open>ss\<close> and is then at \<open>p'\<close>.\<close>

definition reads :: "parser \<Rightarrow> token list \<Rightarrow> parser \<Rightarrow> bool" where
  "reads p ss p' \<longleftrightarrow> upcoming p = ss @ upcoming p' \<and> p' = p\<lparr>current := current p + length ss\<rparr>"

definition looks :: "parser \<Rightarrow> token_type \<Rightarrow> bool" where
  "looks p ty \<longleftrightarrow> tok_type (parser_peek p) = ty"

lemma upcoming_adv: "upcoming (p\<lparr>current := current p + n\<rparr>) = drop n (upcoming p)"
  by (simp add: upcoming_def drop_map add.commute)

lemma reads_Nil [simp]: "reads p [] p' \<longleftrightarrow> p' = p"
  by (auto simp: reads_def)

lemma reads_append: "reads p (as @ bs) p'' \<longleftrightarrow> (\<exists>p'. reads p as p' \<and> reads p' bs p'')"
proof
  assume r: "reads p (as @ bs) p''"
  let ?p = "p\<lparr>current := current p + length as\<rparr>"
  from r have "upcoming ?p = bs @ upcoming p''" unfolding upcoming_adv by (simp add: reads_def)
  with r have "reads p as ?p \<and> reads ?p bs p''" by (simp add: reads_def add.assoc)
  then show "\<exists>p'. reads p as p' \<and> reads p' bs p''" by blast
qed (auto simp: reads_def add.assoc)

lemma reads_Cons: "reads p (a # bs) p'' \<longleftrightarrow> (\<exists>p'. reads p [a] p' \<and> reads p' bs p'')"
  using reads_append [of p "[a]" bs p''] by simp

lemma peek_upcoming:
  "erase (parser_peek p) = (case upcoming p of [] \<Rightarrow> EOF_TOKEN | s # _ \<Rightarrow> s)"
proof (cases "current p < length (tokens p)")
  case True
  then show ?thesis by (simp add: upcoming_def parser_peek_def token_at_def Cons_nth_drop_Suc [symmetric])
qed (simp add: upcoming_def parser_peek_def token_at_def erase_def EOF_TOKEN_def has_text_def symbol_def)

lemma erase_type [simp]: "tok_type (erase t) = tok_type t"
  by (simp add: erase_def symbol_def)

text \<open>The one rule for consuming a token that is not the end of the input.\<close>

lemma reads_one:
  assumes "tok_type a \<noteq> TOKEN_EOF"
  shows "reads p [a] p' \<longleftrightarrow> erase (parser_peek p) = a \<and> p' = parser_advance p"
proof -
  have "erase (parser_peek p) = a \<Longrightarrow> tok_type (parser_peek p) = tok_type a" by (metis erase_type)
  moreover have "reads p [a] p' \<longleftrightarrow> erase (parser_peek p) = a \<and> p' = p\<lparr>current := current p + 1\<rparr>"
    using assms upcoming_adv [of p 1]
    by (cases "upcoming p") (auto simp: reads_def peek_upcoming EOF_TOKEN_def)
  ultimately show ?thesis using assms by (auto simp: parser_advance_def)
qed

lemma reads_sym:
  assumes "\<not> has_text ty" "ty \<noteq> TOKEN_EOF"
  shows "reads p [symbol ty] p' \<longleftrightarrow> looks p ty \<and> p' = parser_advance p"
proof -
  have "erase (parser_peek p) = symbol ty \<longleftrightarrow> looks p ty"
    using assms by (cases "parser_peek p") (auto simp: erase_def looks_def symbol_def)
  then show ?thesis using reads_one [of "symbol ty" p p'] assms by (simp add: symbol_def)
qed

lemma match_True:
  "\<not> has_text ty \<Longrightarrow> ty \<noteq> TOKEN_EOF \<Longrightarrow> parser_match p ty = (True, p') \<longleftrightarrow> reads p [symbol ty] p'"
  by (auto simp: reads_sym parser_match_def looks_def)

lemma match_False: "parser_match p ty = (False, p') \<longleftrightarrow> \<not> looks p ty \<and> p' = p"
  by (auto simp: parser_match_def looks_def)

lemma expect_iff:
  "\<not> has_text ty \<Longrightarrow> ty \<noteq> TOKEN_EOF \<Longrightarrow>
     parser_expect_with_message p ty msg = Inr p' \<longleftrightarrow> reads p [symbol ty] p'"
  by (auto simp: reads_sym parser_expect_with_message_def parser_match_def looks_def parse_error_def)

lemma identifier_iff: "parse_identifier p = Inr (x, p') \<longleftrightarrow> reads p [ident x] p'"
proof -
  have "tok_text (parser_previous (parser_advance p)) = tok_text (parser_peek p)"
    if "tok_type (parser_peek p) = TOKEN_IDENTIFIER"
    using that by (simp add: parser_previous_def parser_advance_def parser_peek_def)
  then show ?thesis
    by (cases "parser_peek p")
      (auto simp: parse_identifier_def parse_error_def Let_def reads_one ident_def erase_def has_text_def symbol_def)
qed

lemma literal_iff: "parse_literal p = Inr (x, p') \<longleftrightarrow> reads p [lit x] p'"
proof -
  have "tok_type (lit x) \<noteq> TOKEN_EOF" by (simp add: lit_def split: value_type.split)
  then show ?thesis
    by (cases "parser_peek p"; cases x)
      (auto simp: parse_literal_def parse_error_def Let_def reads_one lit_def erase_def has_text_def symbol_def
        split: value_type.splits)
qed

lemma reads_looks: "reads p (a # bs) p' \<Longrightarrow> looks p ty \<longleftrightarrow> ty = tok_type a"
  using peek_upcoming [of p] erase_type [of "parser_peek p"] by (auto simp: reads_def looks_def)

lemma plain_symbols [simp]:
  "\<not> has_text TOKEN_EOF" "\<not> has_text TOKEN_COMMA" "\<not> has_text TOKEN_LPAREN" "\<not> has_text TOKEN_RPAREN"
  "\<not> has_text TOKEN_SEMICOLON" "\<not> has_text TOKEN_STAR" "\<not> has_text TOKEN_INSERT" "\<not> has_text TOKEN_INTO"
  "\<not> has_text TOKEN_VALUES" "\<not> has_text TOKEN_SELECT" "\<not> has_text TOKEN_FROM" "\<not> has_text TOKEN_WHERE"
  "\<not> has_text TOKEN_EQUAL"
  by (simp_all add: has_text_def)

lemma symbol_types [simp]:
  "tok_type (symbol ty) = ty" "tok_type (ident x) = TOKEN_IDENTIFIER"
  by (simp_all add: symbol_def ident_def)

section \<open>Comma-separated lists\<close>

text \<open>
  Both lists are read by the same loop around a parser of one item; what it reads is shown once for
  any item parser that reads one symbol.
\<close>

definition comma_items :: "('a \<Rightarrow> token) \<Rightarrow> 'a list \<Rightarrow> token list" where
  "comma_items symbol_of ys = concat (map (\<lambda>y. [symbol TOKEN_COMMA, symbol_of y]) ys)"

lemma comma_list_Cons: "comma_list (map f (x # ys)) = f x # comma_items f ys"
  by (induction ys arbitrary: x) (auto simp: comma_items_def)

lemma ex_list: "(\<exists>ys. Q ys) \<longleftrightarrow> Q [] \<or> (\<exists>y ys. Q (y # ys))"
  by (metis neq_Nil_conv)

locale comma_separated =
  fixes item :: "parser \<Rightarrow> ('a \<times> parser) result"
    and symbol_of :: "'a \<Rightarrow> token"
    and loop :: "parser \<Rightarrow> 'a list \<Rightarrow> ('a list \<times> parser) result"
  assumes item_reads: "item p = Inr (x, p') \<longleftrightarrow> reads p [symbol_of x] p'"
    and loop_eq: "loop p items =
      (case parser_match p TOKEN_COMMA of
         (True, p1) \<Rightarrow>
           (case item p1 of Inl e \<Rightarrow> Inl e | Inr (x, p2) \<Rightarrow> loop p2 (items @ [x]))
       | (False, p1) \<Rightarrow> Inr (items, p1))"
begin

lemma loop_stop: "\<not> looks p TOKEN_COMMA \<Longrightarrow> loop p items = Inr (items, p)"
  using match_False [of p TOKEN_COMMA p] by (simp add: loop_eq [of p])

lemma loop_step:
  assumes "reads p [symbol TOKEN_COMMA] p1"
  shows "loop p items = Inr (xs, p') \<longleftrightarrow>
    (\<exists>x p2. reads p1 [symbol_of x] p2 \<and> loop p2 (items @ [x]) = Inr (xs, p'))"
proof -
  have "parser_match p TOKEN_COMMA = (True, p1)" using assms by (simp add: match_True)
  then show ?thesis by (auto simp: loop_eq [of p] simp flip: item_reads split: sum.split)
qed

lemma reads_comma: "looks p TOKEN_COMMA \<longleftrightarrow> (\<exists>p1. reads p [symbol TOKEN_COMMA] p1)"
  by (simp add: reads_sym)

lemma loop_reads:
  "loop p items = Inr (xs, p') \<longleftrightarrow>
     (\<exists>ys. xs = items @ ys \<and> reads p (comma_items symbol_of ys) p' \<and> \<not> looks p' TOKEN_COMMA)"
proof (induction "length (upcoming p)" arbitrary: p items rule: less_induct)
  case less
  show ?case
  proof (cases "looks p TOKEN_COMMA")
    case False
    have "reads p (comma_items symbol_of ys) p' \<longleftrightarrow> ys = [] \<and> p' = p" for ys
      using False reads_looks [of p "symbol TOKEN_COMMA" _ p' TOKEN_COMMA]
      by (cases ys) (auto simp: comma_items_def)
    with False show ?thesis by (auto simp: loop_stop)
  next
    case True
    then obtain p1 where p1: "reads p [symbol TOKEN_COMMA] p1" by (auto simp: reads_comma)
    have shorter: "length (upcoming p2) < length (upcoming p)" if "reads p1 [a] p2" for a p2
      using p1 that by (simp add: reads_def)
    have one: "reads p [symbol TOKEN_COMMA] q \<longleftrightarrow> q = p1" for q using p1 by (auto simp: reads_sym)
    have "reads p (comma_items symbol_of (y # ys)) p' \<longleftrightarrow>
        (\<exists>p2. reads p1 [symbol_of y] p2 \<and> reads p2 (comma_items symbol_of ys) p')" for y ys
      using reads_Cons [of p "symbol TOKEN_COMMA" "symbol_of y # comma_items symbol_of ys" p']
        reads_Cons [of p1 "symbol_of y" "comma_items symbol_of ys" p'] by (simp add: comma_items_def one)
    moreover have "\<not> (reads p (comma_items symbol_of []) p' \<and> \<not> looks p' TOKEN_COMMA)"
      using True by (simp add: comma_items_def)
    moreover have "loop p items = Inr (xs, p') \<longleftrightarrow>
        (\<exists>y p2 ys. reads p1 [symbol_of y] p2 \<and> xs = (items @ [y]) @ ys \<and>
           reads p2 (comma_items symbol_of ys) p' \<and> \<not> looks p' TOKEN_COMMA)"
      unfolding loop_step [OF p1] using less [OF shorter] by blast
    ultimately show ?thesis by (subst ex_list) auto
  qed
qed

lemma list_reads:
  "(case item p of Inl e \<Rightarrow> Inl e | Inr (x, p1) \<Rightarrow> loop p1 [x]) = Inr (xs, p') \<longleftrightarrow>
     xs \<noteq> [] \<and> reads p (comma_list (map symbol_of xs)) p' \<and> \<not> looks p' TOKEN_COMMA"
proof -
  have "(case item p of Inl e \<Rightarrow> Inl e | Inr (x, p1) \<Rightarrow> loop p1 [x]) = Inr (xs, p') \<longleftrightarrow>
      (\<exists>x p1. item p = Inr (x, p1) \<and> loop p1 [x] = Inr (xs, p'))" by (auto split: sum.split)
  also have "\<dots> \<longleftrightarrow> (\<exists>x ys. xs = x # ys \<and> reads p (symbol_of x # comma_items symbol_of ys) p' \<and> \<not> looks p' TOKEN_COMMA)"
    unfolding item_reads loop_reads by (auto simp: reads_Cons [of p _ "comma_items _ _"])
  also have "\<dots> \<longleftrightarrow> xs \<noteq> [] \<and> reads p (comma_list (map symbol_of xs)) p' \<and> \<not> looks p' TOKEN_COMMA"
    by (cases xs) (auto simp: comma_list_Cons simp del: list.map)
  finally show ?thesis .
qed

end

interpretation idents: comma_separated parse_identifier ident identifier_list_loop
  by unfold_locales (rule identifier_iff, rule identifier_list_loop.simps)

interpretation lits: comma_separated parse_literal lit literal_list_loop
  by unfold_locales (rule literal_iff, rule literal_list_loop.simps)

lemma identifier_list_iff:
  "parse_identifier_list p = Inr (xs, p') \<longleftrightarrow>
     xs \<noteq> [] \<and> reads p (comma_list (map ident xs)) p' \<and> \<not> looks p' TOKEN_COMMA"
  unfolding parse_identifier_list_def by (rule idents.list_reads)

lemma literal_list_iff:
  "parse_literal_list p = Inr (xs, p') \<longleftrightarrow>
     xs \<noteq> [] \<and> reads p (comma_list (map lit xs)) p' \<and> \<not> looks p' TOKEN_COMMA"
  unfolding parse_literal_list_def by (rule lits.list_reads)

section \<open>Statements are read exactly\<close>

lemma bind_iff:
  "(case r of Inl e \<Rightarrow> Inl e | Inr x \<Rightarrow> f x) = Inr y \<longleftrightarrow> (\<exists>x. r = Inr x \<and> f x = Inr y)"
  by (auto split: sum.split)

lemma match_bind_iff:
  assumes "\<not> has_text ty" "ty \<noteq> TOKEN_EOF"
  shows "(case parser_match p ty of (True, q) \<Rightarrow> f q | (False, q) \<Rightarrow> g q) = Inr y \<longleftrightarrow>
    (\<exists>q. reads p [symbol ty] q \<and> f q = Inr y) \<or> (\<not> looks p ty \<and> g p = Inr y)"
  using assms by (auto simp: reads_sym parser_match_def looks_def)

lemmas reads_iffs = bind_iff match_bind_iff expect_iff identifier_iff literal_iff identifier_list_iff literal_list_iff

lemma reads_Cons_Cons: "reads p (a # b # cs) p'' \<longleftrightarrow> (\<exists>p'. reads p [a] p' \<and> reads p' (b # cs) p'')"
  by (rule reads_Cons)

lemma reads_Cons_append:
  "reads p (a # bs @ cs) p'' \<longleftrightarrow> (\<exists>p'. reads p [a] p' \<and> reads p' (bs @ cs) p'')"
  by (rule reads_Cons)

text \<open>A symbol that is read next decides the lookahead before it.\<close>

lemma lookahead_read:
  "\<not> looks p ty \<and> reads p [a] q \<longleftrightarrow> tok_type a \<noteq> ty \<and> reads p [a] q"
  "\<not> looks p ty \<and> reads p [a] q \<and> R \<longleftrightarrow> tok_type a \<noteq> ty \<and> reads p [a] q \<and> R"
  using reads_looks [of p a "[]" q ty] by auto

lemmas reads_seq = reads_Cons_Cons reads_Cons_append reads_append lookahead_read

lemma where_iff:
  "parse_where_clause p = Inr (c, p') \<longleftrightarrow>
     (\<not> has_condition c \<longrightarrow> c = no_where) \<and> reads p (where_symbols c) p' \<and>
     (\<not> has_condition c \<longrightarrow> \<not> looks p' TOKEN_WHERE)"
  by (cases c)
    (auto simp: parse_where_clause_def reads_iffs where_symbols_def no_where_def reads_Cons_Cons split: prod.splits)

lemma insert_columns_iff:
  "parse_insert_columns p = Inr (cols, p') \<longleftrightarrow>
     reads p (column_symbols cols) p' \<and> (cols = [] \<longrightarrow> \<not> looks p' TOKEN_LPAREN)"
  by (auto simp: parse_insert_columns_def reads_iffs column_symbols_def reads_seq)

lemma insert_values_iff:
  "parse_insert_values p = Inr (vals, p') \<longleftrightarrow> vals \<noteq> [] \<and> reads p (value_symbols vals) p'"
  by (auto simp: parse_insert_values_def reads_iffs value_symbols_def reads_seq)

lemma reads_values_looks: "reads p (value_symbols vals) p' \<Longrightarrow> \<not> looks p TOKEN_LPAREN"
  by (simp add: value_symbols_def reads_looks [of p "symbol TOKEN_VALUES"])

lemma insert_iff:
  "parse_insert p = Inr (st, p') \<longleftrightarrow>
     (\<exists>i. st = STMT_INSERT i \<and> statement_wf st \<and> reads p (tl (statement_symbols st)) p')"
proof (cases st)
  case (STMT_INSERT i)
  obtain t cs vs where i: "i = \<lparr>ins_table_name = t, ins_columns = cs, ins_values = vs\<rparr>" by (cases i)
  have "parse_insert p = Inr (st, p') \<longleftrightarrow>
      (\<exists>p1 p2 p3. reads p [symbol TOKEN_INTO] p1 \<and> reads p1 [ident t] p2 \<and>
         (reads p2 (column_symbols cs) p3 \<and> (cs = [] \<longrightarrow> \<not> looks p3 TOKEN_LPAREN)) \<and>
         vs \<noteq> [] \<and> reads p3 (value_symbols vs) p')"
    unfolding parse_insert_def reads_iffs
    by (auto simp: reads_iffs insert_columns_iff insert_values_iff STMT_INSERT i)
  also have "\<dots> \<longleftrightarrow> vs \<noteq> [] \<and> (\<exists>p1 p2 p3. reads p [symbol TOKEN_INTO] p1 \<and> reads p1 [ident t] p2 \<and>
         reads p2 (column_symbols cs) p3 \<and> reads p3 (value_symbols vs) p')"
    using reads_values_looks by blast
  also have "\<dots> \<longleftrightarrow> statement_wf st \<and> reads p (tl (statement_symbols st)) p'"
    by (simp add: STMT_INSERT i reads_seq)
  finally show ?thesis using STMT_INSERT by simp
qed (auto simp: parse_insert_def reads_iffs)

lemma reads_from_looks:
  "reads p ([symbol TOKEN_FROM] @ bs) p' \<Longrightarrow> \<not> looks p TOKEN_COMMA"
  by (simp add: reads_looks [of p "symbol TOKEN_FROM"])

lemma select_list_iff:
  "parse_select_list p = Inr ((star, cols), p') \<longleftrightarrow>
     (star \<longleftrightarrow> cols = []) \<and> reads p (select_list_symbols star cols) p' \<and>
     (\<not> star \<longrightarrow> \<not> looks p' TOKEN_COMMA)"
proof -
  have "\<not> looks p TOKEN_STAR" if "reads p (comma_list (map ident cols)) p'" "cols \<noteq> []"
    using that reads_looks [of p "ident (hd cols)"] by (cases cols) (auto simp: comma_list_Cons simp del: list.map)
  then show ?thesis by (auto simp: parse_select_list_def reads_iffs select_list_symbols_def)
qed

lemma select_iff:
  "parse_select p = Inr (st, p') \<longleftrightarrow>
     (\<exists>s. st = STMT_SELECT s \<and> statement_wf st \<and> reads p (tl (statement_symbols st)) p' \<and>
        (\<not> has_condition (sel_where s) \<longrightarrow> \<not> looks p' TOKEN_WHERE))"
proof (cases st)
  case (STMT_SELECT s)
  obtain t b cs c where s: "s = \<lparr>sel_table_name = t, select_all = b, sel_columns = cs, sel_where = c\<rparr>" by (cases s)
  have "parse_select p = Inr (st, p') \<longleftrightarrow>
      (\<exists>p1 p2 p3. ((b \<longleftrightarrow> cs = []) \<and> reads p (select_list_symbols b cs) p1 \<and> (\<not> b \<longrightarrow> \<not> looks p1 TOKEN_COMMA)) \<and>
         reads p1 [symbol TOKEN_FROM] p2 \<and> reads p2 [ident t] p3 \<and>
         (\<not> has_condition c \<longrightarrow> c = no_where) \<and> reads p3 (where_symbols c) p' \<and>
         (\<not> has_condition c \<longrightarrow> \<not> looks p' TOKEN_WHERE))"
    unfolding parse_select_def reads_iffs
    by (auto simp: reads_iffs select_list_iff where_iff STMT_SELECT s)
  also have "\<dots> \<longleftrightarrow> (b \<longleftrightarrow> cs = []) \<and> (\<not> has_condition c \<longrightarrow> c = no_where) \<and>
      (\<exists>p1 p2 p3. reads p (select_list_symbols b cs) p1 \<and> reads p1 [symbol TOKEN_FROM] p2 \<and>
         reads p2 [ident t] p3 \<and> reads p3 (where_symbols c) p') \<and>
      (\<not> has_condition c \<longrightarrow> \<not> looks p' TOKEN_WHERE)"
    using reads_from_looks [of _ "[]", simplified] by blast
  also have "\<dots> \<longleftrightarrow> statement_wf st \<and> reads p (tl (statement_symbols st)) p' \<and>
      (\<not> has_condition c \<longrightarrow> \<not> looks p' TOKEN_WHERE)"
    by (simp add: STMT_SELECT s reads_seq reads_Cons [of _ "ident t" "where_symbols c"])
  finally show ?thesis using STMT_SELECT s by simp
qed (auto simp: parse_select_def reads_iffs)

section \<open>Statement separators\<close>

abbreviation semis :: "nat \<Rightarrow> token list" where
  "semis m \<equiv> replicate m (symbol TOKEN_SEMICOLON)"

lemma skip_step: "reads p [symbol TOKEN_SEMICOLON] q \<Longrightarrow> parser_skip_semicolons p = parser_skip_semicolons q"
  by (subst parser_skip_semicolons.simps) (simp flip: match_True)

lemma skip_stop: "\<not> looks p TOKEN_SEMICOLON \<Longrightarrow> parser_skip_semicolons p = p"
  using match_False [of p TOKEN_SEMICOLON p] by (subst parser_skip_semicolons.simps) simp

lemma skip_reads:
  "reads p (semis m) q \<Longrightarrow> \<not> looks q TOKEN_SEMICOLON \<Longrightarrow> parser_skip_semicolons p = q"
proof (induction m arbitrary: p)
  case (Suc m)
  from Suc.prems(1) obtain r where "reads p [symbol TOKEN_SEMICOLON] r" "reads r (semis m) q"
    using reads_Cons [of p "symbol TOKEN_SEMICOLON" "semis m" q] by auto
  with Suc show ?case using skip_step by metis
qed (simp add: skip_stop)

lemma skip_exists:
  "\<exists>m. reads p (semis m) (parser_skip_semicolons p) \<and> \<not> looks (parser_skip_semicolons p) TOKEN_SEMICOLON"
proof (induction "length (upcoming p)" arbitrary: p rule: less_induct)
  case less
  show ?case
  proof (cases "looks p TOKEN_SEMICOLON")
    case True
    then obtain q where q: "reads p [symbol TOKEN_SEMICOLON] q" by (simp add: reads_sym)
    then have "length (upcoming q) < length (upcoming p)" by (simp add: reads_def)
    from less [OF this] obtain m where
      m: "reads q (semis m) (parser_skip_semicolons q)" "\<not> looks (parser_skip_semicolons q) TOKEN_SEMICOLON" by blast
    with q have "reads p (semis (Suc m)) (parser_skip_semicolons q)"
      using reads_Cons [of p "symbol TOKEN_SEMICOLON" "semis m"] by auto
    with m(2) skip_step [OF q] show ?thesis by metis
  next
    case False
    then show ?thesis by (intro exI [of _ 0]) (simp add: skip_stop)
  qed
qed

lemma skip_iff:
  "parser_skip_semicolons p = q \<longleftrightarrow> (\<exists>m. reads p (semis m) q) \<and> \<not> looks q TOKEN_SEMICOLON"
  using skip_exists [of p] skip_reads [of p _ q] by blast

lemma skip_tokens: "skip_semicolon_tokens toks c = current (parser_skip_semicolons \<lparr>tokens = toks, current = c\<rparr>)"
proof (induction toks c rule: skip_semicolon_tokens.induct)
  case (1 toks c)
  let ?p = "\<lparr>tokens = toks, current = c\<rparr>"
  show ?case
  proof (cases "c < length toks \<and> tok_type (toks ! c) = TOKEN_SEMICOLON")
    case True
    then have "reads ?p [symbol TOKEN_SEMICOLON] \<lparr>tokens = toks, current = c + 1\<rparr>"
      by (simp add: reads_sym looks_def parser_peek_def token_at_def parser_advance_def)
    with 1 [OF True] skip_step True show ?thesis by (simp add: skip_semicolon_tokens.simps [of toks c])
  next
    case False
    then have "\<not> looks ?p TOKEN_SEMICOLON"
      by (auto simp: looks_def parser_peek_def token_at_def EOF_TOKEN_def)
    with False show ?thesis by (auto simp: skip_semicolon_tokens.simps [of toks c] skip_stop)
  qed
qed

lemma skip_after_match:
  "parser_skip_semicolons (snd (parser_match p TOKEN_SEMICOLON)) = parser_skip_semicolons p"
  using skip_step [of p "parser_advance p"]
  by (cases "looks p TOKEN_SEMICOLON") (simp_all add: parser_match_def reads_sym looks_def)

section \<open>The next statement of a stream\<close>

text \<open>A SELECT without a condition ends where no WHERE follows.\<close>

fun ends_before :: "statement \<Rightarrow> parser \<Rightarrow> bool" where
  "ends_before (STMT_SELECT s) q \<longleftrightarrow> has_condition (sel_where s) \<or> \<not> looks q TOKEN_WHERE"
| "ends_before (STMT_INSERT i) q \<longleftrightarrow> True"

lemma symbols_start:
  "\<exists>ss. statement_symbols st = symbol (case st of STMT_INSERT _ \<Rightarrow> TOKEN_INSERT | STMT_SELECT _ \<Rightarrow> TOKEN_SELECT) # ss"
  by (cases st) auto

lemma reads_statement:
  "reads p (statement_symbols (STMT_INSERT i)) q \<longleftrightarrow>
     (\<exists>p1. reads p [symbol TOKEN_INSERT] p1 \<and> reads p1 (tl (statement_symbols (STMT_INSERT i))) q)"
  "reads p (statement_symbols (STMT_SELECT s)) q \<longleftrightarrow>
     (\<exists>p1. reads p [symbol TOKEN_SELECT] p1 \<and> reads p1 (tl (statement_symbols (STMT_SELECT s))) q)"
  using reads_Cons [of p "symbol TOKEN_INSERT" "tl (statement_symbols (STMT_INSERT i))" q]
    reads_Cons [of p "symbol TOKEN_SELECT" "tl (statement_symbols (STMT_SELECT s))" q]
  by simp_all

lemma parse_body_iff:
  "parse_body p = Inr (st, q) \<longleftrightarrow> statement_wf st \<and> reads p (statement_symbols st) q \<and> ends_before st q"
proof (cases st)
  case (STMT_INSERT i)
  then show ?thesis
    by (auto simp: parse_body_def match_bind_iff insert_iff select_iff parse_error_def reads_statement
        simp del: statement_symbols.simps)
next
  case (STMT_SELECT s)
  have "\<not> looks p TOKEN_INSERT" if "reads p [symbol TOKEN_SELECT] r" for r
    using reads_looks [OF that] by simp
  with STMT_SELECT show ?thesis
    by (auto simp: parse_body_def match_bind_iff insert_iff select_iff parse_error_def reads_statement
        simp del: statement_symbols.simps)
qed

lemma reads_statement_looks:
  "reads p (statement_symbols st) q \<Longrightarrow> \<not> looks p TOKEN_SEMICOLON \<and> \<not> looks p TOKEN_EOF"
  using symbols_start [of st] reads_looks [of p _ _ q] by (cases st) force+

lemma next_statement_iff:
  "parse_next_statement toks c = (Inr st, c') \<longleftrightarrow>
     c < length toks \<and> statement_wf st \<and>
     (\<exists>m q. reads \<lparr>tokens = toks, current = c\<rparr> (semis m @ statement_symbols st) q \<and> ends_before st q \<and>
        c' = current (snd (parser_match q TOKEN_SEMICOLON)))"
proof (cases "c < length toks")
  case True
  let ?p = "\<lparr>tokens = toks, current = c\<rparr>" and ?q = "parser_skip_semicolons \<lparr>tokens = toks, current = c\<rparr>"
  have skip: "(\<exists>m. reads ?p (semis m @ statement_symbols st) q) \<longleftrightarrow> reads ?q (statement_symbols st) q" for q
    using skip_exists [of ?p] skip_reads [of ?p] reads_statement_looks unfolding reads_append by metis
  from True have "parse_next_statement toks c = (Inr st, c') \<longleftrightarrow> \<not> looks ?q TOKEN_EOF \<and>
      (\<exists>q. parse_body ?q = Inr (st, q) \<and> c' = current (snd (parser_match q TOKEN_SEMICOLON)))"
    by (auto simp: parse_next_statement_def Let_def looks_def parse_error_def split: sum.splits)
  also have "\<dots> \<longleftrightarrow> statement_wf st \<and> (\<exists>q. reads ?q (statement_symbols st) q \<and> ends_before st q \<and>
         c' = current (snd (parser_match q TOKEN_SEMICOLON)))"
    using reads_statement_looks unfolding parse_body_iff by blast
  finally show ?thesis using True skip by blast
qed (auto simp: parse_next_statement_def parse_error_def)

section \<open>A stream of exactly one statement\<close>

lemma reads_exists: "upcoming p = ss @ r \<Longrightarrow> \<exists>q. reads p ss q \<and> upcoming q = r"
  by (intro exI [of _ "p\<lparr>current := current p + length ss\<rparr>"]) (simp add: reads_def upcoming_adv)

definition no_eof :: "token list \<Rightarrow> bool" where
  "no_eof ts \<longleftrightarrow> list_all (\<lambda>t. tok_type t \<noteq> TOKEN_EOF) ts"

lemma erase_eof [simp]: "erase EOF_TOKEN = EOF_TOKEN"
  by (simp add: erase_def EOF_TOKEN_def has_text_def symbol_def)

lemma reads_to_eof:
  assumes r: "reads \<lparr>tokens = ts @ [EOF_TOKEN], current = 0\<rparr> ss r" and "no_eof ts"
  shows "current r < Suc (length ts) \<and> tok_type ((ts @ [EOF_TOKEN]) ! current r) = TOKEN_EOF \<longleftrightarrow> ss = map erase ts"
proof -
  have u: "map erase ts @ [EOF_TOKEN] = ss @ upcoming r" "current r = length ss"
    using r by (auto simp: reads_def upcoming_def)
  have "current r = length ts" if "current r < Suc (length ts)" "tok_type ((ts @ [EOF_TOKEN]) ! current r) = TOKEN_EOF"
    using that assms(2) by (auto simp: no_eof_def list_all_length nth_append split: if_splits)
  with u have "ss = map erase ts"
    if "current r < Suc (length ts)" "tok_type ((ts @ [EOF_TOKEN]) ! current r) = TOKEN_EOF"
    using that append_eq_append_conv [of "map erase ts" ss] by simp
  moreover have "tok_type EOF_TOKEN = TOKEN_EOF" by (simp add: EOF_TOKEN_def)
  ultimately show ?thesis using u(2) by auto
qed

lemma ends_before_semis:
  assumes "reads q (semis k) r" "\<not> looks r TOKEN_WHERE"
  shows "ends_before st q"
proof -
  have "\<not> looks q TOKEN_WHERE"
  proof (cases k)
    case (Suc l)
    with assms(1) reads_looks [of q "symbol TOKEN_SEMICOLON" "semis l" r TOKEN_WHERE] show ?thesis by simp
  qed (use assms in simp)
  then show ?thesis by (cases st) auto
qed

lemma skip_cursor:
  assumes "reads \<lparr>tokens = toks, current = c\<rparr> ss q"
  shows "skip_semicolon_tokens toks (current (snd (parser_match q TOKEN_SEMICOLON))) = current (parser_skip_semicolons q)"
proof -
  have "tokens (snd (parser_match q TOKEN_SEMICOLON)) = toks"
    using assms by (auto simp: parser_match_def parser_advance_def reads_def)
  then have "\<lparr>tokens = toks, current = current (snd (parser_match q TOKEN_SEMICOLON))\<rparr> = snd (parser_match q TOKEN_SEMICOLON)"
    by (cases "snd (parser_match q TOKEN_SEMICOLON)") simp
  then show ?thesis by (simp add: skip_tokens skip_after_match)
qed

lemma at_eof:
  "reads \<lparr>tokens = toks, current = c\<rparr> ss r \<Longrightarrow> current r < length toks \<and> tok_type (toks ! current r) = TOKEN_EOF \<Longrightarrow>
   looks r TOKEN_EOF"
  by (auto simp: looks_def parser_peek_def token_at_def reads_def)

lemma statement_iff:
  assumes "no_eof ts"
  shows "parse_statement (ts @ [EOF_TOKEN]) = Inr st \<longleftrightarrow>
    statement_wf st \<and> (\<exists>m k. map erase ts = semis m @ statement_symbols st @ semis k)"
proof -
  let ?toks = "ts @ [EOF_TOKEN]" and ?p = "\<lparr>tokens = ts @ [EOF_TOKEN], current = 0\<rparr>"
  let ?fin = "\<lambda>r. current r < Suc (length ts) \<and> tok_type (?toks ! current r) = TOKEN_EOF"
  have "parse_statement ?toks = Inr st \<longleftrightarrow>
      (\<exists>c. parse_next_statement ?toks 0 = (Inr st, c) \<and>
         (let c = skip_semicolon_tokens ?toks c in c < Suc (length ts) \<and> tok_type (?toks ! c) = TOKEN_EOF))"
    by (auto simp: parse_statement_def Let_def parse_error_def not_le split: prod.splits sum.splits)
  also have "\<dots> \<longleftrightarrow> statement_wf st \<and>
      (\<exists>m q. reads ?p (semis m @ statement_symbols st) q \<and> ends_before st q \<and> ?fin (parser_skip_semicolons q))"
    unfolding next_statement_iff Let_def using skip_cursor [of ?toks 0]
    by (metis length_append_singleton zero_less_Suc)
  also have "\<dots> \<longleftrightarrow> statement_wf st \<and>
      (\<exists>m q k r. reads ?p (semis m @ statement_symbols st) q \<and> reads q (semis k) r \<and> ?fin r)"
  proof -
    have "ends_before st q \<and> parser_skip_semicolons q = r"
      if "reads ?p ss q" "reads q (semis k) r" "?fin r" for ss q k r
    proof -
      have "reads ?p (ss @ semis k) r" using that by (auto simp: reads_append)
      from at_eof [OF this] that(3) have "looks r TOKEN_EOF" by simp
      with that show ?thesis by (auto simp: skip_iff looks_def intro: ends_before_semis)
    qed
    then show ?thesis using skip_exists by blast
  qed
  also have "\<dots> \<longleftrightarrow> statement_wf st \<and> (\<exists>m k r. reads ?p (semis m @ statement_symbols st @ semis k) r \<and> ?fin r)"
    unfolding reads_append by blast
  also have "\<dots> \<longleftrightarrow> statement_wf st \<and> (\<exists>m k. map erase ts = semis m @ statement_symbols st @ semis k)"
  proof -
    have "upcoming ?p = map erase ts @ [EOF_TOKEN]" by (simp add: upcoming_def)
    then show ?thesis using reads_to_eof [OF _ assms] reads_exists [of ?p] by metis
  qed
  finally show ?thesis .
qed

section \<open>Statements and their SQL text\<close>

text \<open>The names and literals of a statement are tokens of the language.\<close>

definition sql_ok :: "statement \<Rightarrow> bool" where
  "sql_ok st \<longleftrightarrow> statement_wf st \<and>
     list_all (\<lambda>s. has_text (tok_type s) \<longrightarrow> token_ok s) (statement_symbols st)"

definition spelling :: "token_type \<Rightarrow> string" where
  "spelling ty = (case map_of (map prod.swap keyword_table) ty of Some w \<Rightarrow> w | None \<Rightarrow> [symbol_char ty])"

definition spell :: "token \<Rightarrow> token" where
  "spell s = (if has_text (tok_type s) then s else s\<lparr>tok_text := spelling (tok_type s)\<rparr>)"

definition statement_text :: "statement \<Rightarrow> string" where
  "statement_text st = print_tokens (map spell (statement_symbols st))"

lemma keyword_texts:
  "ident_text ''INSERT''" "ident_text ''INTO''" "ident_text ''VALUES''" "ident_text ''SELECT''"
  "ident_text ''FROM''" "ident_text ''WHERE''"
  by (simp_all add: ident_text_def ident_char_def ctype_defs)

lemma spell_ok: "tok_type s \<noteq> TOKEN_EOF \<Longrightarrow> \<not> has_text (tok_type s) \<Longrightarrow> token_ok (spell s)"
  by (cases "tok_type s")
    (simp_all add: has_text_def spell_def spelling_def token_ok_def symbol_char_def keyword_table_def
      keyword_texts word_type_def toupper_keywords [simplified] NUL_def)

lemma erase_spell: "erase s = s \<Longrightarrow> erase (spell s) = s"
  by (cases s) (auto simp: erase_def spell_def symbol_def)

text \<open>Every symbol of a statement is a proper symbol.\<close>

definition proper :: "token \<Rightarrow> bool" where
  "proper s \<longleftrightarrow> erase s = s \<and> tok_type s \<noteq> TOKEN_EOF"

lemma proper_symbols [simp]: "ty \<noteq> TOKEN_EOF \<Longrightarrow> \<not> has_text ty \<Longrightarrow> proper (symbol ty)" "proper (ident x)" "proper (lit v)"
  by (auto simp: proper_def erase_def symbol_def ident_def lit_def has_text_def split: value_type.split)

lemma proper_comma_list: "list_all proper xs \<Longrightarrow> list_all proper (comma_list xs)"
  by (induction xs rule: comma_list.induct) auto

lemma proper_lists [simp]:
  "list_all proper (comma_list (map ident xs))" "list_all proper (comma_list (map lit vs))"
  by (rule proper_comma_list, simp add: list_all_iff)+

lemma proper_statement: "list_all proper (statement_symbols st)"
  by (cases st) (auto simp: column_symbols_def value_symbols_def select_list_symbols_def where_symbols_def)

lemma spelled_tokens:
  assumes "sql_ok st"
  shows "list_all token_ok (map spell (statement_symbols st))" "map erase (map spell (statement_symbols st)) = statement_symbols st"
proof -
  have p: "proper x" if "x \<in> set (statement_symbols st)" for x
    using proper_statement [of st] that by (auto simp: list_all_iff)
  have "token_ok (spell x)" if x: "x \<in> set (statement_symbols st)" for x
  proof (cases "has_text (tok_type x)")
    case True
    then show ?thesis using assms x by (auto simp: sql_ok_def list_all_iff spell_def)
  next
    case False
    with p [OF x] show ?thesis by (simp add: proper_def spell_ok)
  qed
  then show "list_all token_ok (map spell (statement_symbols st))" by (simp add: list_all_iff)
  show "map erase (map spell (statement_symbols st)) = statement_symbols st"
    unfolding map_map by (rule map_idI) (simp add: erase_spell p [unfolded proper_def])
qed

lemma token_ok_no_eof: "list_all token_ok ts \<Longrightarrow> no_eof ts"
  by (auto simp: no_eof_def list_all_iff token_ok_def)

text \<open>What is read from the tokens of the lexer.\<close>

lemma lexed_symbols:
  assumes "list_all token_ok ts" "reads \<lparr>tokens = ts @ [EOF_TOKEN], current = c\<rparr> ss q"
    and "s \<in> set ss" "tok_type s \<noteq> TOKEN_EOF"
  shows "\<exists>t \<in> set ts. s = erase t \<and> token_ok t"
proof -
  have "s \<in> set (map erase (drop c (ts @ [EOF_TOKEN])))"
    using assms(2,3) by (auto simp: reads_def upcoming_def)
  then obtain t where t: "t \<in> set (ts @ [EOF_TOKEN])" "s = erase t"
    unfolding set_map by (meson imageE in_set_dropD)
  have "t \<noteq> EOF_TOKEN" using t(2) assms(4) by (auto simp: EOF_TOKEN_def)
  with t assms(1) show ?thesis by (auto simp: list_all_iff)
qed

lemma lexed_statement_ok:
  assumes "list_all token_ok ts" "parse_next_statement (ts @ [EOF_TOKEN]) c = (Inr st, c')"
  shows "sql_ok st"
proof -
  obtain m q where w: "statement_wf st"
    and r: "reads \<lparr>tokens = ts @ [EOF_TOKEN], current = c\<rparr> (semis m @ statement_symbols st) q"
    using assms(2) by (auto simp: next_statement_iff)
  have "token_ok s" if s: "s \<in> set (statement_symbols st)" "has_text (tok_type s)" for s
  proof -
    have "tok_type s \<noteq> TOKEN_EOF" using s(2) by auto
    with lexed_symbols [OF assms(1) r, of s] s(1) obtain t where "s = erase t" "token_ok t" by auto
    with s(2) show ?thesis by (auto simp: erase_def split: if_splits)
  qed
  with w show ?thesis by (simp add: sql_ok_def list_all_iff)
qed

text \<open>The cursor stays before the end of the array and moves on with every statement.\<close>

lemma reads_in_range:
  assumes "reads \<lparr>tokens = ts @ [EOF_TOKEN], current = c\<rparr> ss q" "no_eof ss" "c \<le> length ts"
  shows "current q \<le> length ts"
proof (rule ccontr)
  assume "\<not> current q \<le> length ts"
  then have "upcoming q = []" using assms(1) by (auto simp: reads_def upcoming_def)
  with assms(1) have "map erase (drop c ts) @ [EOF_TOKEN] = ss" using assms(3) by (auto simp: reads_def upcoming_def)
  then have "EOF_TOKEN \<in> set ss" by auto
  with assms(2) show False by (auto simp: no_eof_def list_all_iff EOF_TOKEN_def)
qed

lemma advance_in_range:
  "current p \<le> length ts \<Longrightarrow> tokens p = ts @ [EOF_TOKEN] \<Longrightarrow> current (parser_advance p) \<le> length ts"
  by (auto simp: parser_advance_def parser_peek_def token_at_def nth_append EOF_TOKEN_def split: if_splits)

lemma match_in_range:
  "current p \<le> length ts \<Longrightarrow> tokens p = ts @ [EOF_TOKEN] \<Longrightarrow> current (snd (parser_match p ty)) \<le> length ts"
  by (simp add: parser_match_def advance_in_range)

lemma no_eof_statement: "no_eof (semis m @ statement_symbols st)" "no_eof (semis m)"
  using proper_statement [of st] by (auto simp: no_eof_def list_all_iff proper_def)

lemma match_forward: "current p \<le> current (snd (parser_match p ty))"
  by (simp add: parser_match_def parser_advance_def)

lemma parse_cursor_in_range:
  assumes "parse_next_statement (ts @ [EOF_TOKEN]) c = (r, c')" "c \<le> length ts"
  shows "c \<le> c' \<and> c' \<le> length ts \<and> (\<forall>st. r = Inr st \<longrightarrow> c < c')"
proof (cases r)
  case (Inl e)
  let ?p = "\<lparr>tokens = ts @ [EOF_TOKEN], current = c\<rparr>"
  obtain m where "reads ?p (semis m) (parser_skip_semicolons ?p)" using skip_exists by blast
  with reads_in_range [OF this no_eof_statement(2) assms(2)]
  have "c \<le> current (parser_skip_semicolons ?p)" "current (parser_skip_semicolons ?p) \<le> length ts"
    by (auto simp: reads_def)
  moreover have "c' = c \<or> c' = current (parser_skip_semicolons ?p)"
    using assms Inl by (auto simp: parse_next_statement_def Let_def split: if_splits sum.splits)
  ultimately show ?thesis using assms(2) Inl by auto
next
  case (Inr st)
  with assms obtain m q where
    q: "reads \<lparr>tokens = ts @ [EOF_TOKEN], current = c\<rparr> (semis m @ statement_symbols st) q"
    "c' = current (snd (parser_match q TOKEN_SEMICOLON))" by (auto simp: next_statement_iff)
  from reads_in_range [OF q(1) no_eof_statement(1) assms(2)] have "current q \<le> length ts" .
  moreover have "tokens q = ts @ [EOF_TOKEN]" using q(1) by (simp add: reads_def)
  moreover have "c < current q" using q(1) symbols_start [of st] by (auto simp: reads_def)
  ultimately show ?thesis using q(2) match_in_range [of q ts] match_forward [of q TOKEN_SEMICOLON] by auto
qed

section \<open>Properties of the parser\<close>

text \<open>
  C21. On the tokens of any SQL text the parser accepts exactly the grammar: it returns a statement if
  and only if the tokens, up to the letter case of keywords, are the symbols of that statement between
  any number of semicolons.  In particular a second statement or any other trailing token is refused.
\<close>

theorem parse_statement_grammar:
  assumes "tokenize_sql sql = Inr toks"
  shows "parse_statement toks = Inr st \<longleftrightarrow>
    statement_wf st \<and> (\<exists>m k. map erase toks = semis m @ statement_symbols st @ semis k @ [EOF_TOKEN])"
proof -
  obtain ts where ts: "toks = ts @ [EOF_TOKEN]" "list_all token_ok ts"
    using tokenize_loop_ok [of "cstr sql" "[]" toks] assms by (auto simp: tokenize_sql_def)
  then show ?thesis using statement_iff [OF token_ok_no_eof, of ts] by (simp flip: append_assoc)
qed

definition demo_select :: statement where
  "demo_select = STMT_SELECT \<lparr>sel_table_name = ''users'', select_all = False, sel_columns = [''id'', ''name''],
     sel_where = \<lparr>has_condition = True, where_column = ''id'',
                   where_value = \<lparr>lit_type = VALUE_NUMBER, lit_text = ''7''\<rparr>\<rparr>\<rparr>"

theorem parse_statement_grammar_witness:
  "\<exists>toks. tokenize_sql '';select id,name FROM users where id=7;;'' = Inr toks \<and>
     parse_statement toks = Inr demo_select"
proof -
  have "case tokenize_sql '';select id,name FROM users where id=7;;'' of
      Inr t \<Rightarrow> map erase t = semis 1 @ statement_symbols demo_select @ semis 2 @ [EOF_TOKEN] | Inl _ \<Rightarrow> False"
    by code_simp
  then obtain t where t: "tokenize_sql '';select id,name FROM users where id=7;;'' = Inr t"
    "map erase t = semis 1 @ statement_symbols demo_select @ semis 2 @ [EOF_TOKEN]"
    by (auto split: sum.splits)
  have "statement_wf demo_select" by code_simp
  with parse_statement_grammar [OF t(1), of demo_select] t show ?thesis by blast
qed

text \<open>
  C22. Every statement whose names and literals are tokens of the language has an SQL text that
  tokenizes and parses back to this very statement, quotes inside string literals included.
\<close>

theorem sql_round_trip:
  assumes "sql_ok st"
  shows "\<exists>toks. tokenize_sql (statement_text st) = Inr toks \<and> parse_statement toks = Inr st"
proof (intro exI conjI)
  let ?ts = "map spell (statement_symbols st)"
  show "tokenize_sql (statement_text st) = Inr (?ts @ [EOF_TOKEN])"
    using tokenize_loop_print [OF spelled_tokens(1) [OF assms], of "[]"]
      no_nul_print_tokens [OF spelled_tokens(1) [OF assms]] by (simp add: tokenize_sql_def statement_text_def)
  have "statement_wf st" using assms by (simp add: sql_ok_def)
  then show "parse_statement (?ts @ [EOF_TOKEN]) = Inr st"
    unfolding statement_iff [OF token_ok_no_eof [OF spelled_tokens(1) [OF assms]]] spelled_tokens(2) [OF assms]
    by (intro conjI exI [of _ 0]) simp_all
qed

definition demo_quoted_insert :: statement where
  "demo_quoted_insert = STMT_INSERT \<lparr>ins_table_name = ''books'', ins_columns = [''title'', ''price''],
     ins_values = [\<lparr>lit_type = VALUE_STRING, lit_text = ''O'' @ [QUOTE] @ ''Reilly''\<rparr>,
                   \<lparr>lit_type = VALUE_NUMBER, lit_text = ''-3.14''\<rparr>]\<rparr>"

theorem sql_round_trip_witness:
  "statement_text demo_quoted_insert =
     ''INSERT INTO books ( title , price ) VALUES ( '' @ [QUOTE] @ ''O'' @ [QUOTE, QUOTE] @ ''Reilly'' @ [QUOTE] @ '' , -3.14 ) '' \<and>
   (\<exists>toks. tokenize_sql (statement_text demo_quoted_insert) = Inr toks \<and>
      parse_statement toks = Inr demo_quoted_insert)"
proof
  have "sql_ok demo_quoted_insert" by code_simp
  then show "\<exists>toks. tokenize_sql (statement_text demo_quoted_insert) = Inr toks \<and>
      parse_statement toks = Inr demo_quoted_insert" by (rule sql_round_trip)
qed code_simp

text \<open>
  C23. On the tokens of any SQL text, \<^verbatim>\<open>parse_next_statement\<close> called with a cursor inside
  the array leaves the cursor inside the array and never moves it back; after a success the cursor has
  moved on, so that repeated calls terminate, and the statement consists of well-formed names and
  literals.
\<close>

theorem parse_next_statement_progress:
  assumes "tokenize_sql sql = Inr toks" "c < length toks" "parse_next_statement toks c = (r, c')"
  shows "c \<le> c' \<and> c' < length toks \<and> (\<forall>st. r = Inr st \<longrightarrow> c < c' \<and> sql_ok st)"
proof -
  obtain ts where ts: "toks = ts @ [EOF_TOKEN]" "list_all token_ok ts"
    using tokenize_loop_ok [of "cstr sql" "[]" toks] assms(1) by (auto simp: tokenize_sql_def)
  with parse_cursor_in_range [of ts c r c'] lexed_statement_ok [OF ts(2), of c _ c'] assms(2,3) show ?thesis
    by auto
qed

theorem parse_next_statement_progress_witness:
  "case tokenize_sql ''select * from a;select * from b'' of
     Inr toks \<Rightarrow> (\<exists>st. parse_next_statement toks 0 = (Inr st, 5) \<and> sql_ok st)
   | Inl _ \<Rightarrow> False"
proof -
  have "case tokenize_sql ''select * from a;select * from b'' of
      Inr t \<Rightarrow> 0 < length t \<and> (case parse_next_statement t 0 of (Inr _, c) \<Rightarrow> c = 5 | _ \<Rightarrow> False) | Inl _ \<Rightarrow> False"
    by code_simp
  then obtain t r where t: "tokenize_sql ''select * from a;select * from b'' = Inr t" "0 < length t"
    "parse_next_statement t 0 = (Inr r, 5)"
    by (auto split: sum.splits prod.splits) (metis sumE)+
  from parse_next_statement_progress [OF t] t show ?thesis by simp
qed

end
