(* ===== verification/Storage.thy ===== *)
theory Storage
  imports Prelude
begin

text \<open>
  The row files of \<^verbatim>\<open>src/storage.c\<close>: one text line per row, fields separated by
  \<^verbatim>\<open>|\<close>, with backslash escapes.  A file system maps a path to what opening it gives; a
  file is its bytes.  Writes to a file that could be opened succeed, and memory does not run out.
\<close>

section \<open>Files\<close>

text \<open>
  What a path refers to: nothing in an existing directory, a path whose directory is missing, a
  file, a file that can be read but not written (with the \<^verbatim>\<open>strerror\<close> text of the
  refusal), something that can be opened but not read (a directory), or a path that cannot be
  opened at all.
\<close>

datatype fs_entry =
    Absent
  | MissingDir
  | File string
  | ReadOnly string string
  | Unreadable string
  | Blocked string

type_synonym fs = "string \<Rightarrow> fs_entry"

datatype opened = ENOENT | Errno string | Opened string | OpenedBad

definition strerror :: "opened \<Rightarrow> string" where
  "strerror e = (case e of Errno m \<Rightarrow> m | _ \<Rightarrow> ''No such file or directory'')"

text \<open>\<^verbatim>\<open>fopen(path, "rb")\<close>\<close>

definition fopen_rb :: "fs \<Rightarrow> string \<Rightarrow> opened" where
  "fopen_rb fs p =
     (case fs p of
        Absent \<Rightarrow> ENOENT
      | MissingDir \<Rightarrow> ENOENT
      | File b \<Rightarrow> Opened b
      | ReadOnly b m \<Rightarrow> Opened b
      | Unreadable m \<Rightarrow> OpenedBad
      | Blocked m \<Rightarrow> Errno m)"

text \<open>\<^verbatim>\<open>fopen(path, "ab")\<close> and \<^verbatim>\<open>"ab+"\<close>: creates a missing file.\<close>

definition fopen_ab :: "fs \<Rightarrow> string \<Rightarrow> opened \<times> fs" where
  "fopen_ab fs p =
     (case fs p of
        Absent \<Rightarrow> (Opened [], fs(p := File []))
      | MissingDir \<Rightarrow> (ENOENT, fs)
      | File b \<Rightarrow> (Opened b, fs)
      | ReadOnly b m \<Rightarrow> (Errno m, fs)
      | Unreadable m \<Rightarrow> (Errno m, fs)
      | Blocked m \<Rightarrow> (Errno m, fs))"

definition build_table_path :: "string \<Rightarrow> string \<Rightarrow> string \<Rightarrow> string" where
  "build_table_path db_dir table_name suffix =
     (let needs_separator = (db_dir \<noteq> [] \<and> last db_dir \<noteq> CHR ''/'' \<and> last db_dir \<noteq> CHR 0x5C)
      in db_dir @ (if needs_separator then ''/'' else []) @ table_name @ suffix)"

text \<open>
  \<^verbatim>\<open>read_line\<close> on the bytes after the file position: the line as the C string the callers
  see, and the bytes after it; \<open>None\<close> at the end of the file.
\<close>

definition strip_cr :: "string \<Rightarrow> string" where
  "strip_cr s = (if s \<noteq> [] \<and> last s = CR then butlast s else s)"

definition read_line :: "string \<Rightarrow> (string \<times> string) option" where
  "read_line bs =
     (if bs = [] then None
      else let l = takeWhile (\<lambda>c. c \<noteq> LF) bs
           in Some (cstr (strip_cr l), drop (Suc (length l)) bs))"

lemma read_line_shorter: "read_line bs = Some (l, rest) \<Longrightarrow> length rest < length bs"
  by (auto simp: read_line_def Let_def split: if_splits)

section \<open>Rows and fields\<close>

type_synonym row = "string list"

definition BACKSLASH :: char where "BACKSLASH = CHR 0x5C"
definition BAR :: char where "BAR = CHR 0x7C"

lemma special_chars [simp]:
  "BACKSLASH \<noteq> BAR" "BAR \<noteq> BACKSLASH" "BACKSLASH \<noteq> LF" "LF \<noteq> BACKSLASH" "BAR \<noteq> LF" "LF \<noteq> BAR"
  "BACKSLASH \<noteq> CHR ''n''" "CHR ''n'' \<noteq> BACKSLASH" "BAR \<noteq> CHR ''n''" "CHR ''n'' \<noteq> BAR"
  "LF \<noteq> CHR ''n''" "CHR ''n'' \<noteq> LF" "BACKSLASH \<noteq> NUL" "BAR \<noteq> NUL" "LF \<noteq> NUL" "CR \<noteq> NUL" "CR \<noteq> LF"
  "LF \<noteq> CR" "CR \<noteq> BAR" "BAR \<noteq> CR" "CR \<noteq> BACKSLASH" "BACKSLASH \<noteq> CR" "CHR ''n'' \<noteq> CR" "CHR ''n'' \<noteq> NUL"
  by (simp_all add: BACKSLASH_def BAR_def LF_def CR_def NUL_def)

fun escape_field :: "string \<Rightarrow> string" where
  "escape_field [] = []"
| "escape_field (c # s) =
     (if c = BACKSLASH then [BACKSLASH, BACKSLASH]
      else if c = BAR then [BACKSLASH, BAR]
      else if c = LF then [BACKSLASH, CHR ''n'']
      else [c]) @ escape_field s"

fun unescape_field :: "string \<Rightarrow> string option" where
  "unescape_field [] = Some []"
| "unescape_field (c # s) =
     (if c \<noteq> BACKSLASH then map_option (Cons c) (unescape_field s)
      else case s of
             [] \<Rightarrow> None
           | d # s' \<Rightarrow>
               if d = BACKSLASH then map_option (Cons BACKSLASH) (unescape_field s')
               else if d = BAR then map_option (Cons BAR) (unescape_field s')
               else if d = CHR ''n'' then map_option (Cons LF) (unescape_field s')
               else None)"

text \<open>
  The loop of \<^verbatim>\<open>split_escaped_row\<close>: the rest of the line, \<^verbatim>\<open>escape_pending\<close>,
  \<^verbatim>\<open>current_raw\<close> and the fields pushed so far.
\<close>

fun split_loop :: "string \<Rightarrow> bool \<Rightarrow> string \<Rightarrow> string list \<Rightarrow> string list option" where
  "split_loop [] escape_pending current_raw fields =
     (if escape_pending then None
      else case unescape_field current_raw of
             None \<Rightarrow> None
           | Some field_value \<Rightarrow> Some (fields @ [field_value]))"
| "split_loop (c # cs) escape_pending current_raw fields =
     (if escape_pending then split_loop cs False (current_raw @ [c]) fields
      else if c = BACKSLASH then split_loop cs True (current_raw @ [c]) fields
      else if c = BAR then
        (case unescape_field current_raw of
           None \<Rightarrow> None
         | Some field_value \<Rightarrow> split_loop cs False [] (fields @ [field_value]))
      else split_loop cs False (current_raw @ [c]) fields)"

definition split_escaped_row :: "string \<Rightarrow> string list option" where
  "split_escaped_row line = split_loop line False [] []"

definition normalize_field_count :: "string list \<Rightarrow> nat \<Rightarrow> string list" where
  "normalize_field_count fields expected_count =
     (if length fields = expected_count then fields
      else if expected_count < length fields then take expected_count fields
      else fields @ replicate (expected_count - length fields) [])"

definition parse_line_into_row :: "string \<Rightarrow> nat \<Rightarrow> row option" where
  "parse_line_into_row line expected_column_count =
     (case split_escaped_row line of
        None \<Rightarrow> None
      | Some fields \<Rightarrow> Some (normalize_field_count fields expected_column_count))"

section \<open>Table files\<close>

definition data_path :: "string \<Rightarrow> string \<Rightarrow> string" where
  "data_path db_dir table_name = build_table_path db_dir table_name ''.data''"

definition ensure_table_data_file :: "string \<Rightarrow> string \<Rightarrow> fs \<Rightarrow> unit result \<times> fs" where
  "ensure_table_data_file db_dir table_name fs =
     (case fopen_ab fs (data_path db_dir table_name) of
        (Opened b, fs') \<Rightarrow> (Inr (), fs')
      | (e, fs') \<Rightarrow>
          (fail STATUS_STORAGE_ERROR
             (''failed to open data file '' @ quoted (data_path db_dir table_name) @ '': '' @ strerror e),
           fs'))"

text \<open>The bytes of one row: the escaped fields joined by bars, and the newline.\<close>

fun join_fields :: "string list \<Rightarrow> string" where
  "join_fields [] = []"
| "join_fields [v] = escape_field v"
| "join_fields (v # vs) = escape_field v @ [BAR] @ join_fields vs"

definition row_line :: "row \<Rightarrow> string" where
  "row_line row = join_fields row @ [LF]"

definition append_row_to_table_with_offset ::
  "string \<Rightarrow> string \<Rightarrow> row \<Rightarrow> fs \<Rightarrow> int result \<times> fs" where
  "append_row_to_table_with_offset db_dir table_name row fs =
     (if row = [] then
        (fail STATUS_STORAGE_ERROR (''cannot append an empty row to table '' @ quoted table_name), fs)
      else case ensure_table_data_file db_dir table_name fs of
             (Inl e, fs1) \<Rightarrow> (Inl e, fs1)
           | (Inr u, fs1) \<Rightarrow>
               (case fopen_ab fs1 (data_path db_dir table_name) of
                  (Opened bs, fs2) \<Rightarrow>
                    (Inr (int (length bs)), fs2(data_path db_dir table_name := File (bs @ row_line row)))
                | (e, fs2) \<Rightarrow>
                    (fail STATUS_STORAGE_ERROR
                       (''failed to append data file '' @ quoted (data_path db_dir table_name) @ '': '' @
                        strerror e), fs2)))"

definition append_row_to_table :: "string \<Rightarrow> string \<Rightarrow> row \<Rightarrow> fs \<Rightarrow> unit result \<times> fs" where
  "append_row_to_table db_dir table_name row fs =
     (case append_row_to_table_with_offset db_dir table_name row fs of
        (Inl e, fs') \<Rightarrow> (Inl e, fs')
      | (Inr off, fs') \<Rightarrow> (Inr (), fs'))"

text \<open>
  A scan callback returns 0 (continue), 1 (stop) or -1 (fail, with the message it left in
  \<^verbatim>\<open>errbuf\<close>), and changes its \<^verbatim>\<open>user_data\<close>.
\<close>

datatype callback_status = Continue | Stop | Abort string

type_synonym 's callback = "row \<Rightarrow> int \<Rightarrow> 's \<Rightarrow> callback_status \<times> 's"

text \<open>The loop of \<^verbatim>\<open>scan_table_rows_with_offsets\<close> on the bytes from \<open>row_offset\<close> on.\<close>

function scan_loop :: "string \<Rightarrow> nat \<Rightarrow> 's callback \<Rightarrow> string \<Rightarrow> int \<Rightarrow> nat \<Rightarrow> 's \<Rightarrow> unit result \<times> 's" where
  "scan_loop table_name n callback bs row_offset line_number s =
     (case read_line bs of
        None \<Rightarrow> (Inr (), s)
      | Some (line, rest) \<Rightarrow>
          (case parse_line_into_row line n of
             None \<Rightarrow>
               (fail STATUS_STORAGE_ERROR
                  (''malformed row '' @ print_nat (line_number + 1) @ '' in table '' @ quoted table_name), s)
           | Some row \<Rightarrow>
               (case callback row row_offset s of
                  (Stop, s') \<Rightarrow> (Inr (), s')
                | (Abort m, s') \<Rightarrow>
                    (fail STATUS_STORAGE_ERROR
                       (if m = [] then ''row scan callback failed for table '' @ quoted table_name
                        else m), s')
                | (Continue, s') \<Rightarrow>
                    scan_loop table_name n callback rest
                      (row_offset + int (length bs - length rest)) (line_number + 1) s')))"
  by pat_completeness auto
termination
  by (relation "measure (\<lambda>(_, _, _, bs, _). length bs)") (auto dest: read_line_shorter)

declare scan_loop.simps [simp del]

definition scan_table_rows_with_offsets ::
  "fs \<Rightarrow> string \<Rightarrow> string \<Rightarrow> nat \<Rightarrow> 's callback \<Rightarrow> 's \<Rightarrow> unit result \<times> 's" where
  "scan_table_rows_with_offsets fs db_dir table_name expected_column_count callback user_data =
     (case fopen_rb fs (data_path db_dir table_name) of
        ENOENT \<Rightarrow> (Inr (), user_data)
      | Errno m \<Rightarrow>
          (fail STATUS_STORAGE_ERROR
             (''failed to open data file '' @ quoted (data_path db_dir table_name) @ '': '' @ m), user_data)
      | OpenedBad \<Rightarrow>
          (fail STATUS_STORAGE_ERROR
             (''failed to read data file '' @ quoted (data_path db_dir table_name)), user_data)
      | Opened bs \<Rightarrow> scan_loop table_name expected_column_count callback bs 0 0 user_data)"

text \<open>
  \<^verbatim>\<open>fseek\<close> beyond the end of the file succeeds and the next read meets the end of the
  file, which is \<open>drop\<close>.
\<close>

definition read_row_at_offset :: "fs \<Rightarrow> string \<Rightarrow> string \<Rightarrow> int \<Rightarrow> nat \<Rightarrow> row result" where
  "read_row_at_offset fs db_dir table_name row_offset expected_column_count =
     (if row_offset < 0 then fail STATUS_STORAGE_ERROR ''invalid row offset read arguments''
      else case fopen_rb fs (data_path db_dir table_name) of
             OpenedBad \<Rightarrow>
               fail STATUS_STORAGE_ERROR
                 (''failed to read row at offset '' @ print_int row_offset @ '' in '' @
                  quoted (data_path db_dir table_name))
           | Opened bs \<Rightarrow>
               (case read_line (drop (nat row_offset) bs) of
                  None \<Rightarrow>
                    fail STATUS_STORAGE_ERROR
                      (''failed to read row at offset '' @ print_int row_offset @ '' in '' @
                       quoted (data_path db_dir table_name))
                | Some (line, rest) \<Rightarrow>
                    (case parse_line_into_row line expected_column_count of
                       None \<Rightarrow>
                         fail STATUS_STORAGE_ERROR
                           (''malformed row at offset '' @ print_int row_offset @ '' in table '' @
                            quoted table_name)
                     | Some row \<Rightarrow> Inr row))
           | e \<Rightarrow>
               fail STATUS_STORAGE_ERROR
                 (''failed to open data file '' @ quoted (data_path db_dir table_name) @ '': '' @ strerror e))"

definition read_all_rows_callback :: "row list callback" where
  "read_all_rows_callback row row_offset rows = (Continue, rows @ [row])"

definition read_all_rows_from_table :: "fs \<Rightarrow> string \<Rightarrow> string \<Rightarrow> nat \<Rightarrow> row list result" where
  "read_all_rows_from_table fs db_dir table_name expected_column_count =
     (case scan_table_rows_with_offsets fs db_dir table_name expected_column_count
             read_all_rows_callback [] of
        (Inl e, rows) \<Rightarrow> Inl e
      | (Inr u, rows) \<Rightarrow> Inr rows)"

section \<open>Fields round-trip\<close>

lemma escape_unescape [simp]: "unescape_field (escape_field s) = Some s"
  by (induction s) auto

lemma escape_no_LF: "LF \<notin> set (escape_field s)"
  by (induction s) auto

lemma escape_append: "escape_field (s @ t) = escape_field s @ escape_field t"
  by (induction s) auto

lemma no_nul_escape [simp]: "no_nul (escape_field s) \<longleftrightarrow> no_nul s"
  by (induction s) auto

lemma split_loop_escape:
  "split_loop (escape_field v @ cs) False raw fields = split_loop cs False (raw @ escape_field v) fields"
  by (induction v arbitrary: raw) simp_all

lemma split_join:
  "row \<noteq> [] \<Longrightarrow> split_loop (join_fields row) False [] fields = Some (fields @ row)"
proof (induction row arbitrary: fields rule: join_fields.induct)
  case (2 v)
  show ?case using split_loop_escape [of v "[]"] by simp
next
  case (3 v w ws)
  then show ?case using split_loop_escape [of v "BAR # join_fields (w # ws)"] by simp
qed simp

section \<open>Rows round-trip\<close>

text \<open>
  What reading a stored row gives: \<^verbatim>\<open>escape_field\<close> leaves a carriage return as it is
  and \<^verbatim>\<open>read_line\<close> drops one at the end of the line, so a last field ending in it
  loses it; every other field comes back.
\<close>

definition stored_row :: "row \<Rightarrow> row" where
  "stored_row row = (if row = [] then [] else butlast row @ [strip_cr (last row)])"

definition storable :: "nat \<Rightarrow> row \<Rightarrow> bool" where
  "storable n row \<longleftrightarrow> 0 < n \<and> length row = n \<and> list_all no_nul row"

lemma strip_cr_escape: "strip_cr (escape_field s) = escape_field (strip_cr s)"
proof (cases s rule: rev_exhaust)
  case (snoc t c)
  then show ?thesis by (simp add: strip_cr_def escape_append)
qed (simp add: strip_cr_def)

lemma strip_cr_append: "t \<noteq> [] \<Longrightarrow> strip_cr (s @ t) = s @ strip_cr t"
  by (simp add: strip_cr_def butlast_append)

lemma strip_cr_bar: "strip_cr (s @ BAR # t) = s @ BAR # strip_cr t"
  by (cases t rule: rev_cases) (simp_all add: strip_cr_def butlast_append)

lemma strip_cr_join: "strip_cr (join_fields row) = join_fields (stored_row row)"
proof (induction row rule: join_fields.induct)
  case (3 v w ws)
  have "stored_row (v # w # ws) = v # stored_row (w # ws)" by (simp add: stored_row_def)
  moreover obtain x xs where "stored_row (w # ws) = x # xs"
    by (cases "stored_row (w # ws)") (auto simp: stored_row_def)
  ultimately show ?case using 3 by (simp add: strip_cr_bar)
qed (simp_all add: strip_cr_escape stored_row_def, simp add: strip_cr_def)

lemma join_no_LF: "LF \<notin> set (join_fields row)"
  by (induction row rule: join_fields.induct) (auto simp: escape_no_LF)

lemma join_no_nul: "list_all no_nul row \<Longrightarrow> no_nul (join_fields row)"
  by (induction row rule: join_fields.induct) auto

lemma length_stored_row [simp]: "length (stored_row row) = length row"
  by (cases row rule: rev_cases) (simp_all add: stored_row_def)

lemma no_nul_strip_cr: "no_nul s \<Longrightarrow> no_nul (strip_cr s)"
  by (cases s rule: rev_cases) (auto simp: strip_cr_def)

lemma storable_stored [simp]: "storable n row \<Longrightarrow> storable n (stored_row row)"
  by (cases row rule: rev_cases) (auto simp: storable_def stored_row_def no_nul_strip_cr)

lemma stored_row_same: "row \<noteq> [] \<Longrightarrow> last row = [] \<or> last (last row) \<noteq> CR \<Longrightarrow> stored_row row = row"
  by (auto simp: stored_row_def strip_cr_def)

lemma read_line_row:
  assumes "storable n row"
  shows "read_line (row_line row @ bs) = Some (join_fields (stored_row row), bs)"
proof -
  have "takeWhile (\<lambda>c. c \<noteq> LF) (row_line row @ bs) = join_fields row"
    using join_no_LF [of row] by (auto simp: row_line_def takeWhile_tail takeWhile_eq_all_conv)
  moreover have "cstr (strip_cr (join_fields row)) = join_fields (stored_row row)"
    using storable_stored [OF assms] join_no_nul by (simp add: strip_cr_join storable_def)
  ultimately show ?thesis by (simp add: read_line_def row_line_def)
qed

lemma parse_joined: "storable n row \<Longrightarrow> parse_line_into_row (join_fields row) n = Some row"
  using split_join [of row "[]"]
  by (auto simp: parse_line_into_row_def split_escaped_row_def storable_def normalize_field_count_def)

section \<open>The rows of a data file\<close>

text \<open>
  The rows of a file as a scan delivers them, each with its offset; \<open>None\<close> when a line is
  malformed.  This is the abstraction of a data file that the other components work with.
\<close>

function file_rows :: "nat \<Rightarrow> string \<Rightarrow> int \<Rightarrow> (row \<times> int) list option" where
  "file_rows n bs off =
     (case read_line bs of
        None \<Rightarrow> Some []
      | Some (line, rest) \<Rightarrow>
          (case parse_line_into_row line n of
             None \<Rightarrow> None
           | Some row \<Rightarrow>
               map_option (Cons (row, off)) (file_rows n rest (off + int (length bs - length rest)))))"
  by pat_completeness auto
termination
  by (relation "measure (\<lambda>(_, bs, _). length bs)") (auto dest: read_line_shorter)

declare file_rows.simps [simp del]

lemma file_rows_Nil [simp]: "file_rows n [] off = Some []"
  by (subst file_rows.simps) (simp add: read_line_def)

lemma read_line_Nil_iff: "read_line bs = None \<longleftrightarrow> bs = []"
  by (simp add: read_line_def Let_def)

text \<open>One step of the scan, as a case distinction.\<close>

lemma file_rows_cases:
  assumes "file_rows n bs off = Some rs"
  obtains (End) "bs = []" "rs = []"
  | (Line) line rest row rs' where "read_line bs = Some (line, rest)" "length rest < length bs"
      "parse_line_into_row line n = Some row" "rs = (row, off) # rs'"
      "file_rows n rest (off + int (length bs - length rest)) = Some rs'"
proof (cases "read_line bs")
  case None
  with assms that(1) show thesis by (simp add: file_rows.simps [of n bs] read_line_Nil_iff)
next
  case (Some p)
  obtain line rest where p: "p = (line, rest)" by (cases p)
  with assms Some obtain row rs' where "parse_line_into_row line n = Some row"
    "file_rows n rest (off + int (length bs - length rest)) = Some rs'" "rs = (row, off) # rs'"
    by (auto simp: file_rows.simps [of n bs] split: option.splits)
  with Some p that(2) read_line_shorter show thesis by blast
qed

text \<open>Running a callback over a list of rows with offsets.\<close>

fun run_callback :: "string \<Rightarrow> 's callback \<Rightarrow> (row \<times> int) list \<Rightarrow> 's \<Rightarrow> unit result \<times> 's" where
  "run_callback table_name callback [] s = (Inr (), s)"
| "run_callback table_name callback ((row, off) # rows) s =
     (case callback row off s of
        (Stop, s') \<Rightarrow> (Inr (), s')
      | (Abort m, s') \<Rightarrow>
          (fail STATUS_STORAGE_ERROR
             (if m = [] then ''row scan callback failed for table '' @ quoted table_name else m), s')
      | (Continue, s') \<Rightarrow> run_callback table_name callback rows s')"

lemma scan_loop_rows:
  "file_rows n bs off = Some rs \<Longrightarrow>
   scan_loop table_name n callback bs off ln s = run_callback table_name callback rs s"
proof (induction n bs off arbitrary: rs ln s rule: file_rows.induct)
  case (1 n bs off)
  from "1.prems" show ?case
  proof (cases rule: file_rows_cases)
    case End
    then show ?thesis by (subst scan_loop.simps) (simp add: read_line_def)
  next
    case (Line line rest row rs')
    with "1.IH" [OF Line(1) refl Line(3,5)] show ?thesis
      by (subst scan_loop.simps) (simp split: callback_status.split prod.split)
  qed
qed

lemma file_rows_offsets:
  "file_rows n bs off = Some rs \<Longrightarrow> sorted_wrt (<) (map snd rs) \<and> (\<forall>o' \<in> snd ` set rs. off \<le> o')"
proof (induction n bs off arbitrary: rs rule: file_rows.induct)
  case (1 n bs off)
  from "1.prems" show ?case
  proof (cases rule: file_rows_cases)
    case (Line line rest row rs')
    with "1.IH" [OF Line(1) refl Line(3,5)] show ?thesis by fastforce
  qed simp
qed

text \<open>The rest of a read line is a suffix of the bytes.\<close>

lemma read_line_rest:
  assumes "read_line bs = Some (line, rest)"
  shows "rest = drop (length bs - length rest) bs"
proof -
  obtain k where "rest = drop k bs" using assms by (auto simp: read_line_def Let_def split: if_splits)
  then show ?thesis by (cases "k \<le> length bs") simp_all
qed

lemma file_rows_read:
  "file_rows n bs off = Some rs \<Longrightarrow> (row, o') \<in> set rs \<Longrightarrow>
   off \<le> o' \<and> (\<exists>line rest. read_line (drop (nat (o' - off)) bs) = Some (line, rest) \<and>
                    parse_line_into_row line n = Some row)"
proof (induction n bs off arbitrary: rs rule: file_rows.induct)
  case (1 n bs off)
  from "1.prems"(1) show ?case
  proof (cases rule: file_rows_cases)
    case End
    with "1.prems" show ?thesis by simp
  next
    case (Line line rest r rs')
    let ?k = "length bs - length rest"
    show ?thesis
    proof (cases "(row, o') = (r, off)")
      case True
      with Line show ?thesis by simp
    next
      case False
      with "1.prems"(2) Line(4) have "(row, o') \<in> set rs'" by auto
      from "1.IH" [OF Line(1) refl Line(3,5) this]
      obtain line' rest' where *: "off + int ?k \<le> o'"
        "read_line (drop (nat (o' - (off + int ?k))) rest) = Some (line', rest')"
        "parse_line_into_row line' n = Some row" by blast
      define m where "m = nat (o' - (off + int ?k))"
      have "nat (o' - off) = m + ?k" using *(1) unfolding m_def by linarith
      then have "drop m rest = drop (nat (o' - off)) bs"
        using read_line_rest [OF Line(1)] by (metis drop_drop)
      with * have "off \<le> o'" "read_line (drop (nat (o' - off)) bs) = Some (line', rest')"
        by (simp_all add: m_def)
      with *(3) show ?thesis by blast
    qed
  qed
qed

section \<open>Appending to a data file\<close>

text \<open>A file that is empty or ends with a newline: what \<^verbatim>\<open>append_row_to_table\<close> leaves behind.\<close>

definition terminated :: "string \<Rightarrow> bool" where
  "terminated bs \<longleftrightarrow> bs = [] \<or> last bs = LF"

lemma terminated_append_row [simp]: "terminated (bs @ row_line row)"
  by (simp add: terminated_def row_line_def)

lemma read_line_append:
  assumes "bs \<noteq> []" "terminated bs" "read_line bs = Some (line, rest)"
  shows "read_line (bs @ x) = Some (line, rest @ x)" "terminated rest"
proof -
  have "LF \<in> set bs" using assms(1,2) by (metis terminated_def last_in_set)
  then obtain ys zs where bs: "bs = ys @ LF # zs" "LF \<notin> set ys" by (metis split_list_first)
  have tw: "takeWhile (\<lambda>c. c \<noteq> LF) (ys @ LF # w) = ys" for w
    using bs(2) by (auto simp: takeWhile_tail takeWhile_eq_all_conv)
  have lr: "line = cstr (strip_cr ys)" "rest = zs"
    using assms(3) by (simp_all add: read_line_def bs(1) tw)
  then show "read_line (bs @ x) = Some (line, rest @ x)"
    by (simp add: read_line_def bs(1) tw)
  show "terminated rest" using assms(2) bs(1) lr(2) by (auto simp: terminated_def split: if_splits)
qed

lemma file_rows_append:
  "file_rows n bs off = Some rs \<Longrightarrow> terminated bs \<Longrightarrow> storable n row \<Longrightarrow>
    file_rows n (bs @ row_line row) off = Some (rs @ [(stored_row row, off + int (length bs))])"
proof (induction n bs off arbitrary: rs rule: file_rows.induct)
  case (1 n bs off)
  from "1.prems"(1) show ?case
  proof (cases rule: file_rows_cases)
    case End
    have "read_line (row_line row) = Some (join_fields (stored_row row), [])"
      using read_line_row [OF "1.prems"(3), of "[]"] by simp
    moreover have "parse_line_into_row (join_fields (stored_row row)) n = Some (stored_row row)"
      using "1.prems"(3) by (intro parse_joined) simp
    ultimately show ?thesis using End by (subst file_rows.simps) simp
  next
    case (Line line rest r rs')
    have ne: "bs \<noteq> []" using Line(2) by auto
    note A = read_line_append [OF ne "1.prems"(2) Line(1)]
    have "file_rows n (rest @ row_line row) (off + int (length bs - length rest)) =
        Some (rs' @ [(stored_row row, off + int (length bs - length rest) + int (length rest))])"
      by (rule "1.IH" [OF Line(1) refl Line(3,5) A(2) "1.prems"(3)])
    with A(1) [of "row_line row"] Line(2,3,4) show ?thesis
      by (subst file_rows.simps) (simp add: of_nat_diff)
  qed
qed

text \<open>
  \<open>table_rows fs db_dir t n rs\<close>: the data file of table \<open>t\<close> is readable and writable,
  ends with a newline and holds the rows \<open>rs\<close>; a missing file is an empty table.
\<close>

definition table_rows :: "fs \<Rightarrow> string \<Rightarrow> string \<Rightarrow> nat \<Rightarrow> (row \<times> int) list \<Rightarrow> bool" where
  "table_rows fs db_dir table_name n rs \<longleftrightarrow>
     (case fs (data_path db_dir table_name) of
        Absent \<Rightarrow> rs = []
      | File bs \<Rightarrow> file_rows n bs 0 = Some rs \<and> terminated bs
      | _ \<Rightarrow> False)"

lemma table_rows_cong:
  "fs' (data_path db_dir t) = fs (data_path db_dir t) \<Longrightarrow>
   table_rows fs' db_dir t n rs \<longleftrightarrow> table_rows fs db_dir t n rs"
  by (simp add: table_rows_def)

lemma table_rows_unique:
  "table_rows fs db_dir t n rs \<Longrightarrow> table_rows fs db_dir t n rs' \<Longrightarrow> rs = rs'"
  by (auto simp: table_rows_def split: fs_entry.splits)

lemma scan_table:
  assumes "table_rows fs db_dir table_name n rs"
  shows "scan_table_rows_with_offsets fs db_dir table_name n callback s =
           run_callback table_name callback rs s"
  using assms scan_loop_rows [of n _ 0 rs]
  by (auto simp: table_rows_def scan_table_rows_with_offsets_def fopen_rb_def split: fs_entry.splits)

lemma run_read_all: "run_callback table_name read_all_rows_callback rs acc = (Inr (), acc @ map fst rs)"
proof (induction rs arbitrary: acc)
  case (Cons r rs)
  then show ?case by (cases r) (simp add: read_all_rows_callback_def)
qed simp

lemma read_all_table:
  "table_rows fs db_dir table_name n rs \<Longrightarrow>
   read_all_rows_from_table fs db_dir table_name n = Inr (map fst rs)"
  by (simp add: read_all_rows_from_table_def scan_table run_read_all)

lemma read_row_table:
  assumes "table_rows fs db_dir table_name n rs" "(row, off) \<in> set rs"
  shows "read_row_at_offset fs db_dir table_name off n = Inr row"
proof -
  obtain bs where bs: "fs (data_path db_dir table_name) = File bs" "file_rows n bs 0 = Some rs"
    using assms by (auto simp: table_rows_def split: fs_entry.splits)
  with file_rows_read [OF bs(2) assms(2)] show ?thesis
    by (auto simp: read_row_at_offset_def fopen_rb_def)
qed

lemma table_rows_offsets: "table_rows fs db_dir table_name n rs \<Longrightarrow> sorted_wrt (<) (map snd rs)"
  using file_rows_offsets by (auto simp: table_rows_def split: fs_entry.splits)

lemma ensure_table:
  assumes "table_rows fs db_dir t n rs"
  shows "\<exists>fs'. ensure_table_data_file db_dir t fs = (Inr (), fs') \<and> table_rows fs' db_dir t n rs \<and>
           (\<forall>p. p \<noteq> data_path db_dir t \<longrightarrow> fs' p = fs p)"
  using assms
  by (auto simp: table_rows_def ensure_table_data_file_def fopen_ab_def terminated_def split: fs_entry.splits)

lemma append_table:
  assumes "table_rows fs db_dir t n rs" "storable n row"
  shows "\<exists>off fs'. append_row_to_table_with_offset db_dir t row fs = (Inr off, fs') \<and>
           table_rows fs' db_dir t n (rs @ [(stored_row row, off)]) \<and> off \<notin> snd ` set rs \<and>
           (\<forall>p. p \<noteq> data_path db_dir t \<longrightarrow> fs' p = fs p)"
proof -
  define bs where "bs = (case fs (data_path db_dir t) of File bs \<Rightarrow> bs | _ \<Rightarrow> [])"
  have bs: "file_rows n bs 0 = Some rs" "terminated bs"
    using assms(1) by (auto simp: table_rows_def bs_def terminated_def split: fs_entry.splits)
  define fs' where "fs' = fs(data_path db_dir t := File (bs @ row_line row))"
  have ne: "row \<noteq> []" using assms(2) by (auto simp: storable_def)
  have "append_row_to_table_with_offset db_dir t row fs = (Inr (int (length bs)), fs')"
    using assms(1) ne
    by (auto simp: table_rows_def append_row_to_table_with_offset_def ensure_table_data_file_def
          fopen_ab_def bs_def fs'_def split: fs_entry.splits)
  moreover have new: "file_rows n (bs @ row_line row) 0 = Some (rs @ [(stored_row row, int (length bs))])"
    using file_rows_append [OF bs assms(2)] by simp
  then have "table_rows fs' db_dir t n (rs @ [(stored_row row, int (length bs))])"
    by (simp add: table_rows_def fs'_def)
  moreover have "int (length bs) \<notin> snd ` set rs"
    using file_rows_offsets [OF new] by (force simp: sorted_wrt_append)
  ultimately show ?thesis by (auto simp: fs'_def)
qed

section \<open>What a data file promises\<close>

text \<open>
  The contract of a row file: \<open>holds\<close> says which rows it has at which offsets, a row that
  \<open>fits\<close> can be appended and is then held in its \<open>stored\<close> form, and \<open>frame\<close>
  says what an append leaves alone.
\<close>

locale row_store =
  fixes holds :: "'s \<Rightarrow> ('r \<times> int) list \<Rightarrow> bool"
    and append_row :: "'r \<Rightarrow> 's \<Rightarrow> int result \<times> 's"
    and read_at :: "'s \<Rightarrow> int \<Rightarrow> 'r result"
    and read_all :: "'s \<Rightarrow> 'r list result"
    and fits :: "'r \<Rightarrow> bool"
    and stored :: "'r \<Rightarrow> 'r"
    and frame :: "'s \<Rightarrow> 's \<Rightarrow> bool"
  assumes read_at_spec: "holds s rs \<Longrightarrow> (r, off) \<in> set rs \<Longrightarrow> read_at s off = Inr r"
    and read_all_spec: "holds s rs \<Longrightarrow> read_all s = Inr (map fst rs)"
    and append_spec: "holds s rs \<Longrightarrow> fits r \<Longrightarrow>
      \<exists>off s'. append_row r s = (Inr off, s') \<and> holds s' (rs @ [(stored r, off)]) \<and> off \<notin> snd ` set rs \<and> frame s s'"
begin

lemma append_reads:
  assumes "holds s rs" "fits r"
  shows "\<exists>off s'. append_row r s = (Inr off, s') \<and> holds s' (rs @ [(stored r, off)]) \<and>
    read_at s' off = Inr (stored r) \<and> read_all s = Inr (map fst rs) \<and> read_all s' = Inr (map fst rs @ [stored r]) \<and>
    (\<forall>(r', off') \<in> set rs. off' \<noteq> off \<and> read_at s off' = Inr r' \<and> read_at s' off' = Inr r')"
proof -
  obtain off s' where a: "append_row r s = (Inr off, s')" "holds s' (rs @ [(stored r, off)])" "off \<notin> snd ` set rs"
    using append_spec [OF assms] by blast
  have "off' \<noteq> off \<and> read_at s off' = Inr r' \<and> read_at s' off' = Inr r'" if "(r', off') \<in> set rs" for r' off'
    using that a(3) read_at_spec [OF assms(1) that] read_at_spec [OF a(2), of r' off'] by force
  then show ?thesis
    using a read_at_spec [OF a(2), of "stored r" off] read_all_spec [OF assms(1)] read_all_spec [OF a(2)] by auto
qed

end

interpretation data_file: row_store "\<lambda>fs. table_rows fs db_dir t n" "append_row_to_table_with_offset db_dir t"
  "\<lambda>fs off. read_row_at_offset fs db_dir t off n" "\<lambda>fs. read_all_rows_from_table fs db_dir t n" "storable n" stored_row
  "\<lambda>fs fs'. \<forall>p. p \<noteq> data_path db_dir t \<longrightarrow> fs' p = fs p"
  for db_dir t n
  by unfold_locales (rule read_row_table, assumption+, erule read_all_table, rule append_table)

text \<open>Whether a file is well formed does not depend on the number of columns.\<close>

definition data_file_ok :: "fs \<Rightarrow> string \<Rightarrow> string \<Rightarrow> bool" where
  "data_file_ok fs db_dir table_name \<longleftrightarrow>
     (case fs (data_path db_dir table_name) of
        Absent \<Rightarrow> True
      | File bs \<Rightarrow> file_rows 0 bs 0 \<noteq> None \<and> terminated bs
      | _ \<Rightarrow> False)"

lemma file_rows_any_count: "file_rows n bs off = None \<longleftrightarrow> file_rows m bs off = None"
proof (induction n bs off rule: file_rows.induct)
  case (1 n bs off)
  show ?case
  proof (cases "read_line bs")
    case (Some p)
    obtain line rest where p: "p = (line, rest)" by (cases p)
    show ?thesis
    proof (cases "split_escaped_row line")
      case None
      with Some p show ?thesis
        by (simp add: file_rows.simps [of n bs] file_rows.simps [of m bs] parse_line_into_row_def)
    next
      case (Some fields)
      with "1.IH" [OF \<open>read_line bs = Some p\<close> [unfolded p] refl, of "normalize_field_count fields n"]
        \<open>read_line bs = Some p\<close> p show ?thesis
        by (simp add: file_rows.simps [of n bs] file_rows.simps [of m bs] parse_line_into_row_def)
    qed
  qed (simp add: file_rows.simps [of n bs] file_rows.simps [of m bs])
qed

lemma data_file_ok_rows: "data_file_ok fs db_dir t \<longleftrightarrow> (\<exists>rs. table_rows fs db_dir t n rs)"
  using file_rows_any_count [of n _ 0 0]
  by (cases "fs (data_path db_dir t)")
    (simp_all add: data_file_ok_def table_rows_def, metis not_None_eq)

lemma data_path_inj: "data_path db_dir t = data_path db_dir t' \<longleftrightarrow> t = t'"
  by (simp add: data_path_def build_table_path_def Let_def)

section \<open>Properties\<close>

text \<open>
  C13. Appending a row to a well-formed data file (or to a missing one) succeeds and reports a new
  offset at which the row can be read back; every earlier row is still read at its own offset, a scan
  of the file gives the old rows followed by the new one, and the file stays well formed.
\<close>

theorem append_then_read:
  assumes "data_file_ok fs db_dir table_name" "storable n row"
  shows "\<exists>off fs' rs. append_row_to_table_with_offset db_dir table_name row fs = (Inr off, fs') \<and>
    read_row_at_offset fs' db_dir table_name off n = Inr (stored_row row) \<and>
    read_all_rows_from_table fs db_dir table_name n = Inr (map fst rs) \<and>
    read_all_rows_from_table fs' db_dir table_name n = Inr (map fst rs @ [stored_row row]) \<and>
    (\<forall>(r, off') \<in> set rs. off' \<noteq> off \<and> read_row_at_offset fs db_dir table_name off' n = Inr r \<and>
       read_row_at_offset fs' db_dir table_name off' n = Inr r) \<and>
    data_file_ok fs' db_dir table_name"
proof -
  obtain rs where rs: "table_rows fs db_dir table_name n rs" using assms(1) data_file_ok_rows by blast
  from data_file.append_reads [OF rs assms(2)] obtain off fs' where
    a: "append_row_to_table_with_offset db_dir table_name row fs = (Inr off, fs')"
      "table_rows fs' db_dir table_name n (rs @ [(stored_row row, off)])"
    and r: "read_row_at_offset fs' db_dir table_name off n = Inr (stored_row row) \<and>
      read_all_rows_from_table fs db_dir table_name n = Inr (map fst rs) \<and>
      read_all_rows_from_table fs' db_dir table_name n = Inr (map fst rs @ [stored_row row]) \<and>
      (\<forall>(r, off') \<in> set rs. off' \<noteq> off \<and> read_row_at_offset fs db_dir table_name off' n = Inr r \<and>
         read_row_at_offset fs' db_dir table_name off' n = Inr r)" by blast
  have "data_file_ok fs' db_dir table_name" using a(2) data_file_ok_rows by blast
  with a(1) r show ?thesis by (intro exI [of _ off] exI [of _ fs'] exI [of _ rs]) simp
qed

theorem append_then_read_witness:
  "\<exists>off fs'. append_row_to_table_with_offset ''db'' ''t'' [''a|b'', ''c''] (\<lambda>_. Absent) = (Inr off, fs') \<and>
     read_row_at_offset fs' ''db'' ''t'' off 2 = Inr [''a|b'', ''c'']"
proof -
  have "data_file_ok (\<lambda>_. Absent) ''db'' ''t''" by (simp add: data_file_ok_def)
  moreover have "storable 2 [''a|b'', ''c'']" by code_simp
  moreover have "stored_row [''a|b'', ''c''] = [''a|b'', ''c'']" by code_simp
  ultimately show ?thesis using append_then_read [of "\<lambda>_. Absent" "''db''" "''t''" 2 "[''a|b'', ''c'']"] by auto
qed

text \<open>
  C14. The line written for a row is read back as the same fields, whatever bars, backslashes and
  newlines they contain, and the bytes after the line are untouched; the exception is a carriage
  return at the end of the last field, which reading drops, so the row comes back unchanged exactly
  when its last field does not end in one.
\<close>

theorem row_line_round_trip:
  assumes "storable n row"
  shows "\<exists>line. read_line (row_line row @ bs) = Some (line, bs) \<and>
           parse_line_into_row line n = Some (stored_row row) \<and>
           (stored_row row = row \<longleftrightarrow> last row = [] \<or> last (last row) \<noteq> CR)"
proof -
  have ne: "row \<noteq> []" using assms by (auto simp: storable_def)
  have "stored_row row = row \<longleftrightarrow> strip_cr (last row) = last row"
    using ne append_butlast_last_id [OF ne] by (metis stored_row_def append_same_eq same_append_eq list.inject)
  also have "\<dots> \<longleftrightarrow> last row = [] \<or> last (last row) \<noteq> CR"
    by (auto simp: strip_cr_def) (metis append_butlast_last_id append_self_conv not_Cons_self2)
  finally show ?thesis
    using read_line_row [OF assms, of bs] parse_joined [OF storable_stored [OF assms]] by blast
qed

theorem row_line_round_trip_witness:
  "\<exists>line. read_line (row_line [''x|y'', [BACKSLASH, LF]] @ ''rest'') = Some (line, ''rest'') \<and>
     parse_line_into_row line 2 = Some [''x|y'', [BACKSLASH, LF]]"
proof -
  have "storable 2 [''x|y'', [BACKSLASH, LF]]" by code_simp
  from row_line_round_trip [OF this, of "''rest''"] show ?thesis by auto
qed

end
