(* ===== verification/Schema.thy ===== *)
theory Schema
  imports Storage
begin

text \<open>
  The table schemas of \<^verbatim>\<open>src/schema.c\<close>: a schema file has one column name per line,
  blank lines are skipped and a repeated name is an error.
\<close>

section \<open>Loading a schema\<close>

record table_schema =
  schema_table_name :: string
  columns :: "string list"

definition column_count :: "table_schema \<Rightarrow> nat" where
  "column_count schema = length (columns schema)"

definition trim_in_place :: "string \<Rightarrow> string" where
  "trim_in_place text = rev (dropWhile isspace (rev (dropWhile isspace text)))"

definition schema_path :: "string \<Rightarrow> string \<Rightarrow> string" where
  "schema_path db_dir table_name = build_table_path db_dir table_name ''.schema''"

text \<open>The loop of \<^verbatim>\<open>load_table_schema\<close> over the lines of the schema file.\<close>

function read_columns :: "string \<Rightarrow> string \<Rightarrow> string list \<Rightarrow> string + string list" where
  "read_columns table_name bs cols =
     (case read_line bs of
        None \<Rightarrow> Inr cols
      | Some (line, rest) \<Rightarrow>
          (let name = trim_in_place line in
           if name = [] then read_columns table_name rest cols
           else if name \<in> set cols then
             Inl (''duplicate column '' @ quoted name @ '' in table '' @ quoted table_name)
           else read_columns table_name rest (cols @ [name])))"
  by pat_completeness auto
termination
  by (relation "measure (\<lambda>(_, bs, _). length bs)") (auto dest: read_line_shorter)

declare read_columns.simps [simp del]

text \<open>
  \<^verbatim>\<open>load_table_schema\<close> returns 1 with a message on failure; its callers turn that into
  \<open>STATUS_SCHEMA_ERROR\<close>.
\<close>

definition load_table_schema :: "fs \<Rightarrow> string \<Rightarrow> string \<Rightarrow> string + table_schema" where
  "load_table_schema fs db_dir table_name =
     (case fopen_rb fs (schema_path db_dir table_name) of
        ENOENT \<Rightarrow> Inl (set_error (''table '' @ quoted table_name @ '' not found''))
      | Errno m \<Rightarrow>
          Inl (set_error (''failed to open schema file '' @ quoted (schema_path db_dir table_name) @
                 '': '' @ m))
      | OpenedBad \<Rightarrow>
          Inl (set_error (''failed to read schema file '' @ quoted (schema_path db_dir table_name)))
      | Opened bs \<Rightarrow>
          (case read_columns table_name bs [] of
             Inl m \<Rightarrow> Inl (set_error m)
           | Inr cols \<Rightarrow>
               if cols = [] then Inl (set_error (''table '' @ quoted table_name @ '' has no columns''))
               else Inr \<lparr>schema_table_name = table_name, columns = cols\<rparr>))"

fun column_position :: "string list \<Rightarrow> string \<Rightarrow> int" where
  "column_position [] column_name = -1"
| "column_position (c # cs) column_name =
     (if c = column_name then 0
      else let i = column_position cs column_name in if i < 0 then -1 else i + 1)"

definition schema_find_column_index :: "table_schema \<Rightarrow> string \<Rightarrow> int" where
  "schema_find_column_index schema column_name = column_position (columns schema) column_name"

section \<open>What a loaded schema satisfies\<close>

lemma column_position_cases:
  "(column_position cs x = -1 \<and> x \<notin> set cs) \<or>
   (0 \<le> column_position cs x \<and> column_position cs x < int (length cs) \<and>
    cs ! nat (column_position cs x) = x)"
proof (induction cs)
  case (Cons c cs)
  show ?case
  proof (cases "c = x")
    case False
    with Cons.IH show ?thesis
      by (auto simp: Let_def nat_add_distrib)
  qed simp
qed simp

lemma column_position_found:
  "x \<in> set cs \<Longrightarrow> 0 \<le> column_position cs x \<and> nat (column_position cs x) < length cs \<and>
     cs ! nat (column_position cs x) = x"
  using column_position_cases [of cs x] by auto

lemma column_position_neg_iff: "column_position cs x < 0 \<longleftrightarrow> x \<notin> set cs"
  using column_position_cases [of cs x] by (auto simp: in_set_conv_nth)

text \<open>With distinct names, a column is found at its own position.\<close>

lemma column_position_nth:
  assumes "distinct cs" "i < length cs"
  shows "column_position cs (cs ! i) = int i"
proof -
  have "cs ! i \<in> set cs" using assms(2) by simp
  note F = column_position_found [OF this]
  then have "nat (column_position cs (cs ! i)) = i" using assms nth_eq_iff_index_eq by metis
  with F show ?thesis by auto
qed

lemma dropWhile_last_space: "xs \<noteq> [] \<Longrightarrow> \<not> P (hd xs) \<Longrightarrow> rev (dropWhile P (rev xs)) \<noteq> [] \<and>
   hd (rev (dropWhile P (rev xs))) = hd xs"
proof -
  assume "xs \<noteq> []" "\<not> P (hd xs)"
  then obtain y ys where xs: "xs = y # ys" "\<not> P y" by (cases xs) auto
  have "dropWhile P (rev ys @ [y]) = dropWhile P (rev ys) @ [y]"
    using xs(2) by (simp add: dropWhile_append3)
  with xs show ?thesis by simp
qed

lemma trim_in_place_clean:
  assumes "trim_in_place s \<noteq> []"
  shows "\<not> isspace (hd (trim_in_place s))" "\<not> isspace (last (trim_in_place s))"
proof -
  let ?d = "dropWhile isspace s"
  have d: "?d \<noteq> []" using assms by (metis dropWhile.simps(1) rev.simps(1) trim_in_place_def)
  then have "\<not> isspace (hd ?d)" by (rule hd_dropWhile)
  with dropWhile_last_space [OF d, of isspace] show "\<not> isspace (hd (trim_in_place s))"
    by (simp add: trim_in_place_def)
  have "dropWhile isspace (rev ?d) \<noteq> []" using assms by (metis rev.simps(1) trim_in_place_def)
  from hd_dropWhile [OF this] show "\<not> isspace (last (trim_in_place s))"
    by (simp add: trim_in_place_def last_rev)
qed

definition column_name_ok :: "string \<Rightarrow> bool" where
  "column_name_ok c \<longleftrightarrow> c \<noteq> [] \<and> \<not> isspace (hd c) \<and> \<not> isspace (last c)"

lemma read_columns_inv:
  "read_columns table_name bs cols = Inr cols' \<Longrightarrow> distinct cols \<Longrightarrow> list_all column_name_ok cols \<Longrightarrow>
   distinct cols' \<and> list_all column_name_ok cols' \<and> (\<exists>more. cols' = cols @ more)"
proof (induction table_name bs cols rule: read_columns.induct)
  case (1 table_name bs cols)
  show ?case
  proof (cases "read_line bs")
    case None
    with "1.prems" show ?thesis by (simp add: read_columns.simps [of _ bs])
  next
    case (Some p)
    obtain line rest where p: "p = (line, rest)" by (cases p)
    let ?n = "trim_in_place line"
    show ?thesis
    proof (cases "?n = []")
      case True
      with "1.prems" Some p have "read_columns table_name rest cols = Inr cols'"
        by (simp add: read_columns.simps [of _ bs])
      with "1.IH"(1) [OF Some [unfolded p] refl refl True] "1.prems" show ?thesis by blast
    next
      case False
      with "1.prems" Some p have n: "?n \<notin> set cols"
        and r: "read_columns table_name rest (cols @ [?n]) = Inr cols'"
        by (auto simp: read_columns.simps [of _ bs] Let_def split: if_splits)
      have "column_name_ok ?n" using False trim_in_place_clean by (simp add: column_name_ok_def)
      with "1.IH"(2) [OF Some [unfolded p] refl refl False n r] "1.prems" n show ?thesis by auto
    qed
  qed
qed

lemma load_table_schema_ok:
  assumes "load_table_schema fs db_dir table_name = Inr schema"
  shows "columns schema \<noteq> []" "distinct (columns schema)" "list_all column_name_ok (columns schema)"
    "schema_table_name schema = table_name"
  using assms read_columns_inv [of table_name _ "[]"]
  by (auto simp: load_table_schema_def split: opened.splits sum.splits if_splits)

text \<open>The result only depends on the schema file.\<close>

lemma load_table_schema_cong:
  "fs' (schema_path db_dir table_name) = fs (schema_path db_dir table_name) \<Longrightarrow>
   load_table_schema fs' db_dir table_name = load_table_schema fs db_dir table_name"
  by (simp add: load_table_schema_def fopen_rb_def)

lemma schema_data_paths: "schema_path db_dir t \<noteq> data_path db_dir t'"
proof -
  have "last (schema_path db_dir t) = CHR ''a'' \<and> last (data_path db_dir t') = CHR ''a''"
    by (simp add: schema_path_def data_path_def build_table_path_def Let_def)
  have "rev (schema_path db_dir t) ! 1 = CHR ''m''" "rev (data_path db_dir t') ! 1 = CHR ''t''"
    by (simp_all add: schema_path_def data_path_def build_table_path_def Let_def)
  then show ?thesis by auto
qed

section \<open>Properties\<close>

text \<open>
  C17. A schema that loads has at least one column, no column name twice, no empty name and no
  name that starts or ends with white space, and a column is found at its own position.
\<close>

theorem loaded_schema_well_formed:
  assumes "load_table_schema fs db_dir table_name = Inr schema"
  shows "columns schema \<noteq> [] \<and> distinct (columns schema) \<and> list_all column_name_ok (columns schema) \<and>
    schema_table_name schema = table_name \<and>
    (\<forall>i < column_count schema. schema_find_column_index schema (columns schema ! i) = int i)"
  using load_table_schema_ok [OF assms] column_position_nth
  by (auto simp: schema_find_column_index_def column_count_def)

theorem loaded_schema_well_formed_witness:
  "\<exists>schema. load_table_schema ((\<lambda>_. Absent)(''db/t.schema'' := File (''id'' @ [CR, LF, LF] @ '' name '' @ [LF])))
       ''db'' ''t'' = Inr schema \<and> columns schema = [''id'', ''name''] \<and>
     schema_find_column_index schema (columns schema ! 1) = 1"
proof -
  let ?fs = "(\<lambda>_. Absent)(''db/t.schema'' := File (''id'' @ [CR, LF, LF] @ '' name '' @ [LF]))"
  have l: "load_table_schema ?fs ''db'' ''t'' = Inr \<lparr>schema_table_name = ''t'', columns = [''id'', ''name'']\<rparr>"
    by code_simp
  from loaded_schema_well_formed [OF l] l show ?thesis by (auto simp: column_count_def)
qed

end
