(* ===== verification/Bptree.thy ===== *)
theory Bptree
  imports Prelude
begin

text \<open>
  The B+Tree of \<^verbatim>\<open>src/bptree.c\<close>, as the code has it: nodes in a store, linked by
  child, parent and leaf-chain pointers.  An address is a natural number, \<open>None\<close> is
  \<^verbatim>\<open>NULL\<close>.  A node's \<^verbatim>\<open>keys\<close> array is its live prefix (the first
  \<^verbatim>\<open>key_count\<close> entries; the code never reads beyond it), and the two arms of the
  union \<^verbatim>\<open>ptrs\<close> are two fields, also live prefixes: \<open>children\<close> of an internal
  node (\<^verbatim>\<open>key_count + 1\<close> entries) and \<open>row_offsets\<close> of a leaf
  (\<^verbatim>\<open>key_count\<close> entries).  The nodes of a tree are reached from its own root only,
  so each tree carries its own store.  \<open>node_limit\<close> says after how many nodes
  \<^verbatim>\<open>calloc\<close> fails (\<open>None\<close>: never), which makes the out-of-memory branches
  part of the model.

  The loops that follow pointers have a fuel argument; running out of it is \<open>Diverges\<close>.
  The number of nodes in the store is enough fuel on every tree the operations build.
\<close>

section \<open>Nodes, trees and the node store\<close>

definition BPTREE_ORDER :: nat where
  "BPTREE_ORDER = 64"

definition BPTREE_MAX_KEYS :: nat where
  "BPTREE_MAX_KEYS = BPTREE_ORDER - 1"

type_synonym addr = nat

record bpnode =
  is_leaf :: bool
  keys :: "u64 list"
  parent :: "addr option"
  next_leaf :: "addr option"
  children :: "addr list"
  row_offsets :: "int list"

type_synonym store = "addr \<rightharpoonup> bpnode"

record bptree =
  root :: "addr option"
  tree_key_count :: nat
  cells :: store
  fresh :: addr
  node_limit :: "nat option"

definition key_count :: "bpnode \<Rightarrow> nat" where
  "key_count n = length (keys n)"

definition upd :: "addr \<Rightarrow> (bpnode \<Rightarrow> bpnode) \<Rightarrow> store \<Rightarrow> store" where
  "upd a f h = (case h a of None \<Rightarrow> h | Some n \<Rightarrow> h(a \<mapsto> f n))"

text \<open>The node a valid pointer refers to.\<close>

definition node_at :: "store \<Rightarrow> addr \<Rightarrow> bpnode" where
  "node_at h a = the (h a)"

definition create_node :: "bool \<Rightarrow> bptree \<Rightarrow> addr option \<times> bptree" where
  "create_node leaf t =
     (if (case node_limit t of None \<Rightarrow> False | Some m \<Rightarrow> m \<le> fresh t) then (None, t)
      else (Some (fresh t),
            t\<lparr>cells := (cells t)(fresh t \<mapsto>
                 \<lparr>is_leaf = leaf, keys = [], parent = None, next_leaf = None,
                  children = [], row_offsets = []\<rparr>),
              fresh := Suc (fresh t)\<rparr>))"

section \<open>Descending to a leaf\<close>

text \<open>\<^verbatim>\<open>while (child_index < key_count && key >= keys[child_index]) child_index++\<close>\<close>

fun child_index :: "u64 list \<Rightarrow> u64 \<Rightarrow> nat" where
  "child_index [] key = 0"
| "child_index (k # ks) key = (if k \<le> key then Suc (child_index ks key) else 0)"

fun find_leaf_node :: "nat \<Rightarrow> store \<Rightarrow> addr option \<Rightarrow> u64 \<Rightarrow> addr option result" where
  "find_leaf_node 0 h node key = Inl Diverges"
| "find_leaf_node (Suc fuel) h node key =
     (case node of
        None \<Rightarrow> Inr None
      | Some a \<Rightarrow>
          if is_leaf (node_at h a) then Inr (Some a)
          else (let i = child_index (keys (node_at h a)) key;
                    cs = children (node_at h a)
                in find_leaf_node fuel h (if i < length cs then Some (cs ! i) else None) key))"

section \<open>Insertion without overflow\<close>

text \<open>\<^verbatim>\<open>while (insert_index < key_count && keys[insert_index] < key) insert_index++\<close>\<close>

fun insert_index :: "u64 list \<Rightarrow> u64 \<Rightarrow> nat" where
  "insert_index [] key = 0"
| "insert_index (k # ks) key = (if k < key then Suc (insert_index ks key) else 0)"

text \<open>Shifting the entries from \<open>i\<close> on one place to the right and storing \<open>x\<close> at \<open>i\<close>.\<close>

definition insert_at :: "nat \<Rightarrow> 'a \<Rightarrow> 'a list \<Rightarrow> 'a list" where
  "insert_at i x xs = take i xs @ x # drop i xs"

definition insert_into_leaf :: "bptree \<Rightarrow> addr \<Rightarrow> u64 \<Rightarrow> int \<Rightarrow> (status \<times> bptree)" where
  "insert_into_leaf t leaf key row_offset =
     (let n = node_at (cells t) leaf; i = insert_index (keys n) key in
      if i < key_count n \<and> keys n ! i = key then (STATUS_INDEX_ERROR, t)
      else (STATUS_OK,
            t\<lparr>cells := upd leaf (\<lambda>n. n\<lparr>keys := insert_at i key (keys n),
                                          row_offsets := insert_at i row_offset (row_offsets n)\<rparr>)
                         (cells t)\<rparr>))"

definition set_parent :: "addr option \<Rightarrow> addr \<Rightarrow> store \<Rightarrow> store" where
  "set_parent p a h = upd a (\<lambda>n. n\<lparr>parent := p\<rparr>) h"

definition insert_into_internal_node :: "bptree \<Rightarrow> addr \<Rightarrow> nat \<Rightarrow> u64 \<Rightarrow> addr \<Rightarrow> bptree" where
  "insert_into_internal_node t node left_child_index separator_key right_child =
     t\<lparr>cells := set_parent (Some node) right_child
          (upd node (\<lambda>n. n\<lparr>keys := insert_at left_child_index separator_key (keys n),
                             children := insert_at (left_child_index + 1) right_child (children n)\<rparr>)
             (cells t))\<rparr>"

section \<open>Splits\<close>

text \<open>
  \<^verbatim>\<open>split_internal_and_insert\<close> up to its final call of \<^verbatim>\<open>insert_into_parent\<close>:
  the node keeps the lower half, a new right node gets the upper half, the middle key is promoted
  and the moved children get their new parent.  \<open>None\<close> when the right node cannot be
  allocated.
\<close>

definition split_internal :: "bptree \<Rightarrow> addr \<Rightarrow> nat \<Rightarrow> u64 \<Rightarrow> addr \<Rightarrow> (u64 \<times> addr \<times> bptree) option" where
  "split_internal t node left_child_index separator_key right_child =
     (let n = node_at (cells t) node;
          temp_keys = insert_at left_child_index separator_key (keys n);
          temp_children = insert_at (left_child_index + 1) right_child (children n)
      in case create_node False t of
           (None, _) \<Rightarrow> None
         | (Some right_node, t1) \<Rightarrow>
             let total_keys = key_count n + 1;
                 split_index = total_keys div 2;
                 promoted_key = temp_keys ! split_index;
                 left_children = take (split_index + 1) temp_children;
                 right_children = drop (split_index + 1) temp_children;
                 h1 = upd node (\<lambda>n. n\<lparr>keys := take split_index temp_keys,
                                        children := left_children\<rparr>) (cells t1);
                 h2 = fold (set_parent (Some node)) left_children h1;
                 h3 = upd right_node (\<lambda>m. m\<lparr>keys := drop (split_index + 1) temp_keys,
                                              parent := parent n,
                                              children := right_children\<rparr>) h2;
                 h4 = fold (set_parent (Some right_node)) right_children h3
             in Some (promoted_key, right_node, t1\<lparr>cells := h4\<rparr>))"

text \<open>\<^verbatim>\<open>while (i <= key_count && children[i] != left) i++\<close>\<close>

fun child_position :: "addr list \<Rightarrow> addr \<Rightarrow> nat" where
  "child_position [] a = 0"
| "child_position (c # cs) a = (if c = a then 0 else Suc (child_position cs a))"

fun insert_into_parent :: "nat \<Rightarrow> bptree \<Rightarrow> addr \<Rightarrow> u64 \<Rightarrow> addr \<Rightarrow> unit result \<times> bptree"
and split_internal_and_insert ::
  "nat \<Rightarrow> bptree \<Rightarrow> addr \<Rightarrow> nat \<Rightarrow> u64 \<Rightarrow> addr \<Rightarrow> unit result \<times> bptree" where
  "insert_into_parent 0 t left separator_key right = (Inl Diverges, t)"
| "insert_into_parent (Suc fuel) t left separator_key right =
     (case parent (node_at (cells t) left) of
        None \<Rightarrow>
          (case create_node False t of
             (None, t1) \<Rightarrow> (fail STATUS_INDEX_ERROR ''INDEX ERROR: out of memory'', t1)
           | (Some new_root, t1) \<Rightarrow>
               (Inr (),
                t1\<lparr>cells := set_parent (Some new_root) right (set_parent (Some new_root) left
                     (upd new_root (\<lambda>n. n\<lparr>keys := [separator_key], children := [left, right]\<rparr>)
                        (cells t1))),
                   root := Some new_root\<rparr>))
      | Some p \<Rightarrow>
          (let pn = node_at (cells t) p; left_child_index = child_position (children pn) left in
           if key_count pn < left_child_index then
             (fail STATUS_INDEX_ERROR ''INDEX ERROR: parent-child relationship is broken'', t)
           else if key_count pn < BPTREE_MAX_KEYS then
             (Inr (), insert_into_internal_node t p left_child_index separator_key right)
           else split_internal_and_insert fuel t p left_child_index separator_key right))"
| "split_internal_and_insert fuel t node left_child_index separator_key right_child =
     (case split_internal t node left_child_index separator_key right_child of
        None \<Rightarrow> (fail STATUS_INDEX_ERROR ''INDEX ERROR: out of memory'', t)
      | Some (promoted_key, right_node, t1) \<Rightarrow>
          insert_into_parent fuel t1 node promoted_key right_node)"

definition duplicate_key :: "u64 \<Rightarrow> 'a result" where
  "duplicate_key key = fail STATUS_INDEX_ERROR (''INDEX ERROR: duplicate key '' @ print_u64 key)"

definition split_leaf_and_insert :: "bptree \<Rightarrow> addr \<Rightarrow> u64 \<Rightarrow> int \<Rightarrow> unit result \<times> bptree" where
  "split_leaf_and_insert t leaf key row_offset =
     (let n = node_at (cells t) leaf; i = insert_index (keys n) key in
      if i < key_count n \<and> keys n ! i = key then (duplicate_key key, t)
      else
        (let temp_keys = insert_at i key (keys n);
             temp_offsets = insert_at i row_offset (row_offsets n)
         in case create_node True t of
              (None, t1) \<Rightarrow> (fail STATUS_INDEX_ERROR ''INDEX ERROR: out of memory'', t1)
            | (Some new_leaf, t1) \<Rightarrow>
                let total_keys = key_count n + 1;
                    left_count = total_keys div 2;
                    h1 = upd leaf (\<lambda>n. n\<lparr>keys := take left_count temp_keys,
                                           row_offsets := take left_count temp_offsets\<rparr>) (cells t1);
                    h2 = upd new_leaf (\<lambda>m. m\<lparr>keys := drop left_count temp_keys,
                                               row_offsets := drop left_count temp_offsets,
                                               next_leaf := next_leaf n, parent := parent n\<rparr>) h1;
                    h3 = upd leaf (\<lambda>n. n\<lparr>next_leaf := Some new_leaf\<rparr>) h2
                in insert_into_parent (fresh t) (t1\<lparr>cells := h3\<rparr>) leaf
                     (hd (drop left_count temp_keys)) new_leaf))"

section \<open>The public operations\<close>

definition bptree_init :: "nat option \<Rightarrow> bptree" where
  "bptree_init limit =
     \<lparr>root = None, tree_key_count = 0, cells = Map.empty, fresh = 0, node_limit = limit\<rparr>"

text \<open>\<^verbatim>\<open>for (i = 0; i < key_count; ++i) if (keys[i] == key)\<close>: the offset at the first match.\<close>

fun leaf_lookup :: "u64 list \<Rightarrow> int list \<Rightarrow> u64 \<Rightarrow> int option" where
  "leaf_lookup (k # ks) (v # vs) key = (if k = key then Some v else leaf_lookup ks vs key)"
| "leaf_lookup _ _ key = None"

text \<open>
  \<^verbatim>\<open>bptree_search\<close>: the result is \<open>out_found\<close> and \<open>out_offset\<close> together.
\<close>

definition bptree_search :: "bptree \<Rightarrow> u64 \<Rightarrow> int option result" where
  "bptree_search t key =
     (case root t of
        None \<Rightarrow> Inr None
      | Some r \<Rightarrow>
          (case find_leaf_node (Suc (fresh t)) (cells t) (Some r) key of
             Inl e \<Rightarrow> Inl e
           | Inr None \<Rightarrow> fail STATUS_INDEX_ERROR ''INDEX ERROR: failed to locate leaf''
           | Inr (Some leaf) \<Rightarrow>
               Inr (leaf_lookup (keys (node_at (cells t) leaf))
                      (row_offsets (node_at (cells t) leaf)) key)))"

definition bptree_insert :: "bptree \<Rightarrow> u64 \<Rightarrow> int \<Rightarrow> unit result \<times> bptree" where
  "bptree_insert t key row_offset =
     (case root t of
        None \<Rightarrow>
          (case create_node True t of
             (None, t1) \<Rightarrow> (fail STATUS_INDEX_ERROR ''INDEX ERROR: out of memory'', t1)
           | (Some r, t1) \<Rightarrow>
               (Inr (),
                t1\<lparr>root := Some r,
                   cells := upd r (\<lambda>n. n\<lparr>keys := [key], row_offsets := [row_offset]\<rparr>) (cells t1),
                   tree_key_count := 1\<rparr>))
      | Some r \<Rightarrow>
          (case find_leaf_node (Suc (fresh t)) (cells t) (Some r) key of
             Inl e \<Rightarrow> (Inl e, t)
           | Inr None \<Rightarrow>
               (fail STATUS_INDEX_ERROR ''INDEX ERROR: failed to locate insertion leaf'', t)
           | Inr (Some leaf) \<Rightarrow>
               if key_count (node_at (cells t) leaf) < BPTREE_MAX_KEYS then
                 (case insert_into_leaf t leaf key row_offset of
                    (st, t1) \<Rightarrow>
                      if st \<noteq> STATUS_OK then (duplicate_key key, t1)
                      else (Inr (), t1\<lparr>tree_key_count := tree_key_count t1 + 1\<rparr>))
               else
                 (case split_leaf_and_insert t leaf key row_offset of
                    (Inl e, t1) \<Rightarrow> (Inl e, t1)
                  | (Inr u, t1) \<Rightarrow> (Inr (), t1\<lparr>tree_key_count := tree_key_count t1 + 1\<rparr>))))"

section \<open>Validation\<close>

fun strictly_increasing :: "u64 list \<Rightarrow> bool" where
  "strictly_increasing (a # b # ks) = (a < b \<and> strictly_increasing (b # ks))"
| "strictly_increasing _ = True"

definition above :: "u64 option \<Rightarrow> u64 \<Rightarrow> bool" where
  "above lower k = (case lower of None \<Rightarrow> True | Some l \<Rightarrow> l \<le> k)"

definition below :: "u64 \<Rightarrow> u64 option \<Rightarrow> bool" where
  "below k upper = (case upper of None \<Rightarrow> True | Some u \<Rightarrow> k < u)"

definition range_ok :: "u64 option \<Rightarrow> u64 option \<Rightarrow> bool" where
  "range_ok lower upper = (case lower of None \<Rightarrow> True | Some l \<Rightarrow> below l upper)"

text \<open>
  \<^verbatim>\<open>validate_node\<close> and its loop over the children.  The bounds are \<open>None\<close>
  where \<^verbatim>\<open>has_lower\<close>/\<^verbatim>\<open>has_upper\<close> is 0; the validation state is the
  leaf depth seen so far (\<open>None\<close> while \<^verbatim>\<open>leaf_depth_set\<close> is 0).
\<close>

fun validate_node :: "nat \<Rightarrow> store \<Rightarrow> addr \<Rightarrow> addr option \<Rightarrow> u64 option \<Rightarrow> u64 option \<Rightarrow> nat \<Rightarrow>
  nat option \<Rightarrow> nat option result"
and validate_children :: "nat \<Rightarrow> store \<Rightarrow> addr \<Rightarrow> u64 list \<Rightarrow> addr list \<Rightarrow> u64 option \<Rightarrow> u64 option \<Rightarrow>
  nat \<Rightarrow> nat option \<Rightarrow> nat option result" where
  "validate_node 0 h a expected_parent lower upper depth state = Inl Diverges"
| "validate_node (Suc fuel) h a expected_parent lower upper depth state =
     (let n = node_at h a in
      if parent n \<noteq> expected_parent then
        fail STATUS_INDEX_ERROR ''INDEX ERROR: invalid parent pointer''
      else if BPTREE_MAX_KEYS < key_count n then
        fail STATUS_INDEX_ERROR ''INDEX ERROR: key count overflow''
      else if \<not> strictly_increasing (keys n) then
        fail STATUS_INDEX_ERROR ''INDEX ERROR: keys are not strictly increasing''
      else if is_leaf n then
        (if \<not> list_all (\<lambda>k. above lower k \<and> below k upper) (keys n) then
           fail STATUS_INDEX_ERROR ''INDEX ERROR: leaf key outside allowed range''
         else case state of
                None \<Rightarrow> Inr (Some depth)
              | Some d \<Rightarrow> if d \<noteq> depth then fail STATUS_INDEX_ERROR ''INDEX ERROR: leaf depth mismatch''
                          else Inr state)
      else validate_children fuel h a (keys n) (children n) lower upper (depth + 1) state)"
| "validate_children fuel h a ks [] lower upper depth state =
     fail STATUS_INDEX_ERROR ''INDEX ERROR: internal node has null child''"
| "validate_children fuel h a ks (c # cs) lower upper depth state =
     (let child_upper = (case ks of [] \<Rightarrow> upper | k # _ \<Rightarrow> Some k) in
      if \<not> range_ok lower child_upper then
        fail STATUS_INDEX_ERROR ''INDEX ERROR: invalid child key range''
      else case validate_node fuel h c (Some a) lower child_upper depth state of
             Inl e \<Rightarrow> Inl e
           | Inr state' \<Rightarrow>
               (case ks of
                  [] \<Rightarrow> Inr state'
                | k # ks' \<Rightarrow> validate_children fuel h a ks' cs (Some k) upper depth state'))"

fun find_leftmost_leaf :: "nat \<Rightarrow> store \<Rightarrow> addr option \<Rightarrow> addr option result" where
  "find_leftmost_leaf 0 h node = Inl Diverges"
| "find_leftmost_leaf (Suc fuel) h node =
     (case node of
        None \<Rightarrow> Inr None
      | Some a \<Rightarrow>
          if is_leaf (node_at h a) then Inr (Some a)
          else find_leftmost_leaf fuel h
                 (case children (node_at h a) of [] \<Rightarrow> None | c # _ \<Rightarrow> Some c))"

text \<open>The inner loop over one leaf's keys: the last key seen and the number counted so far.\<close>

fun check_leaf_keys :: "u64 list \<Rightarrow> u64 option \<Rightarrow> nat \<Rightarrow> (u64 option \<times> nat) option" where
  "check_leaf_keys [] previous counted = Some (previous, counted)"
| "check_leaf_keys (k # ks) previous counted =
     (if (case previous of None \<Rightarrow> False | Some p \<Rightarrow> k \<le> p) then None
      else check_leaf_keys ks (Some k) (counted + 1))"

fun check_leaf_chain :: "nat \<Rightarrow> store \<Rightarrow> addr option \<Rightarrow> u64 option \<Rightarrow> nat \<Rightarrow> nat result" where
  "check_leaf_chain 0 h leaf previous counted = Inl Diverges"
| "check_leaf_chain (Suc fuel) h leaf previous counted =
     (case leaf of
        None \<Rightarrow> Inr counted
      | Some a \<Rightarrow>
          if \<not> is_leaf (node_at h a) then
            fail STATUS_INDEX_ERROR ''INDEX ERROR: leaf chain contains internal node''
          else (case check_leaf_keys (keys (node_at h a)) previous counted of
                  None \<Rightarrow> fail STATUS_INDEX_ERROR ''INDEX ERROR: leaf chain is not sorted''
                | Some (previous', counted') \<Rightarrow>
                    check_leaf_chain fuel h (next_leaf (node_at h a)) previous' counted'))"

definition bptree_validate :: "bptree \<Rightarrow> unit result" where
  "bptree_validate t =
     (case root t of
        None \<Rightarrow>
          if tree_key_count t \<noteq> 0 then
            fail STATUS_INDEX_ERROR ''INDEX ERROR: empty tree has non-zero key count''
          else Inr ()
      | Some r \<Rightarrow>
          (case validate_node (Suc (fresh t)) (cells t) r None None None 0 None of
             Inl e \<Rightarrow> Inl e
           | Inr state \<Rightarrow>
               (case find_leftmost_leaf (Suc (fresh t)) (cells t) (Some r) of
                  Inl e \<Rightarrow> Inl e
                | Inr leaf \<Rightarrow>
                    (case check_leaf_chain (Suc (fresh t)) (cells t) leaf None 0 of
                       Inl e \<Rightarrow> Inl e
                     | Inr counted \<Rightarrow>
                         if counted \<noteq> tree_key_count t then
                           fail STATUS_INDEX_ERROR ''INDEX ERROR: key count mismatch''
                         else Inr ()))))"

section \<open>Destruction\<close>

text \<open>\<^verbatim>\<open>destroy_node\<close>: the addresses passed to \<^verbatim>\<open>free\<close>, in order.\<close>

fun destroy_node :: "nat \<Rightarrow> store \<Rightarrow> addr \<Rightarrow> addr list result"
and destroy_children :: "nat \<Rightarrow> store \<Rightarrow> addr list \<Rightarrow> addr list result" where
  "destroy_node 0 h a = Inl Diverges"
| "destroy_node (Suc fuel) h a =
     (if is_leaf (node_at h a) then Inr [a]
      else case destroy_children fuel h (children (node_at h a)) of
             Inl e \<Rightarrow> Inl e
           | Inr freed \<Rightarrow> Inr (freed @ [a]))"
| "destroy_children fuel h [] = Inr []"
| "destroy_children fuel h (c # cs) =
     (case destroy_node fuel h c of
        Inl e \<Rightarrow> Inl e
      | Inr freed \<Rightarrow>
          (case destroy_children fuel h cs of
             Inl e \<Rightarrow> Inl e
           | Inr freed' \<Rightarrow> Inr (freed @ freed')))"

definition bptree_destroy :: "bptree \<Rightarrow> (addr list \<times> bptree) result" where
  "bptree_destroy t =
     (case (case root t of None \<Rightarrow> Inr [] | Some r \<Rightarrow> destroy_node (Suc (fresh t)) (cells t) r) of
        Inl e \<Rightarrow> Inl e
      | Inr freed \<Rightarrow>
          Inr (freed, t\<lparr>root := None, tree_key_count := 0,
                        cells := (cells t) |` (- set freed)\<rparr>))"

section \<open>The contents of a tree\<close>

text \<open>The entries in key order, read along the leaf chain from the leftmost leaf.\<close>

fun chain_entries :: "nat \<Rightarrow> store \<Rightarrow> addr option \<Rightarrow> (u64 \<times> int) list" where
  "chain_entries 0 h leaf = []"
| "chain_entries (Suc fuel) h leaf =
     (case leaf of
        None \<Rightarrow> []
      | Some a \<Rightarrow> zip (keys (node_at h a)) (row_offsets (node_at h a)) @
                  chain_entries fuel h (next_leaf (node_at h a)))"

definition bptree_entries :: "bptree \<Rightarrow> (u64 \<times> int) list" where
  "bptree_entries t =
     (case find_leftmost_leaf (Suc (fresh t)) (cells t) (root t) of
        Inr leaf \<Rightarrow> chain_entries (Suc (fresh t)) (cells t) leaf
      | Inl e \<Rightarrow> [])"

definition bptree_map :: "bptree \<Rightarrow> (u64 \<rightharpoonup> int)" where
  "bptree_map t = map_of (bptree_entries t)"

end
