(* ===== verification/Bptree_Shape.thy ===== *)
theory Bptree_Shape
  imports Bptree
begin

text \<open>
  The trees that a node store represents.  A \<open>gtree\<close> is a B+Tree as a term, each node
  with its address; \<open>rep h p g\<close> says that the store \<open>h\<close> holds \<open>g\<close> below
  the parent \<open>p\<close>.  Search order (\<open>bst\<close>), balance (\<open>bal\<close>) and fill
  (\<open>fill\<close>) are predicates on the term, and \<open>plug g fs\<close> is a tree taken apart along
  the path from a node \<open>g\<close> up to the root, which is how \<^verbatim>\<open>bptree.c\<close> walks its
  parent pointers.
\<close>

section \<open>Trees and their views\<close>

datatype gtree = GLeaf addr "u64 list" "int list" | GNode addr "u64 list" "gtree list"

fun gaddr :: "gtree \<Rightarrow> addr" where
  "gaddr (GLeaf a ks vs) = a"
| "gaddr (GNode a ks ts) = a"

fun gaddrs :: "gtree \<Rightarrow> addr list" where
  "gaddrs (GLeaf a ks vs) = [a]"
| "gaddrs (GNode a ks ts) = a # concat (map gaddrs ts)"

fun entries :: "gtree \<Rightarrow> (u64 \<times> int) list" where
  "entries (GLeaf a ks vs) = zip ks vs"
| "entries (GNode a ks ts) = concat (map entries ts)"

fun gleaves :: "gtree \<Rightarrow> addr list" where
  "gleaves (GLeaf a ks vs) = [a]"
| "gleaves (GNode a ks ts) = concat (map gleaves ts)"

abbreviation "gaddrs_list ts \<equiv> concat (map gaddrs ts)"
abbreviation "entries_list ts \<equiv> concat (map entries ts)"
abbreviation "gleaves_list ts \<equiv> concat (map gleaves ts)"

lemma gaddr_in_gaddrs [simp]: "gaddr g \<in> set (gaddrs g)"
  by (cases g) auto

lemma gleaves_subset: "set (gleaves g) \<subseteq> set (gaddrs g)"
  by (induction g) auto

section \<open>Representation in the store\<close>

fun rep :: "store \<Rightarrow> addr option \<Rightarrow> gtree \<Rightarrow> bool" where
  "rep h p (GLeaf a ks vs) \<longleftrightarrow>
     (\<exists>nx. h a = Some \<lparr>is_leaf = True, keys = ks, parent = p, next_leaf = nx,
                       children = [], row_offsets = vs\<rparr>)"
| "rep h p (GNode a ks ts) \<longleftrightarrow>
     h a = Some \<lparr>is_leaf = False, keys = ks, parent = p, next_leaf = None,
                 children = map gaddr ts, row_offsets = []\<rparr> \<and>
     (\<forall>t \<in> set ts. rep h (Some a) t)"

lemma rep_dom: "rep h p g \<Longrightarrow> set (gaddrs g) \<subseteq> dom h"
  by (induction g arbitrary: p) auto

lemma rep_frame:
  "\<forall>a \<in> set (gaddrs g). h' a = h a \<Longrightarrow> rep h' p g \<longleftrightarrow> rep h p g"
proof (induction g arbitrary: p)
  case (GNode a ks ts)
  then have "\<forall>t \<in> set ts. \<forall>p. rep h' p t \<longleftrightarrow> rep h p t" by auto
  with GNode.prems show ?case by auto
qed auto

lemma rep_root: "rep h p g \<Longrightarrow> \<exists>n. h (gaddr g) = Some n \<and> parent n = p"
  by (cases g) auto

lemma rep_reparent:
  assumes "rep h p g" "distinct (gaddrs g)"
    and "\<forall>a \<in> set (gaddrs g) - {gaddr g}. h' a = h a"
    and "h' (gaddr g) = map_option (\<lambda>n. n\<lparr>parent := q\<rparr>) (h (gaddr g))"
  shows "rep h' q g"
proof (cases g)
  case (GLeaf a ks vs)
  with assms show ?thesis by auto
next
  case (GNode a ks ts)
  have "\<forall>t \<in> set ts. \<forall>x \<in> set (gaddrs t). h' x = h x"
    using assms(2,3) GNode by auto
  with assms(1) GNode have "\<forall>t \<in> set ts. rep h' (Some a) t"
    using rep_frame [of _ h' h] by auto
  with assms(1,4) GNode show ?thesis by auto
qed

section \<open>Search order\<close>

fun bst :: "u64 option \<Rightarrow> u64 option \<Rightarrow> gtree \<Rightarrow> bool"
and bsts :: "u64 option \<Rightarrow> u64 list \<Rightarrow> gtree list \<Rightarrow> u64 option \<Rightarrow> bool" where
  "bst lo hi (GLeaf a ks vs) \<longleftrightarrow>
     sorted_wrt (<) ks \<and> length vs = length ks \<and> (\<forall>k \<in> set ks. above lo k \<and> below k hi)"
| "bst lo hi (GNode a ks ts) \<longleftrightarrow> bsts lo ks ts hi"
| "bsts lo ks [] hi \<longleftrightarrow> False"
| "bsts lo ks (t # ts) hi \<longleftrightarrow>
     (case ks of
        [] \<Rightarrow> ts = [] \<and> range_ok lo hi \<and> bst lo hi t
      | k # ks' \<Rightarrow> range_ok lo (Some k) \<and> bst lo (Some k) t \<and> bsts (Some k) ks' ts hi)"

text \<open>The part of a child list left of a hole, and the part right of it.\<close>

fun bst_left :: "u64 option \<Rightarrow> u64 list \<Rightarrow> gtree list \<Rightarrow> bool" where
  "bst_left lo (k # ks) (t # ts) \<longleftrightarrow> range_ok lo (Some k) \<and> bst lo (Some k) t \<and> bst_left (Some k) ks ts"
| "bst_left lo ks ts \<longleftrightarrow> ks = [] \<and> ts = []"

definition bst_right :: "u64 list \<Rightarrow> gtree list \<Rightarrow> u64 option \<Rightarrow> bool" where
  "bst_right ks ts hi \<longleftrightarrow>
     (case ks of [] \<Rightarrow> ts = [] | k # ks' \<Rightarrow> ts \<noteq> [] \<and> bsts (Some k) ks' ts hi)"

definition hole_lo :: "u64 option \<Rightarrow> u64 list \<Rightarrow> u64 option" where
  "hole_lo lo ks = (if ks = [] then lo else Some (last ks))"

definition hole_hi :: "u64 list \<Rightarrow> u64 option \<Rightarrow> u64 option" where
  "hole_hi ks hi = (case ks of [] \<Rightarrow> hi | k # _ \<Rightarrow> Some k)"

lemma bsts_length: "bsts lo ks ts hi \<Longrightarrow> length ts = Suc (length ks)"
proof (induction ts arbitrary: lo ks)
  case (Cons t ts)
  then show ?case by (cases ks) auto
qed simp

lemma bsts_plug:
  "length ls = length kl \<Longrightarrow>
   bsts lo (kl @ kr) (ls @ t # rs) hi \<longleftrightarrow>
     bst_left lo kl ls \<and> range_ok (hole_lo lo kl) (hole_hi kr hi) \<and>
     bst (hole_lo lo kl) (hole_hi kr hi) t \<and> bst_right kr rs hi"
proof (induction ls kl arbitrary: lo rule: list_induct2)
  case Nil
  show ?case
    by (cases kr; cases rs) (auto simp: hole_lo_def hole_hi_def bst_right_def)
next
  case (Cons x xs y ys)
  then show ?case by (auto simp: hole_lo_def)
qed

lemma bsts_plug2:
  "length ls = length kl \<Longrightarrow>
   bsts lo (kl @ k # kr) (ls @ t1 # t2 # rs) hi \<longleftrightarrow>
     bst_left lo kl ls \<and>
     range_ok (hole_lo lo kl) (Some k) \<and> bst (hole_lo lo kl) (Some k) t1 \<and>
     range_ok (Some k) (hole_hi kr hi) \<and> bst (Some k) (hole_hi kr hi) t2 \<and>
     bst_right kr rs hi"
  using bsts_plug [of ls kl lo "k # kr" t1 "t2 # rs" hi] bsts_plug [of "[]" "[]" "Some k" kr t2 rs hi]
  by (auto simp: hole_hi_def bst_right_def hole_lo_def)

lemma bsts_split:
  "length ts1 = Suc (length ks1) \<Longrightarrow>
   bsts lo (ks1 @ k # ks2) (ts1 @ ts2) hi \<longleftrightarrow> bsts lo ks1 ts1 (Some k) \<and> bsts (Some k) ks2 ts2 hi"
proof (induction ks1 arbitrary: lo ts1)
  case Nil
  then obtain t where "ts1 = [t]" by (auto simp: length_Suc_conv)
  then show ?case by auto
next
  case (Cons k' ks1)
  then obtain t ts where "ts1 = t # ts" by (cases ts1) auto
  with Cons show ?case by auto
qed

lemma range_ok_trans: "range_ok lo (Some k) \<Longrightarrow> range_ok (Some k) hi \<Longrightarrow> range_ok lo hi"
  by (auto simp: range_ok_def below_def split: option.splits)

lemma bsts_range: "bsts lo ks ts hi \<Longrightarrow> range_ok lo hi"
proof (induction ts arbitrary: lo ks)
  case (Cons t ts)
  then show ?case by (cases ks) (auto intro: range_ok_trans)
qed simp

lemma below_trans: "k < u \<Longrightarrow> range_ok (Some u) hi \<Longrightarrow> below k hi"
  by (auto simp: range_ok_def below_def split: option.splits)

lemma above_trans: "range_ok lo (Some l) \<Longrightarrow> l \<le> k \<Longrightarrow> above lo k"
  by (auto simp: range_ok_def below_def above_def split: option.splits)

lemma bsts_separators:
  "bsts lo ks ts hi \<Longrightarrow> sorted_wrt (<) ks \<and> (\<forall>k \<in> set ks. range_ok lo (Some k) \<and> below k hi)"
proof (induction ts arbitrary: lo ks)
  case (Cons t ts)
  show ?case
  proof (cases ks)
    case Nil
    then show ?thesis by simp
  next
    case (Cons k ks')
    with Cons.prems have *: "range_ok lo (Some k)" "bsts (Some k) ks' ts hi" by auto
    with Cons.IH have IH: "sorted_wrt (<) ks'" "\<forall>k' \<in> set ks'. range_ok (Some k) (Some k') \<and> below k' hi"
      by blast+
    have "below k hi" using bsts_range [OF *(2)] by (simp add: range_ok_def)
    with IH * show ?thesis
      using Cons by (auto simp: range_ok_def below_def split: option.splits)
  qed
qed simp

text \<open>The entries of an ordered tree are strictly sorted and lie within its bounds.\<close>

lemma bst_entries:
  "bst lo hi g \<Longrightarrow> sorted_wrt (<) (map fst (entries g)) \<and>
     (\<forall>k \<in> fst ` set (entries g). above lo k \<and> below k hi)"
  "bsts lo ks ts hi \<Longrightarrow> sorted_wrt (<) (map fst (entries_list ts)) \<and>
     (\<forall>k \<in> fst ` set (entries_list ts). above lo k \<and> below k hi)"
proof (induction lo hi g and lo ks ts hi rule: bst_bsts.induct)
  case (1 lo hi a ks vs)
  then have "map fst (zip ks vs) = ks" by simp
  moreover from this have "fst ` set (zip ks vs) = set ks" by (metis list.set_map)
  ultimately show ?case using 1 by simp
next
  case (4 lo ks t ts hi)
  show ?case
  proof (cases ks)
    case Nil
    with 4 show ?thesis by simp
  next
    case (Cons k ks')
    with 4 have t: "sorted_wrt (<) (map fst (entries t))"
        "\<forall>x \<in> fst ` set (entries t). above lo x \<and> x < k"
      and ts: "sorted_wrt (<) (map fst (entries_list ts))"
        "\<forall>x \<in> fst ` set (entries_list ts). k \<le> x \<and> below x hi"
      and b: "range_ok lo (Some k)" "range_ok (Some k) hi"
      using bsts_range by (auto simp: above_def below_def)
    have "\<forall>x \<in> fst ` set (entries t). below x hi" using t b(2) below_trans by blast
    moreover have "\<forall>x \<in> fst ` set (entries_list ts). above lo x" using ts b(1) above_trans by blast
    ultimately show ?thesis using t ts
      by (auto simp: sorted_wrt_append image_Un) force
  qed
qed auto

section \<open>Balance and fill\<close>

text \<open>\<open>bal d g\<close>: every leaf of \<open>g\<close> is \<open>d\<close> levels below its root.\<close>

fun bal :: "nat \<Rightarrow> gtree \<Rightarrow> bool" where
  "bal d (GLeaf a ks vs) \<longleftrightarrow> d = 0"
| "bal d (GNode a ks ts) \<longleftrightarrow> (\<exists>d'. d = Suc d' \<and> (\<forall>t \<in> set ts. bal d' t))"

text \<open>
  Fill of a node below the root: a split of a full leaf (63 keys and the new one) leaves 32 and
  32 keys, a split of a full internal node leaves 32 and 31.
\<close>

fun fill :: "gtree \<Rightarrow> bool" where
  "fill (GLeaf a ks vs) \<longleftrightarrow> 32 \<le> length ks \<and> length ks \<le> BPTREE_MAX_KEYS"
| "fill (GNode a ks ts) \<longleftrightarrow> 31 \<le> length ks \<and> length ks \<le> BPTREE_MAX_KEYS \<and> (\<forall>t \<in> set ts. fill t)"

fun root_fill :: "gtree \<Rightarrow> bool" where
  "root_fill (GLeaf a ks vs) \<longleftrightarrow> 1 \<le> length ks \<and> length ks \<le> BPTREE_MAX_KEYS"
| "root_fill (GNode a ks ts) \<longleftrightarrow> 1 \<le> length ks \<and> length ks \<le> BPTREE_MAX_KEYS \<and> (\<forall>t \<in> set ts. fill t)"

lemma fill_root_fill: "fill g \<Longrightarrow> root_fill g"
  by (cases g) auto

end
