(* ===== verification/Bptree_Path.thy ===== *)
theory Bptree_Path
  imports Bptree_Shape "HOL-Library.Multiset"
begin

text \<open>
  A tree taken apart along a path.  A frame is an internal node with a hole among its children;
  a list of frames, innermost first, leads from a node to the root.  \<open>gup\<close> is the insertion
  of a right sibling along such a path as a function on terms; it is what
  \<^verbatim>\<open>insert_into_parent\<close> does to the store (theory \<open>Bptree_Refine\<close>).
\<close>

section \<open>Frames\<close>

datatype frame = Frame addr "u64 list" "gtree list" "u64 list" "gtree list"

fun plug :: "gtree \<Rightarrow> frame list \<Rightarrow> gtree" where
  "plug t [] = t"
| "plug t (Frame a kl ls kr rs # fs) = plug (GNode a (kl @ kr) (ls @ t # rs)) fs"

fun top :: "frame list \<Rightarrow> addr option" where
  "top [] = None"
| "top (Frame a kl ls kr rs # fs) = Some a"

fun faddrs :: "frame list \<Rightarrow> addr list" where
  "faddrs [] = []"
| "faddrs (Frame a kl ls kr rs # fs) = a # gaddrs_list ls @ gaddrs_list rs @ faddrs fs"

fun fleft :: "(gtree \<Rightarrow> 'b list) \<Rightarrow> frame list \<Rightarrow> 'b list" where
  "fleft f [] = []"
| "fleft f (Frame a kl ls kr rs # fs) = fleft f fs @ concat (map f ls)"

fun fright :: "(gtree \<Rightarrow> 'b list) \<Rightarrow> frame list \<Rightarrow> 'b list" where
  "fright f [] = []"
| "fright f (Frame a kl ls kr rs # fs) = concat (map f rs) @ fright f fs"

fun flo :: "frame list \<Rightarrow> u64 option" where
  "flo [] = None"
| "flo (Frame a kl ls kr rs # fs) = hole_lo (flo fs) kl"

fun fhi :: "frame list \<Rightarrow> u64 option" where
  "fhi [] = None"
| "fhi (Frame a kl ls kr rs # fs) = hole_hi kr (fhi fs)"

fun bst_frames :: "frame list \<Rightarrow> bool" where
  "bst_frames [] \<longleftrightarrow> True"
| "bst_frames (Frame a kl ls kr rs # fs) \<longleftrightarrow>
     length ls = length kl \<and> length rs = length kr \<and>
     bst_left (flo fs) kl ls \<and> bst_right kr rs (fhi fs) \<and>
     range_ok (hole_lo (flo fs) kl) (hole_hi kr (fhi fs)) \<and> bst_frames fs"

fun bal_frames :: "nat \<Rightarrow> frame list \<Rightarrow> bool" where
  "bal_frames d [] \<longleftrightarrow> True"
| "bal_frames d (Frame a kl ls kr rs # fs) \<longleftrightarrow>
     (\<forall>t \<in> set ls \<union> set rs. bal d t) \<and> bal_frames (Suc d) fs"

fun fill_frames :: "frame list \<Rightarrow> bool" where
  "fill_frames [] \<longleftrightarrow> True"
| "fill_frames (Frame a kl ls kr rs # fs) \<longleftrightarrow>
     (\<forall>t \<in> set ls \<union> set rs. fill t) \<and> (if fs = [] then 1 else 31) \<le> length (kl @ kr) \<and>
     length (kl @ kr) \<le> BPTREE_MAX_KEYS \<and> fill_frames fs"

fun rep_frames :: "store \<Rightarrow> addr \<Rightarrow> frame list \<Rightarrow> bool" where
  "rep_frames h x [] \<longleftrightarrow> True"
| "rep_frames h x (Frame a kl ls kr rs # fs) \<longleftrightarrow>
     h a = Some \<lparr>is_leaf = False, keys = kl @ kr, parent = top fs, next_leaf = None,
                 children = map gaddr ls @ x # map gaddr rs, row_offsets = []\<rparr> \<and>
     (\<forall>t \<in> set ls \<union> set rs. rep h (Some a) t) \<and> rep_frames h a fs"

section \<open>Plugging\<close>

lemma bst_plug: "bst_frames fs \<Longrightarrow> bst None None (plug t fs) \<longleftrightarrow> bst (flo fs) (fhi fs) t"
proof (induction fs arbitrary: t)
  case (Cons F fs)
  then show ?case
    by (cases F) (simp add: bsts_plug)
qed simp

lemma bal_plug: "bal_frames d fs \<Longrightarrow> bal (d + length fs) (plug t fs) \<longleftrightarrow> bal d t"
proof (induction fs arbitrary: d t)
  case (Cons F fs)
  obtain a kl ls kr rs where F: "F = Frame a kl ls kr rs" by (cases F)
  with Cons.prems have "bal_frames (Suc d) fs" by simp
  then have "bal (Suc d + length fs) (plug (GNode a (kl @ kr) (ls @ t # rs)) fs)
      \<longleftrightarrow> bal (Suc d) (GNode a (kl @ kr) (ls @ t # rs))"
    by (rule Cons.IH)
  with Cons.prems F show ?case by auto
qed simp

lemma fill_plug:
  "fill_frames fs \<Longrightarrow> root_fill (plug t fs) \<longleftrightarrow> (if fs = [] then root_fill t else fill t)"
proof (induction fs arbitrary: t)
  case (Cons F fs)
  obtain a kl ls kr rs where F: "F = Frame a kl ls kr rs" by (cases F)
  with Cons.prems have "fill_frames fs" by simp
  from Cons.IH [OF this, of "GNode a (kl @ kr) (ls @ t # rs)"] Cons.prems F show ?case
    by (cases fs) auto
qed simp

lemma rep_plug:
  "rep h None (plug t fs) \<longleftrightarrow> rep h (top fs) t \<and> rep_frames h (gaddr t) fs"
proof (induction fs arbitrary: t)
  case (Cons F fs)
  obtain a kl ls kr rs where F: "F = Frame a kl ls kr rs" by (cases F)
  with Cons.IH [of "GNode a (kl @ kr) (ls @ t # rs)"] show ?case by auto
qed simp

lemma mset_gaddrs_plug: "mset (gaddrs (plug t fs)) = mset (gaddrs t) + mset (faddrs fs)"
proof (induction fs arbitrary: t)
  case (Cons F fs)
  obtain a kl ls kr rs where F: "F = Frame a kl ls kr rs" by (cases F)
  with Cons.IH [of "GNode a (kl @ kr) (ls @ t # rs)"] show ?case by simp
qed simp

lemma view_plug:
  assumes "\<And>a ks ts. f (GNode a ks ts) = concat (map f ts)"
  shows "f (plug t fs) = fleft f fs @ f t @ fright f fs"
proof (induction fs arbitrary: t)
  case (Cons F fs)
  obtain a kl ls kr rs where F: "F = Frame a kl ls kr rs" by (cases F)
  with Cons.IH [of "GNode a (kl @ kr) (ls @ t # rs)"] show ?case by (simp add: assms)
qed simp

lemmas entries_plug = view_plug [of entries, OF entries.simps(2)]
lemmas gleaves_plug = view_plug [of gleaves, OF gleaves.simps(2)]

lemma rep_frames_frame:
  "\<forall>a \<in> set (faddrs fs). h' a = h a \<Longrightarrow> rep_frames h' x fs \<longleftrightarrow> rep_frames h x fs"
proof (induction fs arbitrary: x)
  case (Cons F fs)
  obtain a kl ls kr rs where F: "F = Frame a kl ls kr rs" by (cases F)
  have "\<forall>t \<in> set ls \<union> set rs. \<forall>p. rep h' p t \<longleftrightarrow> rep h p t"
    using Cons.prems F by (auto intro!: rep_frame)
  then show ?case using Cons F by auto
qed simp

section \<open>Keys outside the hole\<close>

lemma bst_left_bsts:
  "bst_left lo kl ls \<Longrightarrow> kl \<noteq> [] \<Longrightarrow> bsts lo (butlast kl) ls (Some (last kl))"
proof (induction lo kl ls rule: bst_left.induct)
  case (1 lo k ks t ts)
  show ?case
  proof (cases "ks = []")
    case True
    with 1 show ?thesis by (cases ts) auto
  next
    case False
    with 1 show ?thesis by auto
  qed
qed auto

lemma fleft_below:
  "bst_frames fs \<Longrightarrow> k \<in> fst ` set (fleft entries fs) \<Longrightarrow> \<exists>l. flo fs = Some l \<and> k < l"
proof (induction fs)
  case (Cons F fs)
  obtain a kl ls kr rs where F: "F = Frame a kl ls kr rs" by (cases F)
  show ?case
  proof (cases "kl = []")
    case True
    with Cons F show ?thesis by (auto simp: hole_lo_def)
  next
    case False
    with Cons.prems F have b: "bsts (flo fs) (butlast kl) ls (Some (last kl))"
      using bst_left_bsts by simp
    have "k < last kl"
    proof (cases "k \<in> fst ` set (fleft entries fs)")
      case True
      with Cons F obtain l where "flo fs = Some l" "k < l" by auto
      with bsts_range [OF b] show ?thesis by (simp add: range_ok_def below_def)
    next
      case False
      with Cons.prems(2) F have "k \<in> fst ` set (entries_list ls)" by auto
      with bst_entries(2) [OF b] show ?thesis by (auto simp: below_def)
    qed
    with False F show ?thesis by (simp add: hole_lo_def)
  qed
qed simp

lemma fright_above:
  "bst_frames fs \<Longrightarrow> k \<in> fst ` set (fright entries fs) \<Longrightarrow> \<exists>u. fhi fs = Some u \<and> u \<le> k"
proof (induction fs)
  case (Cons F fs)
  obtain a kl ls kr rs where F: "F = Frame a kl ls kr rs" by (cases F)
  show ?case
  proof (cases kr)
    case Nil
    with Cons F show ?thesis by (auto simp: hole_hi_def bst_right_def)
  next
    case (Cons u kr')
    with Cons.prems F have b: "bsts (Some u) kr' rs (fhi fs)" by (simp add: bst_right_def)
    have "u \<le> k"
    proof (cases "k \<in> fst ` set (fright entries fs)")
      case True
      with Cons.IH Cons.prems F obtain w where "fhi fs = Some w" "w \<le> k" by auto
      with bsts_range [OF b] show ?thesis by (simp add: range_ok_def below_def)
    next
      case False
      with Cons.prems(2) F have "k \<in> fst ` set (entries_list rs)" by auto
      with bst_entries(2) [OF b] show ?thesis by (auto simp: above_def)
    qed
    with Cons F show ?thesis by (simp add: hole_hi_def)
  qed
qed simp

text \<open>A key inside the bounds of the hole occurs at the hole or nowhere.\<close>

lemma key_in_hole:
  assumes "bst_frames fs" "above (flo fs) k" "below k (fhi fs)"
  shows "k \<notin> fst ` set (fleft entries fs)" "k \<notin> fst ` set (fright entries fs)"
  using fleft_below [OF assms(1), of k] fright_above [OF assms(1), of k] assms(2,3)
  by (force simp: above_def below_def)+

lemma map_of_hole:
  assumes "bst_frames fs" "above (flo fs) k" "below k (fhi fs)"
  shows "map_of (fleft entries fs @ es @ fright entries fs) k = map_of es k"
proof -
  have "map_of (fleft entries fs) k = None" "map_of (fright entries fs) k = None"
    using key_in_hole [OF assms] by (simp_all add: map_of_eq_None_iff)
  then show ?thesis by (simp add: map_add_def split: option.split)
qed

section \<open>Descending\<close>

lemma child_index_takeWhile: "child_index ks k = length (takeWhile (\<lambda>x. x \<le> k) ks)"
  by (induction ks) auto

lemma child_index_le: "child_index ks k \<le> length ks"
  by (simp add: child_index_takeWhile length_takeWhile_le)

lemma child_index_bounds:
  assumes "above lo k" "below k hi"
  shows "above (hole_lo lo (take (child_index ks k) ks)) k"
    and "below k (hole_hi (drop (child_index ks k) ks) hi)"
proof -
  have t: "take (child_index ks k) ks = takeWhile (\<lambda>x. x \<le> k) ks"
    by (simp add: child_index_takeWhile takeWhile_eq_take [symmetric])
  have d: "drop (child_index ks k) ks = dropWhile (\<lambda>x. x \<le> k) ks"
    by (simp add: child_index_takeWhile dropWhile_eq_drop [symmetric])
  show "above (hole_lo lo (take (child_index ks k) ks)) k"
    using assms(1) set_takeWhileD [of "last (takeWhile (\<lambda>x. x \<le> k) ks)" "\<lambda>x. x \<le> k" ks]
    by (auto simp: t hole_lo_def above_def)
  show "below k (hole_hi (drop (child_index ks k) ks) hi)"
  proof (cases "dropWhile (\<lambda>x. x \<le> k) ks")
    case Nil
    with assms(2) show ?thesis unfolding d hole_hi_def Nil by simp
  next
    case (Cons y ys)
    then have "\<not> y \<le> k" using hd_dropWhile [of "\<lambda>x. x \<le> k" ks] by auto
    then show ?thesis unfolding d hole_hi_def Cons by (simp add: below_def)
  qed
qed

lemma node_at_rep [simp]:
  "rep h p (GLeaf a ks vs) \<Longrightarrow> is_leaf (node_at h a) \<and> keys (node_at h a) = ks \<and>
     parent (node_at h a) = p \<and> row_offsets (node_at h a) = vs"
  "rep h p (GNode a ks ts) \<Longrightarrow> node_at h a =
     \<lparr>is_leaf = False, keys = ks, parent = p, next_leaf = None, children = map gaddr ts, row_offsets = []\<rparr>"
  by (auto simp: node_at_def)

lemma find_leaf_path:
  assumes "bal d g" "bst (flo fs) (fhi fs) g" "bst_frames fs" "bal_frames d fs"
    "above (flo fs) k" "below k (fhi fs)" "rep h p g" "d < fuel"
  shows "\<exists>a ks vs fs'. find_leaf_node fuel h (Some (gaddr g)) k = Inr (Some a) \<and>
           plug g fs = plug (GLeaf a ks vs) fs' \<and> length fs' = length fs + d \<and>
           bst_frames fs' \<and> bal_frames 0 fs' \<and>
           bst (flo fs') (fhi fs') (GLeaf a ks vs) \<and>
           above (flo fs') k \<and> below k (fhi fs')"
  using assms
proof (induction d arbitrary: g fs p fuel)
  case 0
  then obtain a ks vs where g: "g = GLeaf a ks vs" by (cases g) auto
  obtain m where m: "fuel = Suc m" using 0 by (cases fuel) auto
  have "find_leaf_node fuel h (Some (gaddr g)) k = Inr (Some a)"
    using 0 g m node_at_rep(1) by simp
  with 0 g show ?case by (intro exI [of _ a] exI [of _ ks] exI [of _ vs] exI [of _ fs]) auto
next
  case (Suc d)
  then obtain a ks ts where g: "g = GNode a ks ts" by (cases g) auto
  obtain m where m: "fuel = Suc m" "d < m" using Suc.prems by (cases fuel) auto
  let ?i = "child_index ks k"
  let ?F = "Frame a (take ?i ks) (take ?i ts) (drop ?i ks) (drop (Suc ?i) ts)"
  have bs: "bsts (flo fs) ks ts (fhi fs)" using Suc.prems g by simp
  have len: "length ts = Suc (length ks)" using bsts_length [OF bs] .
  have i: "?i \<le> length ks" "?i < length ts" using child_index_le [of ks k] len by auto
  have ts: "ts = take ?i ts @ ts ! ?i # drop (Suc ?i) ts" using i(2) by (simp add: id_take_nth_drop)
  have ks: "ks = take ?i ks @ drop ?i ks" by simp
  have split: "bsts (flo fs) (take ?i ks @ drop ?i ks) (take ?i ts @ ts ! ?i # drop (Suc ?i) ts) (fhi fs)"
    using bs ts ks by metis
  have lens: "length (take ?i ts) = length (take ?i ks)" "length (drop (Suc ?i) ts) = length (drop ?i ks)"
    using i len by auto
  have hole: "bst (flo (?F # fs)) (fhi (?F # fs)) (ts ! ?i)" and fr: "bst_frames (?F # fs)"
    using split [unfolded bsts_plug [OF lens(1)]] lens Suc.prems(3) by simp_all
  have balts: "\<forall>t \<in> set ts. bal d t" using Suc.prems(1) g by auto
  have bf: "bal_frames d (?F # fs)"
    using balts Suc.prems(4) by (auto dest: in_set_takeD in_set_dropD)
  have bnd: "above (flo (?F # fs)) k" "below k (fhi (?F # fs))"
    using child_index_bounds [OF Suc.prems(5,6), of ks] by simp_all
  have mem: "ts ! ?i \<in> set ts" using i by simp
  have step: "find_leaf_node fuel h (Some (gaddr g)) k = find_leaf_node m h (Some (gaddr (ts ! ?i))) k"
    using node_at_rep(2) [OF Suc.prems(7) [unfolded g]] g m(1) i by (simp add: Let_def)
  have "rep h (Some a) (ts ! ?i)" using Suc.prems(7) g mem by auto
  from Suc.IH [OF _ hole fr bf bnd this m(2)] balts mem
  obtain a' ks' vs' fs' where
    "find_leaf_node m h (Some (gaddr (ts ! ?i))) k = Inr (Some a')"
    "plug (ts ! ?i) (?F # fs) = plug (GLeaf a' ks' vs') fs'" "length fs' = Suc (length fs) + d"
    "bst_frames fs'" "bal_frames 0 fs'" "bst (flo fs') (fhi fs') (GLeaf a' ks' vs')"
    "above (flo fs') k" "below k (fhi fs')"
    by auto
  moreover have "plug (ts ! ?i) (?F # fs) = plug g fs" using g ts ks by simp
  ultimately show ?case using step
    by (intro exI [of _ a'] exI [of _ ks'] exI [of _ vs'] exI [of _ fs']) simp
qed

section \<open>Inserting a right sibling along a path\<close>

text \<open>
  \<open>gup n l k r fs\<close>: the node at the hole of \<open>fs\<close> has been split into \<open>l\<close>
  and \<open>r\<close> with separator \<open>k\<close>; \<open>n\<close> is the next free address.
\<close>

fun gup :: "addr \<Rightarrow> gtree \<Rightarrow> u64 \<Rightarrow> gtree \<Rightarrow> frame list \<Rightarrow> gtree" where
  "gup n l k r [] = GNode n [k] [l, r]"
| "gup n l k r (Frame a kl ls kr rs # fs) =
     (let ks = kl @ k # kr; ts = ls @ l # r # rs in
      if length (kl @ kr) < BPTREE_MAX_KEYS then plug (GNode a ks ts) fs
      else let m = length ks div 2 in
           gup (Suc n) (GNode a (take m ks) (take (Suc m) ts)) (ks ! m)
             (GNode n (drop (Suc m) ks) (drop (Suc m) ts)) fs)"

fun allocs :: "frame list \<Rightarrow> nat" where
  "allocs [] = 1"
| "allocs (Frame a kl ls kr rs # fs) =
     (if length (kl @ kr) < BPTREE_MAX_KEYS then 0 else Suc (allocs fs))"

lemma allocs_le: "allocs fs \<le> Suc (length fs)"
  by (induction fs rule: allocs.induct) auto

lemma view_gup:
  assumes "\<And>a ks ts. f (GNode a ks ts) = concat (map f ts)"
  shows "f (gup n l k r fs) = fleft f fs @ f l @ f r @ fright f fs"
proof (induction n l k r fs rule: gup.induct)
  case (2 n l k r a kl ls kr rs fs)
  let ?ts = "ls @ l # r # rs"
  show ?case
  proof (cases "length (kl @ kr) < BPTREE_MAX_KEYS")
    case True
    then show ?thesis by (simp add: view_plug [OF assms] assms)
  next
    case False
    let ?m = "Suc (length (kl @ k # kr) div 2)"
    have "concat (map f (take ?m ?ts)) @ concat (map f (drop ?m ?ts)) = concat (map f ?ts)"
      by (metis append_take_drop_id concat_append map_append)
    with False 2 show ?thesis by (simp add: Let_def assms)
  qed
qed (simp add: assms)

lemmas entries_gup = view_gup [of entries, OF entries.simps(2)]
lemmas gleaves_gup = view_gup [of gleaves, OF gleaves.simps(2)]

lemma mset_gaddrs_take_drop:
  "mset (gaddrs_list (take m ts)) + mset (gaddrs_list (drop m ts)) = mset (gaddrs_list ts)"
  by (metis append_take_drop_id concat_append map_append mset_append)

lemma mset_gaddrs_gup:
  "mset (gaddrs (gup n l k r fs)) =
     mset (gaddrs l) + mset (gaddrs r) + mset (faddrs fs) + mset [n..<n + allocs fs]"
proof (induction n l k r fs rule: gup.induct)
  case (2 n l k r a kl ls kr rs fs)
  let ?ts = "ls @ l # r # rs"
  show ?case
  proof (cases "length (kl @ kr) < BPTREE_MAX_KEYS")
    case True
    then show ?thesis by (simp add: mset_gaddrs_plug)
  next
    case False
    let ?m = "Suc (length (kl @ k # kr) div 2)"
    have "[n..<n + Suc (allocs fs)] = n # [Suc n..<Suc n + allocs fs]"
      by (simp add: upt_conv_Cons)
    with False 2 mset_gaddrs_take_drop [of ?m ?ts] show ?thesis
      by (simp add: Let_def)
  qed
qed simp

lemma bst_gup:
  assumes "bst_frames fs" "bst (flo fs) (Some k) l" "bst (Some k) (fhi fs) r"
    "range_ok (flo fs) (Some k)" "range_ok (Some k) (fhi fs)"
  shows "bst None None (gup n l k r fs)"
  using assms
proof (induction n l k r fs rule: gup.induct)
  case (1 n l k r)
  then show ?case by simp
next
  case (2 n l k r a kl ls kr rs fs)
  let ?ts = "ls @ l # r # rs" and ?ks = "kl @ k # kr"
  let ?m = "length ?ks div 2"
  have fs: "bst_frames fs" "length ls = length kl" "length rs = length kr" using "2.prems" by auto
  have all: "bsts (flo fs) ?ks ?ts (fhi fs)"
    using "2.prems" fs by (simp add: bsts_plug2)
  show ?case
  proof (cases "length (kl @ kr) < BPTREE_MAX_KEYS")
    case True
    with all fs show ?thesis by (simp add: bst_plug)
  next
    case False
    have m: "?m < length ?ks" by simp
    have ks: "?ks = take ?m ?ks @ ?ks ! ?m # drop (Suc ?m) ?ks" by (rule id_take_nth_drop [OF m])
    have len: "length (take (Suc ?m) ?ts) = Suc (length (take ?m ?ks))" using fs by auto
    have "bsts (flo fs) (take ?m ?ks @ ?ks ! ?m # drop (Suc ?m) ?ks)
        (take (Suc ?m) ?ts @ drop (Suc ?m) ?ts) (fhi fs)"
      using all ks by (metis append_take_drop_id)
    then have b: "bsts (flo fs) (take ?m ?ks) (take (Suc ?m) ?ts) (Some (?ks ! ?m))"
      "bsts (Some (?ks ! ?m)) (drop (Suc ?m) ?ks) (drop (Suc ?m) ?ts) (fhi fs)"
      unfolding bsts_split [OF len] by auto
    have "bst None None (gup (Suc n) (GNode a (take ?m ?ks) (take (Suc ?m) ?ts)) (?ks ! ?m)
        (GNode n (drop (Suc ?m) ?ks) (drop (Suc ?m) ?ts)) fs)"
      using b by (intro "2.IH" [OF refl refl False refl fs(1)]) (auto dest: bsts_range)
    with False show ?thesis by (simp add: Let_def del: append_Cons)
  qed
qed

lemma bal_gup:
  assumes "bal d l" "bal d r" "bal_frames d fs"
  shows "\<exists>d' \<le> Suc (d + length fs). bal d' (gup n l k r fs)"
  using assms
proof (induction n l k r fs arbitrary: d rule: gup.induct)
  case (1 n l k r)
  then show ?case by (intro exI [of _ "Suc d"]) simp
next
  case (2 n l k r a kl ls kr rs fs)
  let ?ts = "ls @ l # r # rs"
  have ts: "\<forall>t \<in> set ?ts. bal d t" and fs: "bal_frames (Suc d) fs" using "2.prems" by auto
  show ?case
  proof (cases "length (kl @ kr) < BPTREE_MAX_KEYS")
    case True
    with ts have "bal (Suc d + length fs) (gup n l k r (Frame a kl ls kr rs # fs))"
      by (simp add: bal_plug [OF fs, simplified])
    then show ?thesis
      by (intro exI [of _ "Suc d + length fs"] conjI) (simp_all del: gup.simps)
  next
    case False
    let ?m = "length (kl @ k # kr) div 2"
    have "bal (Suc d) (GNode a (take ?m (kl @ k # kr)) (take (Suc ?m) ?ts))"
      "bal (Suc d) (GNode n (drop (Suc ?m) (kl @ k # kr)) (drop (Suc ?m) ?ts))"
      using ts by (auto dest!: in_set_takeD in_set_dropD)
    from "2.IH" [OF refl refl False refl this fs] False show ?thesis
      by (simp add: Let_def del: append_Cons bal.simps)
  qed
qed

lemma fill_gup:
  assumes "fill l" "fill r" "fill_frames fs" "bst_frames fs"
  shows "root_fill (gup n l k r fs)"
  using assms
proof (induction n l k r fs rule: gup.induct)
  case (1 n l k r)
  then show ?case by (simp add: BPTREE_MAX_KEYS_def BPTREE_ORDER_def)
next
  case (2 n l k r a kl ls kr rs fs)
  let ?ts = "ls @ l # r # rs"
  have ts: "\<forall>t \<in> set ?ts. fill t" and fs: "fill_frames fs" "bst_frames fs" using "2.prems" by auto
  show ?case
  proof (cases "length (kl @ kr) < BPTREE_MAX_KEYS")
    case True
    with ts "2.prems" show ?thesis by (auto simp: fill_plug [OF fs(1)])
  next
    case False
    with "2.prems" have len: "length (kl @ k # kr) = 64"
      by (simp add: BPTREE_MAX_KEYS_def BPTREE_ORDER_def)
    let ?m = "length (kl @ k # kr) div 2"
    have "fill (GNode a (take ?m (kl @ k # kr)) (take (Suc ?m) ?ts))"
      "fill (GNode n (drop (Suc ?m) (kl @ k # kr)) (drop (Suc ?m) ?ts))"
      using ts len
      by (auto dest!: in_set_takeD in_set_dropD simp: BPTREE_MAX_KEYS_def BPTREE_ORDER_def
            simp del: append_Cons)
    from "2.IH" [OF refl refl False refl this fs] False show ?thesis
      by (simp add: Let_def del: append_Cons)
  qed
qed

end
