(* ===== verification/Bptree_Refine.thy ===== *)
theory Bptree_Refine
  imports Bptree_Path
begin

text \<open>
  The store operations of \<^verbatim>\<open>bptree.c\<close> refine the term operations: a split of an
  internal node and the whole climb of \<^verbatim>\<open>insert_into_parent\<close> take a store that
  represents the path to the split node to a store that represents \<open>gup\<close> of that path.
\<close>

section \<open>Single updates\<close>

lemma upd_apply [simp]: "upd a f h x = (if x = a then map_option f (h a) else h x)"
  by (simp add: upd_def split: option.split)

lemma set_parent_apply [simp]:
  "set_parent p a h x = (if x = a then map_option (\<lambda>n. n\<lparr>parent := p\<rparr>) (h a) else h x)"
  by (simp add: set_parent_def)

lemma fold_set_parent [simp]:
  "fold (set_parent p) as h x =
     (if x \<in> set as then map_option (\<lambda>n. n\<lparr>parent := p\<rparr>) (h x) else h x)"
proof (induction as arbitrary: h)
  case (Cons a as)
  have "map_option (\<lambda>n. n\<lparr>parent := p\<rparr>) (map_option (\<lambda>n. n\<lparr>parent := p\<rparr>) y)
      = map_option (\<lambda>n. n\<lparr>parent := p\<rparr>) (y :: bpnode option)" for y
    by (cases y) simp_all
  then show ?case unfolding fold_simps(2) Cons.IH by simp
qed simp

definition can_alloc :: "nat \<Rightarrow> bptree \<Rightarrow> bool" where
  "can_alloc n t \<longleftrightarrow> (case node_limit t of None \<Rightarrow> True | Some m \<Rightarrow> fresh t + n \<le> m)"

lemma create_node_ok:
  "can_alloc (Suc n) t \<Longrightarrow> create_node leaf t =
     (Some (fresh t),
      t\<lparr>cells := (cells t)(fresh t \<mapsto> \<lparr>is_leaf = leaf, keys = [], parent = None, next_leaf = None,
                                           children = [], row_offsets = []\<rparr>),
        fresh := Suc (fresh t)\<rparr>)"
  by (auto simp: create_node_def can_alloc_def split: option.splits)

lemma insert_at_middle: "length xs = i \<Longrightarrow> insert_at i y (xs @ zs) = xs @ y # zs"
  by (simp add: insert_at_def)

lemma insert_at_after: "length xs = i \<Longrightarrow> insert_at (Suc i) y (xs @ x # zs) = xs @ x # y # zs"
  by (simp add: insert_at_def)

lemma child_position_middle: "a \<notin> set xs \<Longrightarrow> child_position (xs @ a # ys) a = length xs"
  by (induction xs) auto

lemma gaddr_plug_cong: "gaddr t = gaddr t' \<Longrightarrow> gaddr (plug t fs) = gaddr (plug t' fs)"
proof (induction fs arbitrary: t t')
  case (Cons F fs)
  then show ?case by (cases F) simp
qed simp

lemma gaddr_distinct:
  assumes "distinct (gaddrs_list (ts1 @ t # ts2))"
  shows "gaddr t \<notin> gaddr ` set (ts1 @ ts2)"
proof
  assume "gaddr t \<in> gaddr ` set (ts1 @ ts2)"
  then obtain u where u: "u \<in> set (ts1 @ ts2)" "gaddr t = gaddr u" by auto
  then have "gaddr t \<in> set (gaddrs u)" by simp
  then have "gaddr t \<in> set (gaddrs_list ts1) \<union> set (gaddrs_list ts2)" using u(1) by auto
  moreover have "gaddr t \<in> set (gaddrs t)" by simp
  moreover have "set (gaddrs t) \<inter> (set (gaddrs_list ts1) \<union> set (gaddrs_list ts2)) = {}"
    using assms by auto
  ultimately show False by blast
qed

text \<open>Changing the parent field of the roots of a list of disjoint subtrees.\<close>

lemma rep_reparent_list:
  assumes "\<forall>t \<in> set ts. \<exists>p. rep h p t" "distinct (gaddrs_list ts)"
    and "\<forall>x \<in> set (gaddrs_list ts) - gaddr ` set ts. h' x = h x"
    and "\<forall>x \<in> gaddr ` set ts. h' x = map_option (\<lambda>n. n\<lparr>parent := q\<rparr>) (h x)"
    and "t \<in> set ts"
  shows "rep h' q t"
proof -
  obtain us vs where ts: "ts = us @ t # vs" using assms(5) by (metis split_list)
  from assms(1,5) obtain p where p: "rep h p t" by auto
  have "x \<notin> gaddr ` set ts" if "x \<in> set (gaddrs t) - {gaddr t}" for x
  proof
    assume "x \<in> gaddr ` set ts"
    with that obtain u where "u \<in> set us \<union> set vs" "x = gaddr u" using ts by auto
    then have "x \<in> set (gaddrs_list (us @ vs))" by force
    with that assms(2) ts show False by auto
  qed
  then have "\<forall>x \<in> set (gaddrs t) - {gaddr t}. h' x = h x" using assms(3) ts by auto
  with p show ?thesis
    using assms(2,4,5) ts by (intro rep_reparent [OF p]) auto
qed

section \<open>Splitting an internal node\<close>

text \<open>
  The store after a split of node \<open>a\<close>: its lower half keeps the subtrees \<open>ls\<close>, the new
  node \<open>b\<close> gets \<open>rs\<close>.
\<close>

definition split_store :: "(addr \<rightharpoonup> bpnode) \<Rightarrow> addr \<Rightarrow> addr \<Rightarrow> addr option \<Rightarrow> u64 list \<Rightarrow> u64 list \<Rightarrow>
    gtree list \<Rightarrow> gtree list \<Rightarrow> addr \<rightharpoonup> bpnode" where
  "split_store h a b p kl kr ls rs =
     fold (set_parent (Some b)) (map gaddr rs)
       (upd b (\<lambda>n. n\<lparr>keys := kr, parent := p, children := map gaddr rs\<rparr>)
         (fold (set_parent (Some a)) (map gaddr ls)
           (upd a (\<lambda>n. n\<lparr>keys := kl, children := map gaddr ls\<rparr>)
             (h(b \<mapsto> \<lparr>is_leaf = False, keys = [], parent = None, next_leaf = None, children = [], row_offsets = []\<rparr>)))))"

lemma gaddr_in_list: "x \<in> gaddr ` set us \<Longrightarrow> x \<in> set (gaddrs_list us)"
  by force

lemma split_store_apply:
  assumes "distinct (a # b # gaddrs_list ls @ gaddrs_list rs)" "h a = Some n"
  shows "split_store h a b p kl kr ls rs x =
    (if x = a then Some (n\<lparr>keys := kl, children := map gaddr ls\<rparr>)
     else if x = b then Some \<lparr>is_leaf = False, keys = kr, parent = p, next_leaf = None, children = map gaddr rs, row_offsets = []\<rparr>
     else if x \<in> gaddr ` set ls then map_option (\<lambda>n. n\<lparr>parent := Some a\<rparr>) (h x)
     else if x \<in> gaddr ` set rs then map_option (\<lambda>n. n\<lparr>parent := Some b\<rparr>) (h x)
     else h x)"
proof -
  have "a \<notin> gaddr ` set (ls @ rs)" "b \<notin> gaddr ` set (ls @ rs)" "a \<noteq> b"
    using assms(1) gaddr_in_list [of _ "ls @ rs"] by auto
  moreover have "x \<notin> gaddr ` set ls \<or> x \<notin> gaddr ` set rs"
    using assms(1) gaddr_in_list [of x ls] gaddr_in_list [of x rs] unfolding distinct_append distinct.simps(2) by blast
  ultimately show ?thesis using assms(2) by (auto simp: split_store_def)
qed

text \<open>The subtrees keep what they represent, below their new parents.\<close>

lemma split_store_rep:
  assumes dist: "distinct (a # b # gaddrs_list ls @ gaddrs_list rs)" and a: "h a = Some n"
    and reps: "\<forall>u \<in> set (ls @ rs). \<exists>q. rep h q u"
  shows "u \<in> set ls \<Longrightarrow> rep (split_store h a b p kl kr ls rs) (Some a) u"
    and "u \<in> set rs \<Longrightarrow> rep (split_store h a b p kl kr ls rs) (Some b) u"
proof -
  note S = split_store_apply [of a b ls rs h n p kl kr, OF dist a]
  have sub: "x \<in> set (gaddrs_list ls) \<or> x \<in> set (gaddrs_list rs) \<Longrightarrow> x \<noteq> a \<and> x \<noteq> b" for x
    using dist by auto
  have dj: "x \<in> set (gaddrs_list ls) \<Longrightarrow> x \<notin> set (gaddrs_list rs)" for x using dist by auto
  have inner: "split_store h a b p kl kr ls rs x = h x"
    if "x \<in> set (gaddrs_list ls) - gaddr ` set ls \<or> x \<in> set (gaddrs_list rs) - gaddr ` set rs" for x
  proof -
    have "x \<noteq> a" "x \<noteq> b" "x \<notin> gaddr ` set ls" "x \<notin> gaddr ` set rs" using that sub dj gaddr_in_list by blast+
    then show ?thesis by (simp add: S)
  qed
  have left: "split_store h a b p kl kr ls rs x = map_option (\<lambda>n. n\<lparr>parent := Some a\<rparr>) (h x)" if "x \<in> gaddr ` set ls" for x
  proof -
    have "x \<noteq> a" "x \<noteq> b" using that sub gaddr_in_list by blast+
    with that show ?thesis by (simp add: S)
  qed
  have right: "split_store h a b p kl kr ls rs x = map_option (\<lambda>n. n\<lparr>parent := Some b\<rparr>) (h x)" if "x \<in> gaddr ` set rs" for x
  proof -
    have "x \<noteq> a" "x \<noteq> b" "x \<notin> gaddr ` set ls" using that sub dj gaddr_in_list by blast+
    with that show ?thesis by (simp add: S)
  qed
  show "rep (split_store h a b p kl kr ls rs) (Some a) u" if "u \<in> set ls"
    by (rule rep_reparent_list [OF _ _ _ _ that, of h]) (use reps dist inner left in auto)
  show "rep (split_store h a b p kl kr ls rs) (Some b) u" if "u \<in> set rs"
    by (rule rep_reparent_list [OF _ _ _ _ that, of h]) (use reps dist inner right in auto)
qed

lemma split_internal_store:
  assumes node: "cells t a = Some \<lparr>is_leaf = False, keys = kl @ kr, parent = p, next_leaf = None,
                    children = map gaddr ls @ gaddr l # map gaddr rs, row_offsets = []\<rparr>"
    and "length ls = length kl" "can_alloc (Suc n) t"
    and ks: "ks = kl @ k # kr" and ts: "ts = ls @ l # r # rs" and m: "m = length ks div 2"
  shows "split_internal t a (length kl) k (gaddr r) = Some (ks ! m, fresh t,
    t\<lparr>cells := split_store (cells t) a (fresh t) p (take m ks) (drop (Suc m) ks) (take (Suc m) ts) (drop (Suc m) ts),
      fresh := Suc (fresh t)\<rparr>)"
proof -
  have at: "node_at (cells t) a = \<lparr>is_leaf = False, keys = kl @ kr, parent = p, next_leaf = None,
      children = map gaddr ls @ gaddr l # map gaddr rs, row_offsets = []\<rparr>"
    using node by (simp add: node_at_def)
  have tk: "insert_at (length kl) k (kl @ kr) = ks" by (simp add: ks insert_at_middle)
  have tc: "insert_at (length kl + 1) (gaddr r) (map gaddr ls @ gaddr l # map gaddr rs) = map gaddr ts"
    using insert_at_after [of "map gaddr ls" "length kl"] assms(2) by (simp add: ts)
  have m': "(key_count (node_at (cells t) a) + 1) div 2 = m" by (simp add: at key_count_def m ks)
  show ?thesis
    unfolding split_internal_def create_node_ok [OF assms(3)] Let_def m' split_store_def
    by (simp add: at tk tc [simplified] take_map drop_map)
qed

lemma split_internal_spec:
  assumes node: "cells t a = Some \<lparr>is_leaf = False, keys = kl @ kr, parent = p, next_leaf = None,
                    children = map gaddr ls @ gaddr l # map gaddr rs, row_offsets = []\<rparr>"
    and reps: "\<forall>x \<in> set (ls @ l # r # rs). \<exists>p. rep (cells t) p x"
    and dist: "distinct (a # gaddrs_list (ls @ l # r # rs))"
    and bound: "set (a # gaddrs_list (ls @ l # r # rs)) \<subseteq> {..<fresh t}"
    and lens: "length ls = length kl" "length rs = length kr"
    and room: "can_alloc (Suc n) t"
    and ks: "ks = kl @ k # kr" and ts: "ts = ls @ l # r # rs" and m: "m = length ks div 2"
  shows "\<exists>t1. split_internal t a (length kl) k (gaddr r) = Some (ks ! m, fresh t, t1) \<and>
     rep (cells t1) p (GNode a (take m ks) (take (Suc m) ts)) \<and>
     rep (cells t1) p (GNode (fresh t) (drop (Suc m) ks) (drop (Suc m) ts)) \<and>
     fresh t1 = Suc (fresh t) \<and> node_limit t1 = node_limit t \<and> root t1 = root t \<and>
     tree_key_count t1 = tree_key_count t \<and> dom (cells t1) = insert (fresh t) (dom (cells t)) \<and>
     (\<forall>x. x \<notin> insert (fresh t) (set (a # gaddrs_list ts)) \<longrightarrow> cells t1 x = cells t x) \<and>
     (\<forall>x < fresh t. map_option next_leaf (cells t1 x) = map_option next_leaf (cells t x))"
proof -
  let ?b = "fresh t" and ?L = "take (Suc m) ts" and ?R = "drop (Suc m) ts"
  let ?h = "split_store (cells t) a ?b p (take m ks) (drop (Suc m) ks) ?L ?R"
  have LR: "gaddrs_list ts = gaddrs_list ?L @ gaddrs_list ?R" by (metis append_take_drop_id concat_append map_append)
  have d: "distinct (a # ?b # gaddrs_list ?L @ gaddrs_list ?R)"
    using dist bound unfolding ts [symmetric] LR by auto
  have "\<forall>u \<in> set (?L @ ?R). \<exists>q. rep (cells t) q u" using reps unfolding ts [symmetric] append_take_drop_id .
  note R = split_store_rep [where h = "cells t", OF d node this] and S = split_store_apply [where h = "cells t", OF d node]
  have "rep ?h p (GNode a (take m ks) ?L)" "rep ?h p (GNode ?b (drop (Suc m) ks) ?R)"
    using R d by (simp_all add: S)
  moreover have "dom ?h = insert ?b (dom (cells t))" using S node by (auto simp: dom_def split: if_splits)
  moreover have "?h x = cells t x" if "x \<notin> insert ?b (set (a # gaddrs_list ts))" for x
    using that gaddr_in_list [of x ?L] gaddr_in_list [of x ?R] S [where x = x] LR by auto
  moreover have "map_option next_leaf (?h x) = map_option next_leaf (cells t x)" if "x < ?b" for x
    using that node by (cases "cells t x") (auto simp: S)
  ultimately show ?thesis using split_internal_store [OF node lens(1) room ks ts m] by simp
qed

section \<open>Climbing to the root\<close>

text \<open>The state in which \<^verbatim>\<open>insert_into_parent\<close> is called.\<close>

definition split_state :: "bptree \<Rightarrow> gtree \<Rightarrow> gtree \<Rightarrow> frame list \<Rightarrow> bool" where
  "split_state t l r fs \<longleftrightarrow>
     rep (cells t) (top fs) l \<and> rep_frames (cells t) (gaddr l) fs \<and> (\<exists>q. rep (cells t) q r) \<and>
     distinct (gaddrs l @ gaddrs r @ faddrs fs) \<and>
     set (gaddrs l @ gaddrs r @ faddrs fs) \<subseteq> {..<fresh t} \<and>
     bst_frames fs \<and> root t = Some (gaddr (plug l fs))"

text \<open>What a call changes: the new tree, the allocation counter, and no \<^verbatim>\<open>next\<close> pointer.\<close>

definition climbed :: "bptree \<Rightarrow> bptree \<Rightarrow> gtree \<Rightarrow> nat \<Rightarrow> bool" where
  "climbed t t' g n \<longleftrightarrow>
     rep (cells t') None g \<and> root t' = Some (gaddr g) \<and> fresh t' = fresh t + n \<and>
     node_limit t' = node_limit t \<and> tree_key_count t' = tree_key_count t \<and>
     dom (cells t') = dom (cells t) \<union> {fresh t..<fresh t'} \<and>
     (\<forall>x < fresh t. map_option next_leaf (cells t' x) = map_option next_leaf (cells t x))"

lemma climb_new_root:
  assumes st: "split_state t l r []" and room: "can_alloc 1 t"
  shows "\<exists>t'. insert_into_parent (Suc fuel) t (gaddr l) k (gaddr r) = (Inr (), t') \<and>
              climbed t t' (gup (fresh t) l k r []) 1"
proof -
  let ?n = "fresh t"
  obtain q where l: "rep (cells t) None l" and r: "rep (cells t) q r"
    and dist: "distinct (gaddrs l @ gaddrs r)" and bound: "set (gaddrs l @ gaddrs r) \<subseteq> {..<?n}"
    using st by (auto simp: split_state_def)
  have par: "parent (node_at (cells t) (gaddr l)) = None"
    using rep_root [OF l] by (auto simp: node_at_def)
  let ?h = "set_parent (Some ?n) (gaddr r) (set_parent (Some ?n) (gaddr l)
     (upd ?n (\<lambda>m. m\<lparr>keys := [k], children := [gaddr l, gaddr r]\<rparr>)
        ((cells t)(?n \<mapsto> \<lparr>is_leaf = False, keys = [], parent = None, next_leaf = None,
                            children = [], row_offsets = []\<rparr>))))"
  let ?t' = "t\<lparr>cells := ?h, fresh := Suc ?n, root := Some ?n\<rparr>"
  have eq: "insert_into_parent (Suc fuel) t (gaddr l) k (gaddr r) = (Inr (), ?t')"
    using create_node_ok [OF room [unfolded One_nat_def], of False] par by simp
  have ne: "\<And>x. x \<in> set (gaddrs l) \<Longrightarrow> x \<noteq> ?n \<and> x \<noteq> gaddr r"
    "\<And>x. x \<in> set (gaddrs r) \<Longrightarrow> x \<noteq> ?n \<and> x \<noteq> gaddr l"
    using dist bound gaddr_in_gaddrs by (auto, blast+)
  have "rep ?h (Some ?n) l"
    using dist ne gaddr_in_gaddrs [of l] by (intro rep_reparent [OF l]) auto
  moreover have "rep ?h (Some ?n) r"
    using dist ne gaddr_in_gaddrs [of r] by (intro rep_reparent [OF r]) auto
  moreover have "?h ?n = Some \<lparr>is_leaf = False, keys = [k], parent = None, next_leaf = None,
      children = [gaddr l, gaddr r], row_offsets = []\<rparr>"
    using ne gaddr_in_gaddrs by fastforce
  moreover have "dom ?h = insert ?n (dom (cells t))"
    by (auto simp: dom_def split: if_splits)
  moreover have "map_option next_leaf (?h x) = map_option next_leaf (cells t x)" if "x < ?n" for x
    using that by (cases "cells t x") auto
  ultimately have "climbed t ?t' (gup ?n l k r []) 1"
    unfolding climbed_def by simp
  with eq show ?thesis by blast
qed

lemma frame_addrs_perm:
  "mset (gaddrs l @ gaddrs r @ faddrs (Frame a kl ls kr rs # fs)) =
   mset (a # gaddrs_list (ls @ l # r # rs) @ faddrs fs)"
  by simp

lemma split_state_frame:
  assumes "split_state t l r (Frame a kl ls kr rs # fs)"
  obtains q where "rep (cells t) (Some a) l" "rep (cells t) q r"
    "cells t a = Some \<lparr>is_leaf = False, keys = kl @ kr, parent = top fs, next_leaf = None,
        children = map gaddr ls @ gaddr l # map gaddr rs, row_offsets = []\<rparr>"
    "\<forall>x \<in> set ls \<union> set rs. rep (cells t) (Some a) x" "rep_frames (cells t) a fs"
    "distinct (a # gaddrs_list (ls @ l # r # rs) @ faddrs fs)"
    "set (a # gaddrs_list (ls @ l # r # rs) @ faddrs fs) \<subseteq> {..<fresh t}"
    "length ls = length kl" "length rs = length kr" "bst_frames fs"
    "root t = Some (gaddr (plug (GNode a (kl @ kr) (ls @ l # rs)) fs))"
proof -
  note perm = frame_addrs_perm [of l r a kl ls kr rs fs]
  have "distinct (gaddrs l @ gaddrs r @ faddrs (Frame a kl ls kr rs # fs))"
    "set (gaddrs l @ gaddrs r @ faddrs (Frame a kl ls kr rs # fs)) \<subseteq> {..<fresh t}"
    using assms by (simp_all only: split_state_def)
  then have "distinct (a # gaddrs_list (ls @ l # r # rs) @ faddrs fs)"
    "set (a # gaddrs_list (ls @ l # r # rs) @ faddrs fs) \<subseteq> {..<fresh t}"
    using mset_eq_imp_distinct_iff [OF perm] mset_eq_setD [OF perm] by (simp_all only:)
  moreover obtain q where "rep (cells t) q r" using assms by (auto simp: split_state_def)
  ultimately show thesis
    using assms unfolding split_state_def rep_frames.simps top.simps bst_frames.simps plug.simps
    by (intro that [of q]) blast+
qed

lemma hole_position:
  assumes "distinct (a # gaddrs_list (ls @ l # r # rs) @ as)"
  shows "child_position (map gaddr ls @ gaddr l # map gaddr rs) (gaddr l) = length ls"
proof -
  have "distinct (gaddrs_list (ls @ l # (r # rs)))" using assms by (simp only: distinct_append distinct.simps)
  then have "gaddr l \<notin> gaddr ` set (ls @ (r # rs))" by (rule gaddr_distinct)
  then have "gaddr l \<notin> set (map gaddr ls)" by auto
  then show ?thesis by (simp add: child_position_middle)
qed

text \<open>One call at a frame: with space the node takes the key and the new child, and otherwise it is split.\<close>

lemma insert_into_parent_frame:
  assumes "split_state t l r (Frame a kl ls kr rs # fs)"
  shows "length (kl @ kr) < BPTREE_MAX_KEYS \<Longrightarrow> insert_into_parent (Suc fuel) t (gaddr l) k (gaddr r) =
      (Inr (), insert_into_internal_node t a (length kl) k (gaddr r))"
    and "length (kl @ kr) = BPTREE_MAX_KEYS \<Longrightarrow> insert_into_parent (Suc fuel) t (gaddr l) k (gaddr r) =
      split_internal_and_insert fuel t a (length kl) k (gaddr r)"
proof -
  obtain q where l: "rep (cells t) (Some a) l"
    and a: "cells t a = Some \<lparr>is_leaf = False, keys = kl @ kr, parent = top fs, next_leaf = None,
              children = map gaddr ls @ gaddr l # map gaddr rs, row_offsets = []\<rparr>"
    and dist: "distinct (a # gaddrs_list (ls @ l # r # rs) @ faddrs fs)" and lens: "length ls = length kl"
    by (rule split_state_frame [OF assms])
  have "parent (node_at (cells t) (gaddr l)) = Some a"
    using rep_root [OF l] by (auto simp: node_at_def)
  moreover have "child_position (map gaddr ls @ gaddr l # map gaddr rs) (gaddr l) = length kl"
    using hole_position [OF dist] lens by simp
  ultimately show "length (kl @ kr) < BPTREE_MAX_KEYS \<Longrightarrow> insert_into_parent (Suc fuel) t (gaddr l) k (gaddr r) =
      (Inr (), insert_into_internal_node t a (length kl) k (gaddr r))"
    and "length (kl @ kr) = BPTREE_MAX_KEYS \<Longrightarrow> insert_into_parent (Suc fuel) t (gaddr l) k (gaddr r) =
      split_internal_and_insert fuel t a (length kl) k (gaddr r)"
    using a by (simp_all add: node_at_def key_count_def)
qed

lemma insert_into_internal_store:
  assumes "cells t a = Some \<lparr>is_leaf = False, keys = kl @ kr, parent = p, next_leaf = None,
              children = map gaddr ls @ gaddr l # map gaddr rs, row_offsets = []\<rparr>"
    and "length ls = length kl" "gaddr r \<noteq> a"
  shows "cells (insert_into_internal_node t a (length kl) k (gaddr r)) x =
    (if x = a then Some \<lparr>is_leaf = False, keys = kl @ k # kr, parent = p, next_leaf = None,
              children = map gaddr (ls @ l # r # rs), row_offsets = []\<rparr>
     else if x = gaddr r then map_option (\<lambda>n. n\<lparr>parent := Some a\<rparr>) (cells t x) else cells t x)"
proof -
  have "insert_at (length kl) k (kl @ kr) = kl @ k # kr"
    "insert_at (length kl + 1) (gaddr r) (map gaddr ls @ gaddr l # map gaddr rs) = map gaddr (ls @ l # r # rs)"
    using insert_at_middle [of kl "length kl" k kr]
      insert_at_after [of "map gaddr ls" "length kl" "gaddr r" "gaddr l" "map gaddr rs"] assms(2) by simp_all
  then show ?thesis using assms by (auto simp: insert_into_internal_node_def)
qed

lemma climb_insert:
  assumes st: "split_state t l r (Frame a kl ls kr rs # fs)"
    and space: "length (kl @ kr) < BPTREE_MAX_KEYS"
  shows "\<exists>t'. insert_into_parent (Suc fuel) t (gaddr l) k (gaddr r) = (Inr (), t') \<and>
              climbed t t' (gup (fresh t) l k r (Frame a kl ls kr rs # fs)) 0"
proof -
  obtain q where l: "rep (cells t) (Some a) l" and r: "rep (cells t) q r"
    and a: "cells t a = Some \<lparr>is_leaf = False, keys = kl @ kr, parent = top fs, next_leaf = None,
              children = map gaddr ls @ gaddr l # map gaddr rs, row_offsets = []\<rparr>"
    and sib: "\<forall>x \<in> set ls \<union> set rs. rep (cells t) (Some a) x" and fr: "rep_frames (cells t) a fs"
    and dist: "distinct (a # gaddrs_list (ls @ l # r # rs) @ faddrs fs)"
    and lens: "length ls = length kl" "length rs = length kr"
    and rt: "root t = Some (gaddr (plug (GNode a (kl @ kr) (ls @ l # rs)) fs))"
    by (rule split_state_frame [OF st])
  let ?t' = "insert_into_internal_node t a (length kl) k (gaddr r)"
  have ra: "gaddr r \<noteq> a" using dist gaddr_in_gaddrs [of r] by auto
  note h' = insert_into_internal_store [OF a lens(1) ra, of k]
  have dist': "distinct (gaddrs r)" "a \<notin> set (gaddrs r)" using dist by auto
  have "rep (cells ?t') (Some a) r"
    using dist' h' by (intro rep_reparent [OF r]) auto
  moreover have "rep (cells ?t') (Some a) x" if "x \<in> set (ls @ l # rs)" for x
  proof -
    have "set (gaddrs x) \<inter> insert a (set (gaddrs r)) = {}" using dist that by auto
    then have "\<forall>y \<in> set (gaddrs x). cells ?t' y = cells t y"
      using h' gaddr_in_gaddrs [of r] by auto
    then show ?thesis using that l sib by (subst rep_frame) auto
  qed
  moreover have "rep_frames (cells ?t') a fs"
  proof -
    have "set (faddrs fs) \<inter> insert a (set (gaddrs r)) = {}" using dist by auto
    then have "\<forall>y \<in> set (faddrs fs). cells ?t' y = cells t y"
      using h' gaddr_in_gaddrs [of r] by auto
    then show ?thesis using fr by (subst rep_frames_frame) auto
  qed
  ultimately have "rep (cells ?t') None (plug (GNode a (kl @ k # kr) (ls @ l # r # rs)) fs)"
    using h' by (auto simp: rep_plug)
  moreover have "dom (cells ?t') = dom (cells t)"
    using h' a by (auto simp: dom_def split: if_splits)
  moreover have "map_option next_leaf (cells ?t' x) = map_option next_leaf (cells t x)" for x
    using h' a by (cases "cells t x") auto
  moreover have "root ?t' = Some (gaddr (plug (GNode a (kl @ k # kr) (ls @ l # r # rs)) fs))"
    using rt gaddr_plug_cong [of "GNode a (kl @ kr) (ls @ l # rs)" "GNode a (kl @ k # kr) (ls @ l # r # rs)" fs]
    by (simp add: insert_into_internal_node_def)
  ultimately have "climbed t ?t' (gup (fresh t) l k r (Frame a kl ls kr rs # fs)) 0"
    using space unfolding climbed_def by (simp add: insert_into_internal_node_def)
  with insert_into_parent_frame(1) [OF st space] show ?thesis by blast
qed

lemma split_addrs_perm:
  "mset (gaddrs (GNode a ks1 (take m ts)) @ gaddrs (GNode n ks2 (drop m ts)) @ xs) =
   mset (n # a # gaddrs_list ts @ xs)"
  using mset_gaddrs_take_drop [of m ts] by simp

lemma climb_split:
  assumes st: "split_state t l r (Frame a kl ls kr rs # fs)"
    and full: "length (kl @ kr) = BPTREE_MAX_KEYS"
    and room: "can_alloc (Suc n) t"
    and m: "m = length (kl @ k # kr) div 2"
  shows "\<exists>t1. insert_into_parent (Suc fuel) t (gaddr l) k (gaddr r) =
                insert_into_parent fuel t1 a ((kl @ k # kr) ! m) (fresh t) \<and>
              split_state t1 (GNode a (take m (kl @ k # kr)) (take (Suc m) (ls @ l # r # rs)))
                (GNode (fresh t) (drop (Suc m) (kl @ k # kr)) (drop (Suc m) (ls @ l # r # rs))) fs \<and>
              fresh t1 = Suc (fresh t) \<and> node_limit t1 = node_limit t \<and>
              tree_key_count t1 = tree_key_count t \<and>
              dom (cells t1) = insert (fresh t) (dom (cells t)) \<and>
              (\<forall>x < fresh t. map_option next_leaf (cells t1 x) = map_option next_leaf (cells t x))"
proof -
  let ?ks = "kl @ k # kr" and ?ts = "ls @ l # r # rs" and ?n = "fresh t"
  obtain q where l: "rep (cells t) (Some a) l" and r: "rep (cells t) q r"
    and a: "cells t a = Some \<lparr>is_leaf = False, keys = kl @ kr, parent = top fs, next_leaf = None,
              children = map gaddr ls @ gaddr l # map gaddr rs, row_offsets = []\<rparr>"
    and sib: "\<forall>x \<in> set ls \<union> set rs. rep (cells t) (Some a) x" and fr: "rep_frames (cells t) a fs"
    and dist: "distinct (a # gaddrs_list ?ts @ faddrs fs)"
    and bound: "set (a # gaddrs_list ?ts @ faddrs fs) \<subseteq> {..<fresh t}"
    and lens: "length ls = length kl" "length rs = length kr" and bf: "bst_frames fs"
    and rt: "root t = Some (gaddr (plug (GNode a (kl @ kr) (ls @ l # rs)) fs))"
    by (rule split_state_frame [OF st])
  have reps: "\<forall>x \<in> set ?ts. \<exists>p. rep (cells t) p x" using l r sib by auto
  have d1: "distinct (a # gaddrs_list ?ts)" "set (a # gaddrs_list ?ts) \<subseteq> {..<fresh t}"
    using dist bound by auto
  obtain t1 where sp: "split_internal t a (length kl) k (gaddr r) = Some (?ks ! m, ?n, t1)"
    and rl: "rep (cells t1) (top fs) (GNode a (take m ?ks) (take (Suc m) ?ts))"
    and rr: "rep (cells t1) (top fs) (GNode ?n (drop (Suc m) ?ks) (drop (Suc m) ?ts))"
    and t1: "fresh t1 = Suc ?n" "node_limit t1 = node_limit t" "root t1 = root t"
      "tree_key_count t1 = tree_key_count t" "dom (cells t1) = insert ?n (dom (cells t))"
    and same: "\<forall>x. x \<notin> insert ?n (set (a # gaddrs_list ?ts)) \<longrightarrow> cells t1 x = cells t x"
    and nxt: "\<forall>x < ?n. map_option next_leaf (cells t1 x) = map_option next_leaf (cells t x)"
    using split_internal_spec [OF a reps d1 lens room refl refl m] by blast
  have eq: "insert_into_parent (Suc fuel) t (gaddr l) k (gaddr r) = insert_into_parent fuel t1 a (?ks ! m) ?n"
    using insert_into_parent_frame(2) [OF st full] sp by simp
  have "\<forall>x \<in> set (faddrs fs). x \<notin> insert ?n (set (a # gaddrs_list ?ts))"
    using dist bound by auto
  then have frs: "rep_frames (cells t1) a fs"
    using same fr by (subst rep_frames_frame [of fs _ "cells t"]) blast+
  let ?l' = "GNode a (take m ?ks) (take (Suc m) ?ts)"
  let ?r' = "GNode ?n (drop (Suc m) ?ks) (drop (Suc m) ?ts)"
  have perm: "mset (gaddrs ?l' @ gaddrs ?r' @ faddrs fs) = mset (?n # a # gaddrs_list ?ts @ faddrs fs)"
    by (rule split_addrs_perm)
  have "distinct (?n # a # gaddrs_list ?ts @ faddrs fs)"
    "set (?n # a # gaddrs_list ?ts @ faddrs fs) \<subseteq> {..<Suc ?n}"
    using dist bound by (auto simp: less_Suc_eq)
  then have "distinct (gaddrs ?l' @ gaddrs ?r' @ faddrs fs)"
    "set (gaddrs ?l' @ gaddrs ?r' @ faddrs fs) \<subseteq> {..<fresh t1}"
    using mset_eq_imp_distinct_iff [OF perm] mset_eq_setD [OF perm] t1(1) by (simp_all only:)
  moreover have "root t1 = Some (gaddr (plug ?l' fs))"
    using t1(3) rt gaddr_plug_cong [of "GNode a (kl @ kr) (ls @ l # rs)" ?l' fs] by simp
  ultimately have "split_state t1 ?l' ?r' fs"
    unfolding split_state_def using rl rr frs bf by (metis gaddr.simps(2))
  with eq t1 nxt show ?thesis by blast
qed

lemma insert_into_parent_refines:
  assumes "split_state t l r fs" "fill_frames fs" "length fs < fuel" "can_alloc (allocs fs) t"
  shows "\<exists>t'. insert_into_parent fuel t (gaddr l) k (gaddr r) = (Inr (), t') \<and>
              climbed t t' (gup (fresh t) l k r fs) (allocs fs)"
  using assms
proof (induction fs arbitrary: t l k r fuel)
  case Nil
  then obtain f where "fuel = Suc f" by (cases fuel) auto
  with climb_new_root [OF Nil.prems(1)] Nil.prems(4) show ?case by simp
next
  case (Cons F fs)
  obtain f where f: "fuel = Suc f" "length fs < f" using Cons.prems(3) by (cases fuel) auto
  obtain a kl ls kr rs where F: "F = Frame a kl ls kr rs" by (cases F)
  note st = Cons.prems(1) [unfolded F]
  show ?case
  proof (cases "length (kl @ kr) < BPTREE_MAX_KEYS")
    case True
    then have "allocs (F # fs) = 0" by (simp add: F)
    with climb_insert [OF st True, of f k] f F show ?thesis by metis
  next
    case False
    with Cons.prems(2) F have full: "length (kl @ kr) = BPTREE_MAX_KEYS" and ff: "fill_frames fs" by auto
    have al: "allocs (F # fs) = Suc (allocs fs)" using False F by simp
    define m where "m = length (kl @ k # kr) div 2"
    let ?l' = "GNode a (take m (kl @ k # kr)) (take (Suc m) (ls @ l # r # rs))"
    let ?r' = "GNode (fresh t) (drop (Suc m) (kl @ k # kr)) (drop (Suc m) (ls @ l # r # rs))"
    obtain t1 where eq: "insert_into_parent fuel t (gaddr l) k (gaddr r) =
        insert_into_parent f t1 (gaddr ?l') ((kl @ k # kr) ! m) (gaddr ?r')"
      and st1: "split_state t1 ?l' ?r' fs"
      and t1: "fresh t1 = Suc (fresh t)" "node_limit t1 = node_limit t"
        "tree_key_count t1 = tree_key_count t" "dom (cells t1) = insert (fresh t) (dom (cells t))"
      and nxt: "\<forall>x < fresh t. map_option next_leaf (cells t1 x) = map_option next_leaf (cells t x)"
      using climb_split [OF st full Cons.prems(4) [unfolded al] m_def, of f] f by auto
    have "can_alloc (allocs fs) t1"
      using Cons.prems(4) al t1 by (auto simp: can_alloc_def split: option.splits)
    from Cons.IH [OF st1 ff f(2) this, of "(kl @ k # kr) ! m"] obtain t' where
      t': "insert_into_parent f t1 (gaddr ?l') ((kl @ k # kr) ! m) (gaddr ?r') = (Inr (), t')"
      "climbed t1 t' (gup (Suc (fresh t)) ?l' ((kl @ k # kr) ! m) ?r' fs) (allocs fs)"
      using t1(1) by auto
    have g: "gup (Suc (fresh t)) ?l' ((kl @ k # kr) ! m) ?r' fs = gup (fresh t) l k r (F # fs)"
      using False F by (simp add: m_def Let_def)
    have "climbed t t' (gup (fresh t) l k r (F # fs)) (allocs (F # fs))"
      using t'(2) t1 nxt al unfolding g climbed_def by auto
    with eq t'(1) show ?thesis by auto
  qed
qed

end
