(* ===== verification/Bptree_Correct.thy ===== *)
theory Bptree_Correct
  imports Bptree_Refine
begin

text \<open>
  The invariant of the B+Tree and the correctness of its public operations: search, insertion,
  validation and destruction, against the map from keys to row offsets that the leaf chain holds.
\<close>

section \<open>The leaf chain\<close>

fun chain :: "store \<Rightarrow> addr list \<Rightarrow> bool" where
  "chain h [] \<longleftrightarrow> True"
| "chain h (a # as) \<longleftrightarrow>
     map_option next_leaf (h a) = Some (if as = [] then None else Some (hd as)) \<and> chain h as"

lemma chain_cong:
  "\<forall>a \<in> set as. map_option next_leaf (h' a) = map_option next_leaf (h a) \<Longrightarrow> chain h' as \<longleftrightarrow> chain h as"
  by (induction as) auto

lemma chain_split_leaf:
  assumes "chain h (xs @ a # ys)" "distinct (xs @ a # ys)" "n \<notin> set (xs @ a # ys)"
    and "map_option next_leaf (h' a) = Some (Some n)"
    and "map_option next_leaf (h' n) = map_option next_leaf (h a)"
    and "\<forall>x \<in> set xs \<union> set ys. map_option next_leaf (h' x) = map_option next_leaf (h x)"
  shows "chain h' (xs @ a # n # ys)"
  using assms
proof (induction xs)
  case Nil
  then have "chain h' ys" using chain_cong [of ys h' h] by auto
  with Nil show ?case by auto
next
  case (Cons x xs)
  then show ?case by (cases xs) auto
qed

section \<open>The invariant\<close>

definition tree_rep :: "bptree \<Rightarrow> gtree \<Rightarrow> nat \<Rightarrow> bool" where
  "tree_rep t g d \<longleftrightarrow>
     root t = Some (gaddr g) \<and> rep (cells t) None g \<and> distinct (gaddrs g) \<and>
     set (gaddrs g) = {..<fresh t} \<and> dom (cells t) = {..<fresh t} \<and>
     bst None None g \<and> bal d g \<and> root_fill g \<and> chain (cells t) (gleaves g) \<and>
     tree_key_count t = length (entries g)"

definition bptree_inv :: "bptree \<Rightarrow> bool" where
  "bptree_inv t \<longleftrightarrow>
     (case root t of
        None \<Rightarrow> tree_key_count t = 0 \<and> cells t = Map.empty \<and> fresh t = 0
      | Some r \<Rightarrow> \<exists>g d. tree_rep t g d)"

lemma bptree_invE:
  assumes "bptree_inv t"
  obtains (Empty) "root t = None" "tree_key_count t = 0" "cells t = Map.empty" "fresh t = 0"
  | (Tree) g d where "tree_rep t g d"
  using assms by (auto simp: bptree_inv_def split: option.splits)

lemma bptree_invI: "tree_rep t g d \<Longrightarrow> bptree_inv t"
  unfolding bptree_inv_def by (cases "root t") (simp add: tree_rep_def, auto)

text \<open>A balanced tree has more nodes than levels, and its leaves are among its nodes.\<close>

lemma bst_children: "bst lo hi (GNode a ks ts) \<Longrightarrow> ts \<noteq> []"
  by (cases ts) auto

lemma bsts_bst: "bsts lo ks ts hi \<Longrightarrow> t \<in> set ts \<Longrightarrow> \<exists>l u. bst l u t"
proof (induction ts arbitrary: lo ks)
  case (Cons x xs)
  then show ?case by (cases ks) auto
qed simp

lemma depth_less_nodes: "bst lo hi g \<Longrightarrow> bal d g \<Longrightarrow> d < length (gaddrs g)"
proof (induction g arbitrary: lo hi d)
  case (GNode a ks ts)
  obtain t ts' where ts: "ts = t # ts'" using GNode.prems bst_children by (cases ts) auto
  obtain d' where d: "d = Suc d'" "bal d' t" using GNode.prems ts by auto
  obtain l u where "bst l u t" using GNode.prems ts bsts_bst [of lo ks ts hi t] by auto
  with GNode.IH [of t] ts d have "d' < length (gaddrs t)" by auto
  with ts d show ?case by simp
qed simp

lemma leaves_le_nodes: "length (gleaves g) \<le> length (gaddrs g)"
proof (induction g)
  case (GNode a ks ts)
  then have "length (gleaves_list ts) \<le> length (gaddrs_list ts)"
    by (induction ts) (auto intro: add_mono)
  then show ?case by simp
qed simp

lemma distinct_gleaves: "distinct (gaddrs g) \<Longrightarrow> distinct (gleaves g)"
proof (induction g)
  case (GNode a ks ts)
  have "distinct (gaddrs_list ts) \<Longrightarrow> \<forall>t \<in> set ts. distinct (gaddrs t) \<longrightarrow> distinct (gleaves t) \<Longrightarrow>
      distinct (gleaves_list ts)" for ts
  proof (induction ts)
    case (Cons t ts)
    have "set (gaddrs t) \<inter> set (gaddrs_list ts) = {}" using Cons.prems(1) by auto
    moreover have "set (gleaves_list ts) \<subseteq> set (gaddrs_list ts)" using gleaves_subset by auto
    ultimately have "set (gleaves t) \<inter> set (gleaves_list ts) = {}"
      using gleaves_subset [of t] by blast
    moreover have "distinct (gleaves t)" using Cons.prems by simp
    moreover have "distinct (gleaves_list ts)" using Cons.IH Cons.prems by simp
    ultimately show ?case by simp
  qed simp
  moreover have "\<forall>t \<in> set ts. distinct (gaddrs t) \<longrightarrow> distinct (gleaves t)" using GNode.IH by blast
  moreover have "distinct (gaddrs_list ts)" using GNode.prems by simp
  ultimately have "distinct (gleaves_list ts)" by blast
  then show ?case by simp
qed simp

lemma tree_rep_nodes:
  assumes "tree_rep t g d"
  shows "length (gaddrs g) = fresh t" "d < fresh t" "length (gleaves g) \<le> fresh t"
proof -
  have "set (gaddrs g) = {..<fresh t}" "distinct (gaddrs g)"
    using assms by (simp_all add: tree_rep_def)
  then show len: "length (gaddrs g) = fresh t" by (metis card_lessThan distinct_card)
  have "bst None None g" "bal d g" using assms by (simp_all add: tree_rep_def)
  then show "d < fresh t" using depth_less_nodes len by metis
  show "length (gleaves g) \<le> fresh t" using leaves_le_nodes [of g] len by simp
qed

section \<open>The contents read along the leaf chain\<close>

lemma gleaves_not_Nil: "bst lo hi g \<Longrightarrow> gleaves g \<noteq> []"
proof (induction g arbitrary: lo hi)
  case (GNode a ks ts)
  obtain t ts' where ts: "ts = t # ts'" using GNode.prems bst_children by (cases ts) auto
  obtain l u where "bst l u t" using GNode.prems ts bsts_bst [of lo ks ts hi t] by auto
  with GNode.IH [of t] ts show ?case by auto
qed simp

lemma find_leftmost_leaf_path:
  "bst lo hi g \<Longrightarrow> bal d g \<Longrightarrow> rep h p g \<Longrightarrow> d < fuel \<Longrightarrow>
   find_leftmost_leaf fuel h (Some (gaddr g)) = Inr (Some (hd (gleaves g)))"
proof (induction d arbitrary: g lo hi p fuel)
  case 0
  then obtain a ks vs where "g = GLeaf a ks vs" by (cases g) auto
  with 0 show ?case by (cases fuel) auto
next
  case (Suc d)
  then obtain a ks ts where g: "g = GNode a ks ts" by (cases g) auto
  obtain t ts' where ts: "ts = t # ts'" using Suc.prems g bst_children by (cases ts) auto
  obtain f where f: "fuel = Suc f" "d < f" using Suc.prems by (cases fuel) auto
  obtain l u where b: "bst l u t" using Suc.prems g ts bsts_bst [of lo ks ts hi t] by auto
  have "find_leftmost_leaf f h (Some (gaddr t)) = Inr (Some (hd (gleaves t)))"
    using Suc.prems g ts f by (intro Suc.IH [OF b]) auto
  with node_at_rep(2) [OF Suc.prems(3) [unfolded g]] g ts f gleaves_not_Nil [OF b] show ?case
    by simp
qed

lemma chain_entries_eq:
  "chain h as \<Longrightarrow> length as < fuel \<Longrightarrow>
   chain_entries fuel h (if as = [] then None else Some (hd as)) =
     concat (map (\<lambda>a. zip (keys (node_at h a)) (row_offsets (node_at h a))) as)"
proof (induction as arbitrary: fuel)
  case Nil
  then show ?case by (cases fuel) auto
next
  case (Cons a as)
  obtain f where f: "fuel = Suc f" "length as < f" using Cons.prems by (cases fuel) auto
  have "next_leaf (node_at h a) = (if as = [] then None else Some (hd as))"
    using Cons.prems(1) by (auto simp: node_at_def)
  with Cons.IH [of f] Cons.prems f show ?case by simp
qed

lemma rep_entries:
  "rep h p g \<Longrightarrow>
   concat (map (\<lambda>a. zip (keys (node_at h a)) (row_offsets (node_at h a))) (gleaves g)) = entries g"
proof (induction g arbitrary: p)
  case (GLeaf a ks vs)
  then show ?case using node_at_rep(1) by simp
next
  case (GNode a ks ts)
  then have "\<forall>t \<in> set ts. concat (map (\<lambda>a. zip (keys (node_at h a)) (row_offsets (node_at h a)))
      (gleaves t)) = entries t" by auto
  then show ?case by (induction ts) auto
qed

lemma bptree_entries_rep:
  assumes "tree_rep t g d"
  shows "bptree_entries t = entries g"
proof -
  have r: "rep (cells t) None g" "bst None None g" "bal d g" "chain (cells t) (gleaves g)"
    "root t = Some (gaddr g)"
    using assms by (simp_all add: tree_rep_def)
  have ne: "gleaves g \<noteq> []" using gleaves_not_Nil [OF r(2)] .
  have "find_leftmost_leaf (Suc (fresh t)) (cells t) (root t) = Inr (Some (hd (gleaves g)))"
    unfolding r(5) using tree_rep_nodes(2) [OF assms]
    by (intro find_leftmost_leaf_path [OF r(2,3,1)]) simp
  then show ?thesis
    using chain_entries_eq [OF r(4), of "Suc (fresh t)"] tree_rep_nodes(3) [OF assms] ne
      rep_entries [OF r(1)]
    by (simp add: bptree_entries_def)
qed

lemma bptree_entries_empty: "root t = None \<Longrightarrow> bptree_entries t = []"
  by (simp add: bptree_entries_def)

lemma bptree_entries_sorted:
  assumes "bptree_inv t"
  shows "sorted_wrt (<) (map fst (bptree_entries t))"
  using assms
proof (cases rule: bptree_invE)
  case (Tree g d)
  then have "bst None None g" by (simp add: tree_rep_def)
  with bst_entries(1) show ?thesis by (simp add: bptree_entries_rep [OF Tree])
qed (simp add: bptree_entries_empty)

lemma key_count_entries:
  assumes "bptree_inv t"
  shows "tree_key_count t = length (bptree_entries t)"
  using assms
proof (cases rule: bptree_invE)
  case (Tree g d)
  then show ?thesis by (simp add: bptree_entries_rep [OF Tree]) (simp add: tree_rep_def)
qed (simp add: bptree_entries_empty)

section \<open>Search\<close>

lemma leaf_lookup_map_of: "leaf_lookup ks vs k = map_of (zip ks vs) k"
  by (induction ks vs k rule: leaf_lookup.induct) auto

text \<open>The leaf that the descent for \<open>k\<close> reaches, and the path to it.\<close>

lemma find_leaf_tree:
  assumes "tree_rep t g d"
  obtains a ks vs fs where
    "find_leaf_node (Suc (fresh t)) (cells t) (root t) k = Inr (Some a)"
    "g = plug (GLeaf a ks vs) fs" "length fs = d" "bst_frames fs" "bal_frames 0 fs"
    "bst (flo fs) (fhi fs) (GLeaf a ks vs)" "above (flo fs) k" "below k (fhi fs)"
proof -
  have r: "rep (cells t) None g" "bst None None g" "bal d g" "root t = Some (gaddr g)"
    using assms by (simp_all add: tree_rep_def)
  have b: "bst (flo []) (fhi []) g" "above (flo []) k" "below k (fhi [])"
    using r(2) by (simp_all add: above_def below_def)
  have path: "\<exists>a ks vs fs'. find_leaf_node fuel (cells t) (Some (gaddr g)) k = Inr (Some a) \<and>
           plug g [] = plug (GLeaf a ks vs) fs' \<and> length fs' = length [] + d \<and>
           bst_frames fs' \<and> bal_frames 0 fs' \<and> bst (flo fs') (fhi fs') (GLeaf a ks vs) \<and>
           above (flo fs') k \<and> below k (fhi fs')" if "d < fuel" for fuel
    using find_leaf_path [OF r(3) b(1) _ _ b(2,3) r(1) that] by simp
  from path [of "Suc (fresh t)"] tree_rep_nodes(2) [OF assms] obtain a ks vs fs where f:
    "find_leaf_node (Suc (fresh t)) (cells t) (Some (gaddr g)) k = Inr (Some a)"
    "g = plug (GLeaf a ks vs) fs" "length fs = d" "bst_frames fs" "bal_frames 0 fs"
    "bst (flo fs) (fhi fs) (GLeaf a ks vs)" "above (flo fs) k" "below k (fhi fs)"
    by auto
  then show thesis using f r(4) by (intro that) simp_all
qed

lemma leaf_node_at:
  assumes "tree_rep t (plug (GLeaf a ks vs) fs) d"
  obtains nx where "cells t a = Some \<lparr>is_leaf = True, keys = ks, parent = top fs, next_leaf = nx,
      children = [], row_offsets = vs\<rparr>" "rep_frames (cells t) a fs"
  using assms by (auto simp: tree_rep_def rep_plug)

lemma search_correct:
  assumes "bptree_inv t"
  shows "bptree_search t k = Inr (bptree_map t k)"
  using assms
proof (cases rule: bptree_invE)
  case Empty
  then show ?thesis by (simp add: bptree_search_def bptree_map_def bptree_entries_empty)
next
  case (Tree g d)
  then obtain a ks vs fs where f:
    "find_leaf_node (Suc (fresh t)) (cells t) (root t) k = Inr (Some a)"
    "g = plug (GLeaf a ks vs) fs" "bst_frames fs" "above (flo fs) k" "below k (fhi fs)"
    by (rule find_leaf_tree [where k = k])
  obtain nx where "cells t a = Some \<lparr>is_leaf = True, keys = ks, parent = top fs, next_leaf = nx,
      children = [], row_offsets = vs\<rparr>"
    using leaf_node_at Tree f(2) by metis
  then have "bptree_search t k = Inr (map_of (zip ks vs) k)"
    using f(1) Tree by (auto simp: bptree_search_def node_at_def leaf_lookup_map_of tree_rep_def)
  also have "map_of (zip ks vs) k = map_of (entries g) k"
    using map_of_hole [OF f(3,4,5), of "zip ks vs"] by (simp add: f(2) entries_plug)
  finally show ?thesis by (simp add: bptree_map_def bptree_entries_rep [OF Tree])
qed

end
