(* ===== verification/Bptree_Insert.thy ===== *)
theory Bptree_Insert
  imports Bptree_Correct
begin

text \<open>
  Insertion into the B+Tree: \<^verbatim>\<open>bptree_insert\<close> keeps the invariant and adds exactly the
  given entry to the map, with or without splits; a key that is present is refused and the tree
  is left as it was.
\<close>

section \<open>Positions in a sorted leaf\<close>

lemma insert_index_takeWhile: "insert_index ks k = length (takeWhile (\<lambda>x. x < k) ks)"
  by (induction ks) auto

lemma insert_index_le: "insert_index ks k \<le> length ks"
  by (simp add: insert_index_takeWhile length_takeWhile_le)

lemma insert_index_duplicate:
  "sorted_wrt (<) ks \<Longrightarrow> insert_index ks k < length ks \<and> ks ! insert_index ks k = k \<longleftrightarrow> k \<in> set ks"
  by (induction ks) (auto simp: not_less_iff_gr_or_eq)

lemma set_insert_at [simp]: "set (insert_at i x xs) = insert x (set xs)"
proof -
  have "set xs = set (take i xs) \<union> set (drop i xs)" by (metis append_take_drop_id set_append)
  then show ?thesis by (simp add: insert_at_def)
qed

lemma length_insert_at [simp]: "length (insert_at i x xs) = Suc (length xs)"
  by (simp add: insert_at_def)

lemma insert_at_sorted:
  "sorted_wrt (<) ks \<Longrightarrow> k \<notin> set ks \<Longrightarrow> sorted_wrt (<) (insert_at (insert_index ks k) k ks)"
  by (induction ks) (auto simp: insert_at_def not_less_iff_gr_or_eq dest: in_set_takeD in_set_dropD)

lemma zip_insert_at:
  "length vs = length ks \<Longrightarrow>
   zip (insert_at i k ks) (insert_at i v vs) = insert_at i (k, v) (zip ks vs)"
  by (simp add: insert_at_def zip_append take_zip drop_zip)

lemma map_of_insert_at:
  assumes "k \<notin> fst ` set es"
  shows "map_of (insert_at i (k, v) es) = (map_of es)(k \<mapsto> v)"
proof -
  have "k \<notin> fst ` set (take i es)" using assms by (auto dest: in_set_takeD)
  then have "map_of (take i es) k = None" by (simp add: map_of_eq_None_iff)
  then have "map_of (take i es @ (k, v) # drop i es) = (map_of (take i es @ drop i es))(k \<mapsto> v)"
    by (auto simp: fun_eq_iff map_add_def simp del: append_take_drop_id split: option.splits)
  then show ?thesis by (simp add: insert_at_def)
qed

text \<open>The entry list of a tree after an insertion at the hole of a path.\<close>

lemma insert_entries_map:
  assumes fr: "bst_frames fs" "above (flo fs) k" "below k (fhi fs)"
    and new: "length vs = length ks" "k \<notin> set ks"
    and g: "g = plug (GLeaf a ks vs) fs"
    and g': "entries g' = fleft entries fs @
               zip (insert_at i k ks) (insert_at i v vs) @ fright entries fs"
  shows "map_of (entries g') = (map_of (entries g))(k \<mapsto> v)"
    and "length (entries g') = Suc (length (entries g))"
proof -
  have "k \<notin> fst ` set (zip ks vs)" using new by (auto dest: set_zip_leftD)
  then have z: "map_of (zip (insert_at i k ks) (insert_at i v vs)) = (map_of (zip ks vs))(k \<mapsto> v)"
    using new(1) by (simp add: zip_insert_at map_of_insert_at)
  have "map_of (fright entries fs) k = None" "map_of (fleft entries fs) k = None"
    using key_in_hole [OF fr] by (simp_all add: map_of_eq_None_iff)
  with z show "map_of (entries g') = (map_of (entries g))(k \<mapsto> v)"
    by (auto simp: g g' entries_plug fun_eq_iff map_add_def split: option.splits)
  show "length (entries g') = Suc (length (entries g))"
    using new by (simp add: g g' entries_plug)
qed

lemma root_fill_frames:
  "root_fill (plug t fs) \<longleftrightarrow> fill_frames fs \<and> (if fs = [] then root_fill t else fill t)"
proof (induction fs arbitrary: t)
  case (Cons F fs)
  obtain a kl ls kr rs where F: "F = Frame a kl ls kr rs" by (cases F)
  from Cons.IH [of "GNode a (kl @ kr) (ls @ t # rs)"] F show ?case by (cases fs) auto
qed simp

section \<open>The leaf has room\<close>

lemma insert_room:
  assumes tr: "tree_rep t g d" and g: "g = plug (GLeaf a ks vs) fs"
    and fr: "length fs = d" "bst_frames fs" "bal_frames 0 fs" "above (flo fs) k" "below k (fhi fs)"
    and lf: "bst (flo fs) (fhi fs) (GLeaf a ks vs)"
    and new: "k \<notin> set ks" and room: "length ks < BPTREE_MAX_KEYS"
    and i: "i = insert_index ks k"
    and t': "t' = t\<lparr>cells := upd a (\<lambda>n. n\<lparr>keys := insert_at i k (keys n),
               row_offsets := insert_at i v (row_offsets n)\<rparr>) (cells t),
               tree_key_count := Suc (tree_key_count t)\<rparr>"
    and g': "g' = plug (GLeaf a (insert_at i k ks) (insert_at i v vs)) fs"
  shows "tree_rep t' g' d" "map_of (entries g') = (map_of (entries g))(k \<mapsto> v)"
proof -
  note T = tr [unfolded tree_rep_def g]
  let ?lf = "GLeaf a (insert_at i k ks) (insert_at i v vs)"
  obtain nx where a: "cells t a = Some \<lparr>is_leaf = True, keys = ks, parent = top fs, next_leaf = nx,
      children = [], row_offsets = vs\<rparr>" and rf: "rep_frames (cells t) a fs"
    using tr unfolding g by (rule leaf_node_at)
  have addrs: "mset (gaddrs g') = mset (gaddrs g)" by (simp add: g g' mset_gaddrs_plug)
  have "distinct (gaddrs g)" using tr by (simp add: tree_rep_def)
  then have "a \<notin> set (faddrs fs)"
    using mset_eq_imp_distinct_iff [of "gaddrs g" "a # faddrs fs"]
    by (simp add: g mset_gaddrs_plug)
  then have "rep_frames (cells t') a fs"
    using rf by (subst rep_frames_frame [of fs _ "cells t"]) (auto simp: t')
  moreover have "rep (cells t') (top fs) ?lf" using a by (simp add: t')
  ultimately have r: "rep (cells t') None g'" unfolding g' rep_plug by simp
  have len: "length vs = length ks" using lf by simp
  have "bst (flo fs) (fhi fs) ?lf"
    using lf new fr insert_at_sorted [of ks k] by (auto simp: i)
  then have b: "bst None None g'" by (simp add: g' bst_plug [OF fr(2)])
  have bl: "bal d g'" using bal_plug [OF fr(3), of ?lf] fr(1) by (simp add: g')
  have fl: "root_fill g'" using T room by (auto simp: root_fill_frames g')
  have "gleaves g' = gleaves g" by (simp add: g g' gleaves_plug)
  moreover have "map_option next_leaf (cells t' x) = map_option next_leaf (cells t x)" for x
    by (cases "cells t x") (auto simp: t')
  ultimately have ch: "chain (cells t') (gleaves g')"
    using tr chain_cong [of "gleaves g" "cells t'" "cells t"] by (simp add: tree_rep_def)
  have e: "entries g' = fleft entries fs @ zip (insert_at i k ks) (insert_at i v vs) @ fright entries fs"
    by (simp add: g' entries_plug)
  note em = insert_entries_map [OF fr(2,4,5) len new g e]
  show "map_of (entries g') = (map_of (entries g))(k \<mapsto> v)" by (rule em)
  have rt: "root t' = Some (gaddr g')"
    using T gaddr_plug_cong [of "GLeaf a ks vs" ?lf fs] by (simp add: t' g')
  have dom: "dom (cells t') = dom (cells t)"
    by (auto simp: t' dom_def a split: if_splits)
  show "tree_rep t' g' d"
    unfolding tree_rep_def
    using tr r b bl fl ch rt dom em(2) mset_eq_setD [OF addrs] mset_eq_imp_distinct_iff [OF addrs]
    by (simp add: tree_rep_def t')
qed

section \<open>The leaf is full\<close>

text \<open>The store after the entries of a full leaf have been spread over two leaves.\<close>

definition split_leaf_state :: "bptree \<Rightarrow> addr \<Rightarrow> nat \<Rightarrow> u64 \<Rightarrow> int \<Rightarrow> bptree" where
  "split_leaf_state t leaf i key v =
     (let n = node_at (cells t) leaf; m = (key_count n + 1) div 2;
          tk = insert_at i key (keys n); tv = insert_at i v (row_offsets n);
          h0 = (cells t)(fresh t \<mapsto> \<lparr>is_leaf = True, keys = [], parent = None, next_leaf = None,
                                         children = [], row_offsets = []\<rparr>);
          h1 = upd leaf (\<lambda>n. n\<lparr>keys := take m tk, row_offsets := take m tv\<rparr>) h0;
          h2 = upd (fresh t) (\<lambda>x. x\<lparr>keys := drop m tk, row_offsets := drop m tv,
                                      next_leaf := next_leaf n, parent := parent n\<rparr>) h1;
          h3 = upd leaf (\<lambda>n. n\<lparr>next_leaf := Some (fresh t)\<rparr>) h2
      in t\<lparr>fresh := Suc (fresh t), cells := h3\<rparr>)"

lemma split_leaf_and_insert_new:
  assumes "sorted_wrt (<) (keys (node_at (cells t) leaf))" "key \<notin> set (keys (node_at (cells t) leaf))"
    and "can_alloc (Suc n) t"
    and i: "i = insert_index (keys (node_at (cells t) leaf)) key"
    and m: "m = (key_count (node_at (cells t) leaf) + 1) div 2"
  shows "split_leaf_and_insert t leaf key v =
    insert_into_parent (fresh t) (split_leaf_state t leaf i key v) leaf
      (hd (drop m (insert_at i key (keys (node_at (cells t) leaf))))) (fresh t)"
  using assms(2) insert_index_duplicate [OF assms(1), of key]
  unfolding split_leaf_and_insert_def split_leaf_state_def Let_def create_node_ok [OF assms(3)] i m
  by (auto simp: key_count_def)

lemma split_leaf_store:
  assumes a: "cells t a = Some \<lparr>is_leaf = True, keys = ks, parent = p, next_leaf = nx,
      children = [], row_offsets = vs\<rparr>" and ne: "a \<noteq> fresh t"
    and m: "m = (length ks + 1) div 2"
    and t': "t' = split_leaf_state t a i k v"
  shows "cells t' a = Some \<lparr>is_leaf = True, keys = take m (insert_at i k ks), parent = p,
        next_leaf = Some (fresh t), children = [], row_offsets = take m (insert_at i v vs)\<rparr>"
    and "cells t' (fresh t) = Some \<lparr>is_leaf = True, keys = drop m (insert_at i k ks), parent = p,
        next_leaf = nx, children = [], row_offsets = drop m (insert_at i v vs)\<rparr>"
    and "\<And>x. x \<noteq> a \<Longrightarrow> x \<noteq> fresh t \<Longrightarrow> cells t' x = cells t x"
    and "fresh t' = Suc (fresh t)" "node_limit t' = node_limit t" "root t' = root t"
    and "tree_key_count t' = tree_key_count t"
proof -
  have n: "node_at (cells t) a = \<lparr>is_leaf = True, keys = ks, parent = p, next_leaf = nx,
      children = [], row_offsets = vs\<rparr>" using a by (simp add: node_at_def)
  note D = t' split_leaf_state_def Let_def n key_count_def m
  show "cells t' a = Some \<lparr>is_leaf = True, keys = take m (insert_at i k ks), parent = p,
        next_leaf = Some (fresh t), children = [], row_offsets = take m (insert_at i v vs)\<rparr>"
    using a ne by (simp add: D)
  show "cells t' (fresh t) = Some \<lparr>is_leaf = True, keys = drop m (insert_at i k ks), parent = p,
        next_leaf = nx, children = [], row_offsets = drop m (insert_at i v vs)\<rparr>"
    using a ne by (simp add: D)
  show "\<And>x. x \<noteq> a \<Longrightarrow> x \<noteq> fresh t \<Longrightarrow> cells t' x = cells t x"
    by (simp add: D)
  show "fresh t' = Suc (fresh t)" "node_limit t' = node_limit t" "root t' = root t"
    "tree_key_count t' = tree_key_count t" by (simp_all add: D)
qed

text \<open>The two halves of a full leaf with the new entry: sorted, filled, on either side of the separator.\<close>

lemma sorted_halves:
  fixes xs :: "u64 list"
  assumes "sorted_wrt (<) xs" "m < length xs" "x \<in> set (take m xs)" "y \<in> set (drop m xs)"
  shows "x < hd (drop m xs)" "hd (drop m xs) \<le> y"
proof -
  obtain z zs where d: "drop m xs = z # zs" using assms(2) by (cases "drop m xs") auto
  have s: "sorted_wrt (<) (take m xs @ z # zs)" using assms(1) d by (metis append_take_drop_id)
  then show "x < hd (drop m xs)" using assms(3) d by (simp add: sorted_wrt_append)
  show "hd (drop m xs) \<le> y" using assms(4) d s by (auto simp: sorted_wrt_append)
qed

lemma full_leaf_halves:
  assumes lf: "bst lo hi (GLeaf a ks vs)" and k: "above lo k" "below k hi" "k \<notin> set ks"
    and full: "length ks = BPTREE_MAX_KEYS" and i: "i = insert_index ks k"
    and m: "m = (length ks + 1) div 2"
    and tk: "tk = insert_at i k ks" and tv: "tv = insert_at i v vs"
    and s: "s = hd (drop m tk)"
  shows "bst lo (Some s) (GLeaf b (take m tk) (take m tv))"
    and "bst (Some s) hi (GLeaf c (drop m tk) (drop m tv))"
    and "fill (GLeaf b (take m tk) (take m tv))" "fill (GLeaf c (drop m tk) (drop m tv))"
    and "range_ok lo (Some s)" "range_ok (Some s) hi"
proof -
  have m32: "m = 32" "length tk = 64" "length tv = 64"
    using full lf by (simp_all add: m tk tv BPTREE_MAX_KEYS_def BPTREE_ORDER_def)
  have srt: "sorted_wrt (<) tk" using lf k insert_at_sorted by (simp add: tk i)
  have bnd: "\<forall>x \<in> set tk. above lo x \<and> below x hi" using lf k by (simp add: tk)
  have half: "set (take m tk) \<subseteq> set tk" "set (drop m tk) \<subseteq> set tk"
    by (auto dest: in_set_takeD in_set_dropD)
  have sin: "s \<in> set (drop m tk)" unfolding s using m32 by (intro hd_in_set) simp
  have fin: "hd tk \<in> set (take m tk)" using m32 by (cases tk) auto
  note h = sorted_halves [OF srt, of m]
  have lt: "\<forall>x \<in> set (take m tk). x < s" using h(1) [OF _ _ sin] m32 unfolding s by auto
  have ge: "\<forall>x \<in> set (drop m tk). s \<le> x" using h(2) [OF _ fin] m32 unfolding s by auto
  show "bst lo (Some s) (GLeaf b (take m tk) (take m tv))"
    using srt bnd half lt m32 by (auto simp: below_def intro: sorted_wrt_take)
  show "bst (Some s) hi (GLeaf c (drop m tk) (drop m tv))"
    using srt bnd half ge m32 by (auto simp: above_def intro: sorted_wrt_drop)
  show "fill (GLeaf b (take m tk) (take m tv))" "fill (GLeaf c (drop m tk) (drop m tv))"
    using m32 by (simp_all add: BPTREE_MAX_KEYS_def BPTREE_ORDER_def)
  have "above lo (hd tk)" "hd tk < s" using bnd half fin lt by auto
  then show "range_ok lo (Some s)" by (auto simp: range_ok_def above_def below_def split: option.splits)
  show "range_ok (Some s) hi" using bnd half sin by (auto simp: range_ok_def)
qed

text \<open>The addresses of a tree taken apart at a leaf.\<close>

lemma leaf_addrs:
  assumes tr: "tree_rep t g d" and g: "g = plug (GLeaf a ks vs) fs"
  shows "set (a # faddrs fs) = {..<fresh t}" "distinct (a # faddrs fs)"
    "a < fresh t" "\<forall>x \<in> set (faddrs fs). x < fresh t"
proof -
  have perm: "mset (gaddrs g) = mset (a # faddrs fs)" by (simp add: g mset_gaddrs_plug)
  show s: "set (a # faddrs fs) = {..<fresh t}" and "distinct (a # faddrs fs)"
    using tr [unfolded tree_rep_def] mset_eq_setD [OF perm] mset_eq_imp_distinct_iff [OF perm]
    by (simp_all only:)
  from s show "a < fresh t" "\<forall>x \<in> set (faddrs fs). x < fresh t" by auto
qed

lemma split_leaf_split_state:
  assumes tr: "tree_rep t g d" and g: "g = plug (GLeaf a ks vs) fs" and bf: "bst_frames fs"
    and a: "cells t a = Some \<lparr>is_leaf = True, keys = ks, parent = top fs, next_leaf = nx,
      children = [], row_offsets = vs\<rparr>"
    and rf: "rep_frames (cells t) a fs"
    and m: "m = (length ks + 1) div 2" and t1: "t1 = split_leaf_state t a i k v"
  shows "split_state t1 (GLeaf a (take m (insert_at i k ks)) (take m (insert_at i v vs)))
           (GLeaf (fresh t) (drop m (insert_at i k ks)) (drop m (insert_at i v vs))) fs"
    (is "split_state t1 ?l ?r fs")
proof -
  note A = leaf_addrs [OF tr g]
  have ne: "a \<noteq> fresh t" using A(3) by simp
  note S = split_leaf_store [OF a ne m t1]
  have "\<forall>x \<in> set (faddrs fs). cells t1 x = cells t x"
    using A S(3) by (metis distinct.simps(2) less_irrefl)
  then have "rep_frames (cells t1) (gaddr ?l) fs"
    using rf by (subst rep_frames_frame [of fs _ "cells t"]) simp_all
  moreover have "rep (cells t1) (top fs) ?l" "rep (cells t1) (top fs) ?r" using S(1,2) by simp_all
  moreover have "distinct (gaddrs ?l @ gaddrs ?r @ faddrs fs)" using A by auto
  moreover have "set (gaddrs ?l @ gaddrs ?r @ faddrs fs) \<subseteq> {..<fresh t1}"
    using A(3,4) S(4) by (auto simp: less_Suc_eq)
  moreover have "root t1 = Some (gaddr (plug ?l fs))"
    using tr S(6) gaddr_plug_cong [of ?l "GLeaf a ks vs" fs] by (simp add: g tree_rep_def)
  ultimately show ?thesis unfolding split_state_def using bf by blast
qed

text \<open>The leaf chain after a split: the new leaf follows the old one.\<close>

lemma split_chain:
  assumes tr: "tree_rep t g d" and g: "g = plug (GLeaf a ks vs) fs"
    and nl: "\<forall>x \<le> fresh t. map_option next_leaf (h x) = map_option next_leaf (cells t1 x)"
    and S: "map_option next_leaf (cells t1 a) = Some (Some (fresh t))"
      "map_option next_leaf (cells t1 (fresh t)) = map_option next_leaf (cells t a)"
      "\<And>x. x \<noteq> a \<Longrightarrow> x \<noteq> fresh t \<Longrightarrow> cells t1 x = cells t x"
  shows "chain h (fleft gleaves fs @ a # fresh t # fright gleaves fs)"
proof (rule chain_split_leaf [of "cells t"])
  have lv: "gleaves g = fleft gleaves fs @ a # fright gleaves fs" by (simp add: g gleaves_plug)
  have *: "chain (cells t) (gleaves g)" "distinct (gleaves g)" "set (gleaves g) \<subseteq> {..<fresh t}"
    using tr distinct_gleaves [of g] gleaves_subset [of g] by (simp_all add: tree_rep_def)
  show "chain (cells t) (fleft gleaves fs @ a # fright gleaves fs)"
    "distinct (fleft gleaves fs @ a # fright gleaves fs)"
    using * lv by simp_all
  show "fresh t \<notin> set (fleft gleaves fs @ a # fright gleaves fs)" using * lv by auto
  show "map_option next_leaf (h a) = Some (Some (fresh t))"
    using nl S(1) leaf_addrs(3) [OF tr g] by (metis less_imp_le)
  show "map_option next_leaf (h (fresh t)) = map_option next_leaf (cells t a)" using nl S(2) by simp
  show "\<forall>x \<in> set (fleft gleaves fs) \<union> set (fright gleaves fs).
      map_option next_leaf (h x) = map_option next_leaf (cells t x)"
  proof
    fix x assume x: "x \<in> set (fleft gleaves fs) \<union> set (fright gleaves fs)"
    then have "x < fresh t" "x \<noteq> a" using * lv by auto
    then show "map_option next_leaf (h x) = map_option next_leaf (cells t x)"
      using nl S(3) [of x] by simp
  qed
qed

lemma climbed_addrs:
  assumes A: "set (a # faddrs fs) = {..<n}" "distinct (a # faddrs fs)"
    and g': "g' = gup (Suc n) (GLeaf a ks vs) s (GLeaf n ks' vs') fs"
  shows "distinct (gaddrs g')" "set (gaddrs g') = {..<Suc n + allocs fs}"
proof -
  have up: "[n..<Suc n + allocs fs] = n # [Suc n..<Suc n + allocs fs]" by (rule upt_conv_Cons) simp
  have perm: "mset (gaddrs g') = mset ((a # faddrs fs) @ [n..<Suc n + allocs fs])"
    unfolding g' mset_gaddrs_gup up by simp
  have "set (a # faddrs fs) \<inter> set [n..<Suc n + allocs fs] = {}" unfolding A(1) by auto
  then have "distinct ((a # faddrs fs) @ [n..<Suc n + allocs fs])"
    using A(2) unfolding distinct_append by (simp only: distinct_upt)
  then show "distinct (gaddrs g')" using mset_eq_imp_distinct_iff [OF perm] by blast
  have "set (gaddrs g') = set ((a # faddrs fs) @ [n..<Suc n + allocs fs])"
    by (rule mset_eq_setD [OF perm])
  also have "\<dots> = {..<n} \<union> {n..<Suc n + allocs fs}"
    unfolding set_append A(1) set_upt by (rule refl)
  finally show "set (gaddrs g') = {..<Suc n + allocs fs}" 
    by (simp only: ivl_disj_un_one(2) le_add1 trans_le_add1 le_SucI add_Suc order_refl)
qed

lemma split_leaf_climbs:
  assumes tr: "tree_rep t g d" and g: "g = plug (GLeaf a ks vs) fs"
    and fr: "length fs = d" "bst_frames fs" and lf: "bst (flo fs) (fhi fs) (GLeaf a ks vs)"
    and new: "k \<notin> set ks" and room: "can_alloc (d + 2) t"
    and i: "i = insert_index ks k" and m: "m = (length ks + 1) div 2"
    and tk: "tk = insert_at i k ks" and tv: "tv = insert_at i v vs" and s: "s = hd (drop m tk)"
  shows "\<exists>t'. split_leaf_and_insert t a k v = (Inr (), t') \<and>
    climbed (split_leaf_state t a i k v) t'
      (gup (Suc (fresh t)) (GLeaf a (take m tk) (take m tv)) s (GLeaf (fresh t) (drop m tk) (drop m tv)) fs) (allocs fs)"
proof -
  let ?n = "fresh t" and ?t1 = "split_leaf_state t a i k v"
  let ?l = "GLeaf a (take m tk) (take m tv)" and ?r = "GLeaf ?n (drop m tk) (drop m tv)"
  obtain nx where a: "cells t a = Some \<lparr>is_leaf = True, keys = ks, parent = top fs, next_leaf = nx,
      children = [], row_offsets = vs\<rparr>" and rf: "rep_frames (cells t) a fs"
    using tr unfolding g by (rule leaf_node_at)
  have ne: "a \<noteq> ?n" using leaf_addrs(3) [OF tr g] by simp
  note S = split_leaf_store [OF a ne m refl]
  have srt: "sorted_wrt (<) ks" using lf by simp
  have step: "split_leaf_and_insert t a k v = insert_into_parent ?n ?t1 (gaddr ?l) s (gaddr ?r)"
    using split_leaf_and_insert_new [of t a k "d + 1" i m v] a srt new room
    by (simp add: node_at_def key_count_def i m s tk)
  have st: "split_state ?t1 ?l ?r fs"
    unfolding tk tv by (rule split_leaf_split_state [OF tr g fr(2) a rf m refl])
  have ff: "fill_frames fs" using tr by (simp add: root_fill_frames tree_rep_def g)
  have "can_alloc (allocs fs) ?t1"
    using room allocs_le [of fs] fr(1) S(4,5) by (auto simp: can_alloc_def split: option.splits)
  from insert_into_parent_refines [OF st ff _ this, of ?n s] tree_rep_nodes(2) [OF tr] fr(1) S(4) step
  show ?thesis by auto
qed

lemma insert_split:
  assumes tr: "tree_rep t g d" and g: "g = plug (GLeaf a ks vs) fs"
    and fr: "length fs = d" "bst_frames fs" "bal_frames 0 fs" "above (flo fs) k" "below k (fhi fs)"
    and lf: "bst (flo fs) (fhi fs) (GLeaf a ks vs)"
    and new: "k \<notin> set ks" and full: "length ks = BPTREE_MAX_KEYS"
    and room: "can_alloc (d + 2) t"
  shows "\<exists>t' g' d'. split_leaf_and_insert t a k v = (Inr (), t') \<and>
           tree_rep (t'\<lparr>tree_key_count := Suc (tree_key_count t')\<rparr>) g' d' \<and>
           map_of (entries g') = (map_of (entries g))(k \<mapsto> v) \<and>
           fresh t' \<le> fresh t + d + 2 \<and> node_limit t' = node_limit t"
proof -
  define i where "i = insert_index ks k"
  define m where "m = (length ks + 1) div 2"
  define tk where "tk = insert_at i k ks"
  define tv where "tv = insert_at i v vs"
  define s where "s = hd (drop m tk)"
  define t1 where "t1 = split_leaf_state t a i k v"
  let ?n = "fresh t"
  let ?l = "GLeaf a (take m tk) (take m tv)" and ?r = "GLeaf ?n (drop m tk) (drop m tv)"
  obtain nx where a: "cells t a = Some \<lparr>is_leaf = True, keys = ks, parent = top fs, next_leaf = nx,
      children = [], row_offsets = vs\<rparr>"
    using tr unfolding g by (rule leaf_node_at)
  note A = leaf_addrs [OF tr g]
  have ne: "a \<noteq> ?n" using A(3) by simp
  note S = split_leaf_store [OF a ne m_def t1_def, folded tk_def tv_def]
  have len: "length vs = length ks" using lf by simp
  note H = full_leaf_halves [OF lf fr(4,5) new full i_def m_def tk_def tv_def s_def]
  have ff: "fill_frames fs" using tr by (simp add: root_fill_frames tree_rep_def g)
  obtain t' where t': "split_leaf_and_insert t a k v = (Inr (), t')"
    and cl: "climbed t1 t' (gup (Suc ?n) ?l s ?r fs) (allocs fs)"
    using split_leaf_climbs [OF tr g fr(1,2) lf new room i_def m_def tk_def tv_def s_def] unfolding t1_def by blast
  define g' where "g' = gup (Suc ?n) ?l s ?r fs"
  note C = cl [folded g'_def, unfolded climbed_def]
  have "entries g' = fleft entries fs @ zip tk tv @ fright entries fs"
    unfolding g'_def entries_gup using zip_append [of "take m tk" "take m tv" "drop m tk" "drop m tv"]
    by (simp add: tk_def tv_def len)
  note em = insert_entries_map [OF fr(2,4,5) len new g this [unfolded tk_def tv_def]]
  obtain d' where bl: "bal d' g'" using bal_gup [of 0 ?l ?r fs] fr(3) unfolding g'_def by auto
  have b: "bst None None g'" unfolding g'_def by (rule bst_gup [OF fr(2) H(1,2,5,6)])
  have fl: "root_fill g'" unfolding g'_def by (rule fill_gup [OF H(3,4) ff fr(2)])
  have f': "fresh t' = Suc ?n + allocs fs" using C S(4) by simp
  note ad = climbed_addrs [OF A(1,2) g'_def, folded f']
  have "dom (cells t1) = insert ?n (dom (cells t))"
    using S(1-3) a by (auto simp: dom_def) metis+
  then have dm: "dom (cells t') = {..<fresh t'}" using C S(4) tr f' by (auto simp: tree_rep_def)
  have "chain (cells t') (fleft gleaves fs @ a # ?n # fright gleaves fs)"
    using C S(1-4) a by (intro split_chain [OF tr g, of _ t1]) auto
  then have ch: "chain (cells t') (gleaves g')" by (simp add: g'_def gleaves_gup)
  have "tree_rep (t'\<lparr>tree_key_count := Suc (tree_key_count t')\<rparr>) g' d'"
    unfolding tree_rep_def using C b bl fl ad dm ch em(2) S(7) tr by (simp add: tree_rep_def)
  moreover have "fresh t' \<le> fresh t + d + 2" using f' allocs_le [of fs] fr(1) by simp
  moreover have "node_limit t' = node_limit t" using C S(5) by simp
  ultimately show ?thesis using t' em(1) by metis
qed

section \<open>Height\<close>

text \<open>The number of levels, counted along the first children.\<close>

fun levels :: "nat \<Rightarrow> store \<Rightarrow> addr \<Rightarrow> nat" where
  "levels 0 h a = 0"
| "levels (Suc fuel) h a =
     (if is_leaf (node_at h a) then 1 else Suc (levels fuel h (hd (children (node_at h a)))))"

definition height :: "bptree \<Rightarrow> nat" where
  "height t = (case root t of None \<Rightarrow> 0 | Some r \<Rightarrow> levels (Suc (fresh t)) (cells t) r)"

lemma levels_rep:
  "bst lo hi g \<Longrightarrow> bal d g \<Longrightarrow> rep h p g \<Longrightarrow> d < fuel \<Longrightarrow> levels fuel h (gaddr g) = Suc d"
proof (induction d arbitrary: g lo hi p fuel)
  case 0
  then obtain a ks vs where "g = GLeaf a ks vs" by (cases g) auto
  with 0 show ?case by (cases fuel) auto
next
  case (Suc d)
  then obtain a ks ts where g: "g = GNode a ks ts" by (cases g) auto
  obtain t ts' where ts: "ts = t # ts'" using Suc.prems g bst_children by (cases ts) auto
  obtain f where f: "fuel = Suc f" "d < f" using Suc.prems by (cases fuel) auto
  obtain l u where b: "bst l u t" using Suc.prems g ts bsts_bst [of lo ks ts hi t] by auto
  have "levels f h (gaddr t) = Suc d"
    using Suc.prems g ts f by (intro Suc.IH [OF b]) auto
  with node_at_rep(2) [OF Suc.prems(3) [unfolded g]] g ts f show ?case by simp
qed

lemma height_rep:
  assumes "tree_rep t g d"
  shows "height t = Suc d"
  using assms tree_rep_nodes(2) [OF assms] levels_rep [of None None g d "cells t" None]
  by (simp add: height_def tree_rep_def del: levels.simps)

lemma sum_list_at_least:
  fixes f :: "'a \<Rightarrow> nat"
  assumes "\<And>x. x \<in> set xs \<Longrightarrow> m \<le> f x" "n \<le> length xs"
  shows "n * m \<le> (\<Sum>x\<leftarrow>xs. f x)"
proof -
  have "length xs * m \<le> (\<Sum>x\<leftarrow>xs. f x)" using assms(1)
    by (induction xs) (auto intro: add_mono)
  then show ?thesis using mult_le_mono1 [OF assms(2)] le_trans by blast
qed

lemma fill_size: "fill g \<Longrightarrow> bal d g \<Longrightarrow> bst lo hi g \<Longrightarrow> 32 ^ Suc d \<le> length (entries g)"
proof (induction g arbitrary: d lo hi)
  case (GLeaf a ks vs)
  then show ?case by simp
next
  case (GNode a ks ts)
  obtain d' where d: "d = Suc d'" "\<forall>t \<in> set ts. bal d' t" using GNode.prems by auto
  have "32 ^ Suc d' \<le> length (entries t)" if t: "t \<in> set ts" for t
  proof -
    obtain l u where "bst l u t" using GNode.prems bsts_bst [of lo ks ts hi t] t by auto
    with GNode.IH [OF t] GNode.prems(1) d t show ?thesis by auto
  qed
  moreover have "32 \<le> length ts"
    using GNode.prems bsts_length [of lo ks ts hi] by simp
  ultimately have "32 * 32 ^ Suc d' \<le> (\<Sum>t\<leftarrow>ts. length (entries t))"
    by (intro sum_list_at_least)
  then show ?case using d by (simp add: length_concat comp_def)
qed

text \<open>A tree of two or more levels has at least \<open>2 * 32\<^sup>h\<^sup>-\<^sup>1\<close> keys.\<close>

lemma height_bound:
  assumes "bptree_inv t" "1 < height t"
  shows "2 * 32 ^ (height t - 1) \<le> tree_key_count t"
  using assms(1)
proof (cases rule: bptree_invE)
  case Empty
  with assms(2) show ?thesis by (simp add: height_def)
next
  case (Tree g d)
  then have h: "height t = Suc d" by (rule height_rep)
  have T: "bst None None g" "bal d g" "root_fill g" "tree_key_count t = length (entries g)"
    using Tree by (simp_all add: tree_rep_def)
  obtain d' a ks ts where g: "g = GNode a ks ts" "d = Suc d'" "\<forall>t \<in> set ts. bal d' t"
    using T h assms(2) by (cases g) auto
  have "32 ^ d \<le> length (entries x)" if x: "x \<in> set ts" for x
  proof -
    obtain l u where "bst l u x" using T(1) bsts_bst [of None ks ts None x] x g by auto
    with fill_size [of x d'] T(3) g x show ?thesis by auto
  qed
  moreover have "2 \<le> length ts" using T(1,3) g bsts_length [of None ks ts None] by auto
  ultimately have "2 * 32 ^ d \<le> (\<Sum>t\<leftarrow>ts. length (entries t))"
    by (intro sum_list_at_least)
  then show ?thesis using T(4) h g(1) by (simp add: length_concat comp_def)
qed

section \<open>Insertion\<close>

lemma init_inv: "bptree_inv (bptree_init limit)"
  by (simp add: bptree_inv_def bptree_init_def)

lemma insert_empty:
  assumes "root t = None" "tree_key_count t = 0" "cells t = Map.empty" "fresh t = 0" "can_alloc 1 t"
  shows "\<exists>t'. bptree_insert t k v = (Inr (), t') \<and> bptree_inv t' \<and> bptree_map t' = [k \<mapsto> v] \<and>
           fresh t' = 1 \<and> node_limit t' = node_limit t"
proof -
  define t' where "t' = t\<lparr>root := Some 0, tree_key_count := 1, fresh := 1, cells := [0 \<mapsto>
     \<lparr>is_leaf = True, keys = [k], parent = None, next_leaf = None, children = [], row_offsets = [v]\<rparr>]\<rparr>"
  have "bptree_insert t k v = (Inr (), t')"
    using assms create_node_ok [OF assms(5) [unfolded One_nat_def], of True]
    by (simp add: bptree_insert_def t'_def upd_def)
  moreover have tr: "tree_rep t' (GLeaf 0 [k] [v]) 0"
    by (simp add: tree_rep_def t'_def above_def below_def lessThan_Suc BPTREE_MAX_KEYS_def BPTREE_ORDER_def)
  moreover have "bptree_map t' = [k \<mapsto> v]"
    using bptree_entries_rep [OF tr] by (simp add: bptree_map_def)
  ultimately show ?thesis using bptree_invI [OF tr] by (simp add: t'_def)
qed

text \<open>The leaf that receives a key, with everything the insertion cases need.\<close>

lemma insert_leaf_cases:
  assumes tr: "tree_rep t g d" and g: "g = plug (GLeaf a ks vs) fs"
    and path: "find_leaf_node (Suc (fresh t)) (cells t) (root t) k = Inr (Some a)"
    and lf: "bst (flo fs) (fhi fs) (GLeaf a ks vs)"
  shows "k \<in> set ks \<Longrightarrow> bptree_insert t k v = (duplicate_key k, t)"
    and "k \<notin> set ks \<Longrightarrow> length ks < BPTREE_MAX_KEYS \<Longrightarrow> bptree_insert t k v = (Inr (),
       t\<lparr>cells := upd a (\<lambda>n. n\<lparr>keys := insert_at (insert_index ks k) k (keys n),
               row_offsets := insert_at (insert_index ks k) v (row_offsets n)\<rparr>) (cells t),
         tree_key_count := Suc (tree_key_count t)\<rparr>)"
    and "k \<notin> set ks \<Longrightarrow> \<not> length ks < BPTREE_MAX_KEYS \<Longrightarrow> bptree_insert t k v =
       (case split_leaf_and_insert t a k v of
          (Inl e, t1) \<Rightarrow> (Inl e, t1)
        | (Inr u, t1) \<Rightarrow> (Inr (), t1\<lparr>tree_key_count := tree_key_count t1 + 1\<rparr>))"
proof -
  obtain nx where a: "cells t a = Some \<lparr>is_leaf = True, keys = ks, parent = top fs, next_leaf = nx,
      children = [], row_offsets = vs\<rparr>" using leaf_node_at [OF tr [unfolded g]] by blast
  have rt: "root t = Some (gaddr g)" using tr by (simp add: tree_rep_def)
  have n: "node_at (cells t) a = \<lparr>is_leaf = True, keys = ks, parent = top fs, next_leaf = nx,
      children = [], row_offsets = vs\<rparr>" using a by (simp add: node_at_def)
  have dup: "insert_index ks k < length ks \<and> ks ! insert_index ks k = k \<longleftrightarrow> k \<in> set ks"
    using lf insert_index_duplicate by simp
  note D = bptree_insert_def insert_into_leaf_def split_leaf_and_insert_def key_count_def Let_def n dup
  show "bptree_insert t k v = (duplicate_key k, t)" if "k \<in> set ks"
    using that path rt by (simp add: D duplicate_key_def fail_def del: find_leaf_node.simps)
  show "bptree_insert t k v = (Inr (),
       t\<lparr>cells := upd a (\<lambda>n. n\<lparr>keys := insert_at (insert_index ks k) k (keys n),
               row_offsets := insert_at (insert_index ks k) v (row_offsets n)\<rparr>) (cells t),
         tree_key_count := Suc (tree_key_count t)\<rparr>)" if "k \<notin> set ks" "length ks < BPTREE_MAX_KEYS"
    using that path rt by (simp add: D del: find_leaf_node.simps)
  show "bptree_insert t k v =
       (case split_leaf_and_insert t a k v of
          (Inl e, t1) \<Rightarrow> (Inl e, t1)
        | (Inr u, t1) \<Rightarrow> (Inr (), t1\<lparr>tree_key_count := tree_key_count t1 + 1\<rparr>))"
    if "\<not> length ks < BPTREE_MAX_KEYS"
    using that path rt by (simp add: bptree_insert_def key_count_def n del: find_leaf_node.simps)
qed

text \<open>A key is in the tree iff it is in the leaf that the descent reaches.\<close>

lemma leaf_key:
  assumes tr: "tree_rep t g d" and g: "g = plug (GLeaf a ks vs) fs" and fr: "bst_frames fs"
    and lf: "bst (flo fs) (fhi fs) (GLeaf a ks vs)" and kb: "above (flo fs) k" "below k (fhi fs)"
  shows "k \<in> dom (bptree_map t) \<longleftrightarrow> k \<in> set ks"
proof -
  have "bptree_map t k = map_of (zip ks vs) k"
    unfolding bptree_map_def bptree_entries_rep [OF tr] g entries_plug entries.simps
    by (rule map_of_hole [OF fr kb])
  then show ?thesis using lf by (simp add: domIff map_of_zip_is_None)
qed

lemma insert_tree:
  assumes tr: "tree_rep t g d" and room: "can_alloc (d + 2) t" and new: "k \<notin> dom (bptree_map t)"
  shows "\<exists>t'. bptree_insert t k v = (Inr (), t') \<and> bptree_inv t' \<and>
           bptree_map t' = (bptree_map t)(k \<mapsto> v) \<and> fresh t' \<le> fresh t + d + 2 \<and>
           node_limit t' = node_limit t"
proof -
  obtain a ks vs fs where path: "find_leaf_node (Suc (fresh t)) (cells t) (root t) k = Inr (Some a)"
    and g: "g = plug (GLeaf a ks vs) fs"
    and fr: "length fs = d" "bst_frames fs" "bal_frames 0 fs"
    and lf: "bst (flo fs) (fhi fs) (GLeaf a ks vs)" and kb: "above (flo fs) k" "below k (fhi fs)"
    by (rule find_leaf_tree [OF tr, of k])
  note C = insert_leaf_cases [OF tr g path lf, of v]
  have k: "k \<notin> set ks" using new leaf_key [OF tr g fr(2) lf kb] by simp
  have full: "length ks \<le> BPTREE_MAX_KEYS"
    using tr by (auto simp: tree_rep_def g root_fill_frames split: if_splits)
  have m: "bptree_map t' = (bptree_map t)(k \<mapsto> v)"
    if "tree_rep t' g' d'" "map_of (entries g') = (map_of (entries g))(k \<mapsto> v)" for t' g' d'
    using that by (simp add: bptree_map_def bptree_entries_rep [OF tr] bptree_entries_rep [OF that(1)])
  show ?thesis
  proof (cases "length ks < BPTREE_MAX_KEYS")
    case True
    note I = insert_room [OF tr g fr kb lf k True refl refl refl, of v]
    show ?thesis using C(2) [OF k True] bptree_invI [OF I(1)] m [OF I] by simp
  next
    case False
    with full have "length ks = BPTREE_MAX_KEYS" by simp
    from insert_split [OF tr g fr kb lf k this room, of v] obtain t' g' d' where
      s: "split_leaf_and_insert t a k v = (Inr (), t')"
      and I: "tree_rep (t'\<lparr>tree_key_count := Suc (tree_key_count t')\<rparr>) g' d'"
        "map_of (entries g') = (map_of (entries g))(k \<mapsto> v)"
      and f: "fresh t' \<le> fresh t + d + 2" "node_limit t' = node_limit t"
      by blast
    show ?thesis using C(3) [OF k False] s bptree_invI [OF I(1)] m [OF I] f by simp
  qed
qed

lemma insert_new:
  assumes inv: "bptree_inv t" and room: "can_alloc (height t + 1) t" and new: "k \<notin> dom (bptree_map t)"
  shows "\<exists>t'. bptree_insert t k v = (Inr (), t') \<and> bptree_inv t' \<and>
           bptree_map t' = (bptree_map t)(k \<mapsto> v) \<and> fresh t' \<le> fresh t + height t + 1 \<and>
           node_limit t' = node_limit t"
  using inv
proof (cases rule: bptree_invE)
  case Empty
  then have "height t = 0" "bptree_map t = Map.empty"
    by (simp_all add: height_def bptree_map_def bptree_entries_empty)
  with insert_empty [OF Empty, of k v] room Empty(4) show ?thesis by auto
next
  case (Tree g d)
  with insert_tree [OF Tree _ new, of v] room height_rep [OF Tree] show ?thesis by simp
qed

lemma insert_duplicate:
  assumes inv: "bptree_inv t" and dup: "k \<in> dom (bptree_map t)"
  shows "bptree_insert t k v = (duplicate_key k, t)"
  using inv
proof (cases rule: bptree_invE)
  case Empty
  with dup show ?thesis by (simp add: bptree_map_def bptree_entries_empty)
next
  case (Tree g d)
  obtain a ks vs fs where path: "find_leaf_node (Suc (fresh t)) (cells t) (root t) k = Inr (Some a)"
    and g: "g = plug (GLeaf a ks vs) fs" and fr: "bst_frames fs"
    and lf: "bst (flo fs) (fhi fs) (GLeaf a ks vs)" and kb: "above (flo fs) k" "below k (fhi fs)"
    by (rule find_leaf_tree [OF Tree, of k])
  have "k \<in> set ks" using dup leaf_key [OF Tree g fr lf kb] by simp
  then show ?thesis by (rule insert_leaf_cases(1) [OF Tree g path lf])
qed

end
