(* ===== verification/Bptree_Index.thy ===== *)
theory Bptree_Index
  imports Bptree_Insert
begin

text \<open>
  The B+Tree as the runtime uses it: \<^verbatim>\<open>bptree_validate\<close> accepts every tree that the
  operations build, \<^verbatim>\<open>bptree_destroy\<close> frees every node exactly once, and the tree is an
  instance of the index interface \<open>ordered_index\<close>, whose clients only see a map.
\<close>

section \<open>Validation accepts\<close>

lemma strictly_increasing_sorted: "strictly_increasing ks \<longleftrightarrow> sorted_wrt (<) ks"
  by (induction ks rule: strictly_increasing.induct) (auto intro: less_trans)

fun kmax :: "gtree \<Rightarrow> bool" where
  "kmax (GLeaf a ks vs) \<longleftrightarrow> length ks \<le> BPTREE_MAX_KEYS"
| "kmax (GNode a ks ts) \<longleftrightarrow> length ks \<le> BPTREE_MAX_KEYS \<and> (\<forall>t \<in> set ts. kmax t)"

lemma fill_kmax: "fill g \<Longrightarrow> kmax g"
  by (induction g) auto

lemma root_fill_kmax: "root_fill g \<Longrightarrow> kmax g"
  by (cases g) (auto simp: fill_kmax)

lemma validate_children_ok:
  assumes "\<And>t lo hi state. t \<in> set ts \<Longrightarrow> bst lo hi t \<Longrightarrow> state \<in> {None, Some e} \<Longrightarrow>
      validate_node fuel h (gaddr t) (Some a) lo hi depth state = Inr (Some e)"
    and "bsts lo ks ts hi" "state \<in> {None, Some e}"
  shows "validate_children fuel h a ks (map gaddr ts) lo hi depth state = Inr (Some e)"
  using assms
proof (induction ts arbitrary: lo ks state)
  case Nil
  then show ?case by simp
next
  case (Cons t ts)
  show ?case
  proof (cases ks)
    case Nil
    with Cons.prems(1) [of t lo hi state] Cons.prems(2,3) show ?thesis by simp
  next
    case (Cons k ks')
    have "validate_children fuel h a ks' (map gaddr ts) (Some k) hi depth (Some e) = Inr (Some e)"
      using Cons.prems Cons by (intro Cons.IH) auto
    with Cons.prems(1) [of t lo "Some k" state] Cons.prems(2,3) Cons show ?thesis by simp
  qed
qed

lemma validate_node_ok:
  "rep h p g \<Longrightarrow> bst lo hi g \<Longrightarrow> bal d g \<Longrightarrow> kmax g \<Longrightarrow> d < fuel \<Longrightarrow>
   state \<in> {None, Some (depth + d)} \<Longrightarrow>
   validate_node fuel h (gaddr g) p lo hi depth state = Inr (Some (depth + d))"
proof (induction g arbitrary: p lo hi d fuel depth state)
  case (GLeaf a ks vs)
  then obtain f where f: "fuel = Suc f" by (cases fuel) auto
  have "list_all (\<lambda>k. above lo k \<and> below k hi) ks" using GLeaf.prems(2) by (simp add: list_all_iff)
  with GLeaf.prems node_at_rep(1) [OF GLeaf.prems(1)] f show ?case
    by (auto simp: key_count_def strictly_increasing_sorted Let_def)
next
  case (GNode a ks ts)
  obtain f where f: "fuel = Suc f" using GNode.prems(5) by (cases fuel) auto
  obtain d' where d: "d = Suc d'" "\<forall>t \<in> set ts. bal d' t" using GNode.prems(3) by auto
  have "validate_node f h (gaddr t) (Some a) l u (depth + 1) st = Inr (Some (depth + 1 + d'))"
    if "t \<in> set ts" "bst l u t" "st \<in> {None, Some (depth + 1 + d')}" for t l u st
    using that GNode.prems d f by (intro GNode.IH) auto
  then have "validate_children f h a ks (map gaddr ts) lo hi (depth + 1) state = Inr (Some (depth + 1 + d'))"
    using GNode.prems(2,6) d(1) by (intro validate_children_ok) auto
  moreover have "length ks \<le> BPTREE_MAX_KEYS" "sorted_wrt (<) ks"
    using GNode.prems(2,4) bsts_separators [of lo ks ts hi] by simp_all
  ultimately show ?case
    using node_at_rep(2) [OF GNode.prems(1)] f d(1)
    by (simp add: key_count_def strictly_increasing_sorted Let_def)
qed

lemma check_leaf_keys_ok:
  "sorted_wrt (<) ks \<Longrightarrow> \<forall>k \<in> set ks. \<forall>p. prev = Some p \<longrightarrow> p < k \<Longrightarrow>
   check_leaf_keys ks prev c = Some (if ks = [] then prev else Some (last ks), c + length ks)"
proof (induction ks arbitrary: prev c)
  case (Cons k ks)
  then have "check_leaf_keys ks (Some k) (c + 1) = Some (if ks = [] then Some k else Some (last ks), c + 1 + length ks)"
    by (intro Cons.IH) auto
  with Cons.prems show ?case by (cases prev) (auto simp: not_le)
qed simp

lemma check_leaf_chain_ok:
  "chain h as \<Longrightarrow> \<forall>a \<in> set as. is_leaf (node_at h a) \<Longrightarrow> length as < fuel \<Longrightarrow>
   sorted_wrt (<) (concat (map (\<lambda>a. keys (node_at h a)) as)) \<Longrightarrow>
   \<forall>k \<in> set (concat (map (\<lambda>a. keys (node_at h a)) as)). \<forall>p. prev = Some p \<longrightarrow> p < k \<Longrightarrow>
   check_leaf_chain fuel h (if as = [] then None else Some (hd as)) prev c =
     Inr (c + length (concat (map (\<lambda>a. keys (node_at h a)) as)))"
proof (induction as arbitrary: fuel prev c)
  case Nil
  then show ?case by (cases fuel) auto
next
  case (Cons a as)
  obtain f where f: "fuel = Suc f" "length as < f" using Cons.prems(3) by (cases fuel) auto
  let ?ks = "keys (node_at h a)" and ?rest = "concat (map (\<lambda>a. keys (node_at h a)) as)"
  let ?prev = "if ?ks = [] then prev else Some (last ?ks)"
  have nx: "next_leaf (node_at h a) = (if as = [] then None else Some (hd as))"
    using Cons.prems(1) by (auto simp: node_at_def)
  have s: "sorted_wrt (<) ?ks" "sorted_wrt (<) ?rest" "\<forall>x \<in> set ?ks. \<forall>y \<in> set ?rest. x < y"
    using Cons.prems(4) by (simp_all add: sorted_wrt_append)
  have k: "check_leaf_keys ?ks prev c = Some (?prev, c + length ?ks)"
    using s(1) Cons.prems(5) by (intro check_leaf_keys_ok) auto
  have "\<forall>k \<in> set ?rest. \<forall>p. ?prev = Some p \<longrightarrow> p < k"
    using s(3) Cons.prems(5) by (auto split: if_splits)
  then have "check_leaf_chain f h (if as = [] then None else Some (hd as)) ?prev (c + length ?ks) =
      Inr (c + length ?ks + length ?rest)"
    using Cons.prems(1,2) s(2) f(2) by (intro Cons.IH) auto
  with f(1) nx k Cons.prems(2) show ?case by simp
qed

text \<open>The leaves of a represented tree hold the keys of its entries.\<close>

lemma rep_leaves:
  "rep h p g \<Longrightarrow> bst lo hi g \<Longrightarrow> (\<forall>a \<in> set (gleaves g). is_leaf (node_at h a)) \<and>
   concat (map (\<lambda>a. keys (node_at h a)) (gleaves g)) = map fst (entries g)"
proof (induction g arbitrary: p lo hi)
  case (GLeaf a ks vs)
  then show ?case using node_at_rep(1) [OF GLeaf.prems(1)] by simp
next
  case (GNode a ks ts)
  have "(\<forall>a \<in> set (gleaves t). is_leaf (node_at h a)) \<and>
      concat (map (\<lambda>a. keys (node_at h a)) (gleaves t)) = map fst (entries t)" if "t \<in> set ts" for t
    using GNode.IH [OF that] GNode.prems bsts_bst [of lo ks ts hi t] that by auto
  then show ?case by (induction ts) auto
qed

lemma validate_ok:
  assumes "bptree_inv t"
  shows "bptree_validate t = Inr ()"
  using assms
proof (cases rule: bptree_invE)
  case Empty
  then show ?thesis by (simp add: bptree_validate_def)
next
  case (Tree g d)
  have T: "root t = Some (gaddr g)" "rep (cells t) None g" "bst None None g" "bal d g" "root_fill g"
    "chain (cells t) (gleaves g)" "tree_key_count t = length (entries g)"
    using Tree by (simp_all add: tree_rep_def)
  note N = tree_rep_nodes [OF Tree]
  have 1: "validate_node (Suc (fresh t)) (cells t) (gaddr g) None None None 0 None = Inr (Some d)"
    using validate_node_ok [OF T(2,3,4) root_fill_kmax [OF T(5)], of "Suc (fresh t)" None 0] N(2)
    by (simp del: validate_node.simps)
  have 2: "find_leftmost_leaf (Suc (fresh t)) (cells t) (Some (gaddr g)) = Inr (Some (hd (gleaves g)))"
    using N(2) by (intro find_leftmost_leaf_path [OF T(3,4,2)]) simp
  note L = rep_leaves [OF T(2,3)]
  have 3: "check_leaf_chain (Suc (fresh t)) (cells t) (Some (hd (gleaves g))) None 0 =
      Inr (tree_key_count t)"
    using check_leaf_chain_ok [OF T(6), of "Suc (fresh t)" None 0] L N(3) T(7) gleaves_not_Nil [OF T(3)]
      bst_entries(1) [OF T(3)]
    by (simp del: check_leaf_chain.simps)
  show ?thesis
    unfolding bptree_validate_def T(1) option.case 1 sum.case 2 3 by simp
qed

section \<open>Destruction frees every node once\<close>

lemma destroy_children_ok:
  assumes "\<And>t. t \<in> set ts \<Longrightarrow> \<exists>fr. destroy_node fuel h (gaddr t) = Inr fr \<and> mset fr = mset (gaddrs t)"
  shows "\<exists>fr. destroy_children fuel h (map gaddr ts) = Inr fr \<and> mset fr = mset (gaddrs_list ts)"
  using assms
proof (induction ts)
  case (Cons t ts)
  obtain f1 where "destroy_node fuel h (gaddr t) = Inr f1" "mset f1 = mset (gaddrs t)"
    using Cons.prems [of t] by auto
  moreover obtain f2 where "destroy_children fuel h (map gaddr ts) = Inr f2" "mset f2 = mset (gaddrs_list ts)"
    using Cons.IH Cons.prems by auto
  ultimately show ?case by simp
qed simp

lemma destroy_node_ok:
  "rep h p g \<Longrightarrow> bal d g \<Longrightarrow> d < fuel \<Longrightarrow>
   \<exists>fr. destroy_node fuel h (gaddr g) = Inr fr \<and> mset fr = mset (gaddrs g)"
proof (induction g arbitrary: p d fuel)
  case (GLeaf a ks vs)
  then show ?case using node_at_rep(1) [OF GLeaf.prems(1)] by (cases fuel) auto
next
  case (GNode a ks ts)
  obtain f where f: "fuel = Suc f" using GNode.prems(3) by (cases fuel) auto
  have "\<exists>fr. destroy_node f h (gaddr t) = Inr fr \<and> mset fr = mset (gaddrs t)" if "t \<in> set ts" for t
    using that GNode.prems f by (auto intro!: GNode.IH)
  then obtain fr where "destroy_children f h (map gaddr ts) = Inr fr" "mset fr = mset (gaddrs_list ts)"
    using destroy_children_ok by blast
  with node_at_rep(2) [OF GNode.prems(1)] f show ?case by simp
qed

lemma destroy_ok:
  assumes "bptree_inv t"
  shows "\<exists>freed t'. bptree_destroy t = Inr (freed, t') \<and> distinct freed \<and> set freed = dom (cells t) \<and>
           root t' = None \<and> tree_key_count t' = 0 \<and> cells t' = Map.empty"
  using assms
proof (cases rule: bptree_invE)
  case Empty
  then show ?thesis by (simp add: bptree_destroy_def)
next
  case (Tree g d)
  have T: "root t = Some (gaddr g)" "rep (cells t) None g" "bal d g" "distinct (gaddrs g)"
    "set (gaddrs g) = dom (cells t)" using Tree by (simp_all add: tree_rep_def)
  obtain fr where fr: "destroy_node (Suc (fresh t)) (cells t) (gaddr g) = Inr fr"
    and m: "mset fr = mset (gaddrs g)"
    using destroy_node_ok [OF T(2,3), of "Suc (fresh t)"] tree_rep_nodes(2) [OF Tree] by auto
  have "distinct fr" "set fr = dom (cells t)"
    using mset_eq_imp_distinct_iff [OF m] mset_eq_setD [OF m] T(4,5) by auto
  moreover have "(cells t) |` (- dom (cells t)) = Map.empty"
    by (auto simp: restrict_map_def fun_eq_iff)
  ultimately show ?thesis
    using fr T(1) by (simp add: bptree_destroy_def del: destroy_node.simps)
qed

section \<open>The index interface\<close>

text \<open>Inserting a list of entries, stopping at the first error.\<close>

fun insert_all :: "('t \<Rightarrow> u64 \<Rightarrow> int \<Rightarrow> unit result \<times> 't) \<Rightarrow> (u64 \<times> int) list \<Rightarrow> 't \<Rightarrow> unit result \<times> 't" where
  "insert_all ins [] t = (Inr (), t)"
| "insert_all ins ((k, v) # es) t =
     (case ins t k v of
        (Inl e, t') \<Rightarrow> (Inl e, t')
      | (Inr u, t') \<Rightarrow> insert_all ins es t')"

locale ordered_index =
  fixes invar :: "'t \<Rightarrow> bool"
    and contents :: "'t \<Rightarrow> u64 \<rightharpoonup> int"
    and ins :: "'t \<Rightarrow> u64 \<Rightarrow> int \<Rightarrow> unit result \<times> 't"
    and search :: "'t \<Rightarrow> u64 \<Rightarrow> int option result"
  assumes search_spec: "invar t \<Longrightarrow> search t k = Inr (contents t k)"
    and insert_fresh: "invar t \<Longrightarrow> k \<notin> dom (contents t) \<Longrightarrow>
      \<exists>t'. ins t k v = (Inr (), t') \<and> invar t' \<and> contents t' = (contents t)(k \<mapsto> v)"
    and insert_dup: "invar t \<Longrightarrow> k \<in> dom (contents t) \<Longrightarrow> ins t k v = (duplicate_key k, t)"
begin

lemma insert_invar: "invar t \<Longrightarrow> invar (snd (ins t k v))"
  using insert_fresh [of t k v] insert_dup [of t k v] by (cases "k \<in> dom (contents t)") auto

lemma search_after_insert:
  assumes "invar t" "ins t k v = (Inr (), t')"
  shows "search t' k' = Inr (if k' = k then Some v else contents t k')"
proof -
  have "k \<notin> dom (contents t)" using assms insert_dup by (fastforce simp: duplicate_key_def)
  with insert_fresh [OF assms(1), of k v] assms(2) search_spec show ?thesis by auto
qed

lemma insert_all_distinct:
  assumes "invar t" "distinct (map fst es)" "fst ` set es \<inter> dom (contents t) = {}"
  shows "\<exists>t'. insert_all ins es t = (Inr (), t') \<and> invar t' \<and> contents t' = contents t ++ map_of es"
  using assms
proof (induction es arbitrary: t)
  case (Cons e es)
  obtain k v where e: "e = (k, v)" by (cases e)
  obtain t1 where t1: "ins t k v = (Inr (), t1)" "invar t1" "contents t1 = (contents t)(k \<mapsto> v)"
    using insert_fresh [of t k v] Cons.prems e by auto
  have "fst ` set es \<inter> dom (contents t1) = {}" using Cons.prems e t1(3) by auto
  with Cons.IH [OF t1(2)] Cons.prems e obtain t' where
    t': "insert_all ins es t1 = (Inr (), t')" "invar t'" "contents t' = contents t1 ++ map_of es"
    by auto
  have "map_of es k = None" using Cons.prems(2) e by (simp add: map_of_eq_None_iff)
  then have "contents t1 ++ map_of es = contents t ++ map_of (e # es)"
    using t1(3) e by (auto simp: fun_eq_iff map_add_def split: option.splits)
  with t1 t' e show ?case by (simp del: map_of.simps)
qed simp

lemma insert_all_invar: "invar t \<Longrightarrow> invar (snd (insert_all ins es t))"
proof (induction es arbitrary: t)
  case (Cons e es)
  obtain k v where e: "e = (k, v)" by (cases e)
  obtain res t1 where i: "ins t k v = (res, t1)" by fastforce
  then have "invar t1" using insert_invar [OF Cons.prems, of k v] by simp
  with Cons.IH i e show ?case by (simp split: sum.split)
qed simp

lemma insert_all_duplicate:
  assumes "invar t" "\<not> distinct (map fst es) \<or> fst ` set es \<inter> dom (contents t) \<noteq> {}"
  shows "\<exists>k t'. insert_all ins es t = (duplicate_key k, t') \<and> k \<in> fst ` set es"
  using assms
proof (induction es arbitrary: t)
  case (Cons e es)
  obtain k v where e: "e = (k, v)" by (cases e)
  show ?case
  proof (cases "k \<in> dom (contents t)")
    case True
    then have "insert_all ins (e # es) t = (duplicate_key k, t)"
      using insert_dup [OF Cons.prems(1), of k v] by (simp add: e duplicate_key_def fail_def)
    with e show ?thesis by auto
  next
    case False
    then obtain t1 where t1: "ins t k v = (Inr (), t1)" "invar t1" "contents t1 = (contents t)(k \<mapsto> v)"
      using insert_fresh [of t k v] Cons.prems by auto
    have "\<not> distinct (map fst es) \<or> fst ` set es \<inter> dom (contents t1) \<noteq> {}"
      using Cons.prems(2) False e t1(3) by auto
    with Cons.IH [OF t1(2)] t1(1) e show ?thesis by auto
  qed
qed simp

end

text \<open>With memory that does not run out, the B+Tree is such an index.\<close>

definition index_inv :: "bptree \<Rightarrow> bool" where
  "index_inv t \<longleftrightarrow> bptree_inv t \<and> node_limit t = None"

interpretation bp: ordered_index index_inv bptree_map bptree_insert bptree_search
proof (unfold_locales, goal_cases)
  case (1 t k)
  then show ?case by (simp add: index_inv_def search_correct)
next
  case (2 t k v)
  then show ?case using insert_new [of t k v] by (auto simp: index_inv_def can_alloc_def)
next
  case (3 t k v)
  then show ?case by (simp add: index_inv_def insert_duplicate)
qed

lemma index_inv_init: "index_inv (bptree_init None)"
  by (simp add: index_inv_def init_inv) (simp add: bptree_init_def)

lemma bptree_map_init [simp]: "bptree_map (bptree_init limit) = Map.empty"
  by (simp add: bptree_map_def bptree_entries_def bptree_init_def)

section \<open>Sizes\<close>

lemma key_count_map:
  assumes "bptree_inv t"
  shows "tree_key_count t = card (dom (bptree_map t))"
proof -
  have "distinct (map fst (bptree_entries t))"
    using bptree_entries_sorted [OF assms] by (simp add: strict_sorted_iff)
  then have "card (fst ` set (bptree_entries t)) = length (bptree_entries t)"
    by (metis distinct_card length_map list.set_map)
  then show ?thesis using key_count_entries [OF assms] by (simp add: bptree_map_def dom_map_of_conv_image_fst)
qed


lemma bptree_inv_limit: "bptree_inv (t\<lparr>node_limit := l\<rparr>) \<longleftrightarrow> bptree_inv t"
proof -
  have "tree_rep (t\<lparr>node_limit := l\<rparr>) = tree_rep t" by (simp add: tree_rep_def fun_eq_iff)
  then show ?thesis by (simp add: bptree_inv_def split: option.split)
qed

text \<open>Trees with the keys 1 to \<open>n\<close>.\<close>

definition demo_tree :: "nat \<Rightarrow> bptree" where
  "demo_tree n =
     snd (insert_all bptree_insert (map (\<lambda>i. (of_nat i, int (10 * i))) [1..<Suc n]) (bptree_init None))"

lemma demo_tree_inv: "bptree_inv (demo_tree n)" "node_limit (demo_tree n) = None"
  using bp.insert_all_invar [OF index_inv_init] by (simp_all add: demo_tree_def index_inv_def)

lemma demo_tree_map:
  assumes "n < 2 ^ 64"
  shows "dom (bptree_map (demo_tree n)) = of_nat ` {1..n}" "tree_key_count (demo_tree n) = n"
proof -
  let ?es = "map (\<lambda>i. (of_nat i :: u64, int (10 * i))) [1..<Suc n]"
  have inj: "inj_on (of_nat :: nat \<Rightarrow> u64) {1..n}"
    using assms by (auto intro!: inj_onI simp: word_unat_eq_iff unat_of_nat take_bit_nat_eq_self)
  have "map fst ?es = map of_nat [1..<Suc n]" by simp
  moreover have "inj_on (of_nat :: nat \<Rightarrow> u64) (set [1..<Suc n])"
    using inj by (simp only: set_upt atLeastLessThanSuc_atLeastAtMost)
  ultimately have "distinct (map fst ?es)" by (metis distinct_map distinct_upt)
  from bp.insert_all_distinct [OF index_inv_init this] have "bptree_map (demo_tree n) = map_of ?es"
    by (auto simp: demo_tree_def)
  then show d: "dom (bptree_map (demo_tree n)) = of_nat ` {1..n}"
    by (simp only: dom_map_of_conv_image_fst set_map image_image fst_conv set_upt
        atLeastLessThanSuc_atLeastAtMost)
  show "tree_key_count (demo_tree n) = n"
    using key_count_map [OF demo_tree_inv(1), of n] card_image [OF inj] by (simp add: d)
qed

section \<open>Running out of memory in a root split\<close>

lemma oom_split:
  assumes inv: "bptree_inv t" and h: "height t = 1" and full: "tree_key_count t = BPTREE_MAX_KEYS"
    and lim: "node_limit t = Some (Suc (fresh t))" and new: "k \<notin> dom (bptree_map t)"
  shows "\<exists>t' k'. bptree_insert t k v = (fail STATUS_INDEX_ERROR ''INDEX ERROR: out of memory'', t') \<and>
           k' \<in> dom (bptree_map t) \<and> bptree_search t' k' = Inr None \<and>
           tree_key_count t' = tree_key_count t"
  using inv
proof (cases rule: bptree_invE)
  case Empty
  with h show ?thesis by (simp add: height_def)
next
  case (Tree g d)
  have d: "d = 0" using height_rep [OF Tree] h by simp
  obtain a ks vs fs where path: "find_leaf_node (Suc (fresh t)) (cells t) (root t) k = Inr (Some a)"
    and g: "g = plug (GLeaf a ks vs) fs" and fs: "length fs = d" and fr: "bst_frames fs"
    and lf: "bst (flo fs) (fhi fs) (GLeaf a ks vs)" and kb: "above (flo fs) k" "below k (fhi fs)"
    by (rule find_leaf_tree [OF Tree, of k])
  have fs0: "fs = []" using fs d by simp
  have len: "length ks = 63" "length vs = 63" and srt: "sorted_wrt (<) ks"
    using Tree full lf by (auto simp: tree_rep_def g fs0 BPTREE_MAX_KEYS_def BPTREE_ORDER_def)
  have kn: "k \<notin> set ks" using new leaf_key [OF Tree g fr lf kb] by simp
  obtain nx where a: "cells t a = Some \<lparr>is_leaf = True, keys = ks, parent = top fs, next_leaf = nx,
      children = [], row_offsets = vs\<rparr>" using leaf_node_at [OF Tree [unfolded g]] by blast
  have f1: "fresh t = 1" and rt: "root t = Some a" and ne: "a \<noteq> fresh t"
    using tree_rep_nodes(1) [OF Tree] Tree leaf_addrs(3) [OF Tree g] by (simp_all add: g fs0 tree_rep_def)
  define i where "i = insert_index ks k"
  define t1 where "t1 = split_leaf_state t a i k v"
  let ?tk = "insert_at i k ks" and ?tv = "insert_at i v vs"
  have m: "(32::nat) = (length ks + 1) div 2" using len by simp
  note S = split_leaf_store [OF a ne m t1_def]
  have "split_leaf_and_insert t a k v = insert_into_parent (fresh t) t1 a (hd (drop 32 ?tk)) (fresh t)"
    using split_leaf_and_insert_new [of t a k 0 i 32 v] a srt kn lim len
    by (simp add: node_at_def key_count_def i_def t1_def can_alloc_def)
  also have "\<dots> = (fail STATUS_INDEX_ERROR ''INDEX ERROR: out of memory'', t1)"
    using S(1,4,5) f1 lim fs0 by (simp add: node_at_def create_node_def)
  finally have ins: "bptree_insert t k v = (fail STATUS_INDEX_ERROR ''INDEX ERROR: out of memory'', t1)"
    using insert_leaf_cases(3) [OF Tree g path lf kn, of v] len
    by (simp add: BPTREE_MAX_KEYS_def BPTREE_ORDER_def fail_def)
  have stk: "sorted_wrt (<) ?tk" using srt kn insert_at_sorted by (simp add: i_def)
  then have dtk: "distinct (take 32 ?tk @ drop 32 ?tk)" by (simp add: strict_sorted_iff)
  have "card (set (drop 32 ?tk)) = 32" using dtk len by (simp add: distinct_card)
  then have "\<not> set (drop 32 ?tk) \<subseteq> {k}" using card_mono [of "{k}" "set (drop 32 ?tk)"] by auto
  then obtain y where y: "y \<in> set (drop 32 ?tk)" "y \<noteq> k" by blast
  then have "y \<in> set ks" by (metis in_set_dropD insertE set_insert_at)
  then have ydom: "y \<in> dom (bptree_map t)"
    using leaf_key [OF Tree g fr lf, of y] by (simp add: fs0 above_def below_def)
  have "y \<notin> set (take 32 ?tk)" using dtk y(1) by (auto simp del: append_take_drop_id)
  then have "leaf_lookup (take 32 ?tk) (take 32 ?tv) y = None"
    by (auto simp: leaf_lookup_map_of map_of_eq_None_iff dest: set_zip_leftD)
  then have "bptree_search t1 y = Inr None"
    using S(1,6) rt by (simp add: bptree_search_def node_at_def)
  with ins ydom S(7) show ?thesis by blast
qed

section \<open>Properties\<close>

text \<open>
  C9. The tree is a map.  On every tree the operations can build, \<^verbatim>\<open>bptree_search\<close> terminates
  without error and finds exactly what the leaf chain holds.  With memory for one node per level and
  a new root, \<^verbatim>\<open>bptree_insert\<close> of a new key succeeds, keeps the invariant and adds exactly
  that entry, whatever splits it needs, so that a search finds the new key and every other key as
  before; a key that is present is refused with the duplicate-key error and the tree is not changed.
\<close>

theorem bptree_insert_correct:
  assumes "bptree_inv t" "can_alloc (height t + 1) t"
  shows "bptree_search t k = Inr (bptree_map t k) \<and>
    (if key \<in> dom (bptree_map t) then bptree_insert t key row_offset = (duplicate_key key, t)
     else \<exists>t'. bptree_insert t key row_offset = (Inr (), t') \<and> bptree_inv t' \<and>
            bptree_map t' = (bptree_map t)(key \<mapsto> row_offset) \<and> node_limit t' = node_limit t \<and>
            bptree_search t' k = (if k = key then Inr (Some row_offset) else bptree_search t k))"
  using insert_new [OF assms, of key row_offset] insert_duplicate [OF assms(1), of key row_offset]
    search_correct [OF assms(1), of k] search_correct [where k = k]
  by (cases "key \<in> dom (bptree_map t)") (simp_all only: if_True if_False, auto)

theorem bptree_insert_correct_witness:
  "\<exists>t'. bptree_insert (demo_tree 63) 100 5 = (Inr (), t') \<and> bptree_inv t' \<and>
     bptree_map t' = (bptree_map (demo_tree 63))(100 \<mapsto> 5) \<and> bptree_search t' 100 = Inr (Some 5)"
proof -
  have "(100 :: u64) \<notin> of_nat ` {1..63}" by (auto simp: word_unat_eq_iff unat_of_nat take_bit_nat_eq_self)
  then have "(100 :: u64) \<notin> dom (bptree_map (demo_tree 63))" using demo_tree_map(1) [of 63] by simp
  moreover have "can_alloc (height (demo_tree 63) + 1) (demo_tree 63)"
    by (simp add: can_alloc_def demo_tree_inv)
  ultimately show ?thesis using bptree_insert_correct [OF demo_tree_inv(1) [of 63], of 100 100 5] by auto
qed

text \<open>
  C10. Every tree the operations can build passes \<^verbatim>\<open>bptree_validate\<close>: parent pointers, key
  counts, key order, key ranges, leaf depths, the sorted leaf chain and the key count are all in
  order; and \<^verbatim>\<open>bptree_destroy\<close> frees every node of it exactly once and leaves an empty tree.
\<close>

theorem bptree_validate_and_destroy:
  assumes "bptree_inv t"
  shows "bptree_validate t = Inr () \<and>
    (\<exists>freed t'. bptree_destroy t = Inr (freed, t') \<and> distinct freed \<and> set freed = dom (cells t) \<and>
       root t' = None \<and> tree_key_count t' = 0 \<and> cells t' = Map.empty)"
  using validate_ok [OF assms] destroy_ok [OF assms] by simp

theorem bptree_validate_and_destroy_witness:
  "bptree_validate (demo_tree 70) = Inr () \<and>
   (\<exists>freed t'. bptree_destroy (demo_tree 70) = Inr (freed, t') \<and> distinct freed \<and>
      set freed = dom (cells (demo_tree 70)) \<and> cells t' = Map.empty)"
  using bptree_validate_and_destroy [OF demo_tree_inv(1) [of 70]] by blast



text \<open>
  C12. When the split of a full root leaf gets memory for the new leaf but not for the new root,
  \<^verbatim>\<open>bptree_insert\<close> reports out of memory after it has already moved the upper half of the
  entries away: a key that was in the tree is no longer found, while the key count still counts it.
\<close>

theorem bptree_insert_out_of_memory_loses_keys:
  assumes "bptree_inv t" "height t = 1" "tree_key_count t = BPTREE_MAX_KEYS"
    and "node_limit t = Some (Suc (fresh t))" "key \<notin> dom (bptree_map t)"
  shows "\<exists>t' lost. bptree_insert t key row_offset =
             (fail STATUS_INDEX_ERROR ''INDEX ERROR: out of memory'', t') \<and>
           lost \<in> dom (bptree_map t) \<and> bptree_search t' lost = Inr None \<and>
           tree_key_count t' = tree_key_count t"
  by (rule oom_split [OF assms])

theorem bptree_insert_out_of_memory_loses_keys_witness:
  "\<exists>t t' lost. bptree_insert t 100 5 = (fail STATUS_INDEX_ERROR ''INDEX ERROR: out of memory'', t') \<and>
     bptree_search t lost \<noteq> Inr None \<and> bptree_search t' lost = Inr None"
proof -
  define t where "t = (demo_tree 63)\<lparr>node_limit := Some (Suc (fresh (demo_tree 63)))\<rparr>"
  have inv: "bptree_inv t" by (simp add: t_def bptree_inv_limit demo_tree_inv)
  have kc: "tree_key_count t = 63" using demo_tree_map(2) [of 63] by (simp add: t_def)
  have "root t = root (demo_tree 63)" "cells t = cells (demo_tree 63)" "fresh t = fresh (demo_tree 63)"
    by (simp_all add: t_def)
  then have e: "bptree_map t = bptree_map (demo_tree 63)" by (simp only: bptree_map_def bptree_entries_def)
  have "height t \<noteq> 0"
    using inv kc by (cases rule: bptree_invE) (simp_all add: height_rep)
  moreover have "\<not> 1 < height t"
  proof
    assume h: "1 < height t"
    then have "(32::nat) ^ 1 \<le> 32 ^ (height t - 1)" by (intro power_increasing) simp_all
    then show False using height_bound [OF inv h] kc by simp
  qed
  ultimately have h: "height t = 1" by simp
  have "(100 :: u64) \<notin> of_nat ` {1..63}" by (auto simp: word_unat_eq_iff unat_of_nat take_bit_nat_eq_self)
  then have new: "(100 :: u64) \<notin> dom (bptree_map t)" using demo_tree_map(1) [of 63] e by simp
  have "tree_key_count t = BPTREE_MAX_KEYS" "node_limit t = Some (Suc (fresh t))"
    using kc by (simp_all add: BPTREE_MAX_KEYS_def BPTREE_ORDER_def t_def)
  from bptree_insert_out_of_memory_loses_keys [OF inv h this new, of 5] show ?thesis
    using search_correct [OF inv] by (metis domIff sum.inject(2))
qed

end
