(* ===== verification/Indexed_Rows.thy ===== *)
theory Indexed_Rows
  imports Storage Bptree_Index
begin

text \<open>
  What a table file and an index on it promise together.  The contract extends that of the row file
  and that of the index by a key that each row may have; the index holds the offset of each row under
  the key of the row.  Its clients are the lookup of a SELECT by id and the append of an INSERT.
\<close>

definition key_entries :: "('r \<Rightarrow> u64 option) \<Rightarrow> ('r \<times> int) list \<Rightarrow> (u64 \<times> int) list" where
  "key_entries key rs = map (\<lambda>(r, off). (the (key r), off)) rs"

definition keys_unique :: "('r \<Rightarrow> u64 option) \<Rightarrow> ('r \<times> int) list \<Rightarrow> bool" where
  "keys_unique key rs \<longleftrightarrow> (\<forall>(r, off) \<in> set rs. key r \<noteq> None) \<and> distinct (map fst (key_entries key rs))"

lemma key_entries_simps [simp]:
  "key_entries key [] = []" "key_entries key ((r, off) # rs) = (the (key r), off) # key_entries key rs"
  "key_entries key (rs @ rs') = key_entries key rs @ key_entries key rs'"
  by (simp_all add: key_entries_def)

lemma keys_unique_simps [simp]:
  "keys_unique key []"
  "keys_unique key ((r, off) # rs) \<longleftrightarrow>
     (\<exists>k. key r = Some k \<and> k \<notin> fst ` set (key_entries key rs)) \<and> keys_unique key rs"
  by (fastforce simp: keys_unique_def)+

lemma key_miss:
  "map_of (key_entries key rs) k = None \<Longrightarrow> \<forall>(r, off) \<in> set rs. key r \<noteq> None \<Longrightarrow>
   filter (\<lambda>r. key r = Some k) (map fst rs) = []"
proof (induction rs)
  case (Cons r rs)
  then show ?case by (cases r) (auto split: if_splits)
qed simp

lemma key_hit:
  "map_of (key_entries key rs) k = Some off \<Longrightarrow> keys_unique key rs \<Longrightarrow>
   \<exists>r. (r, off) \<in> set rs \<and> filter (\<lambda>r. key r = Some k) (map fst rs) = [r]"
proof (induction rs)
  case (Cons x rs)
  obtain r o' where x: "x = (r, o')" by (cases x)
  obtain k' where k': "key r = Some k'" "k' \<notin> fst ` set (key_entries key rs)" "keys_unique key rs"
    using Cons.prems(2) x by auto
  show ?case
  proof (cases "k' = k")
    case True
    then have "map_of (key_entries key rs) k = None" using k' by (simp add: map_of_eq_None_iff)
    with key_miss [OF this] Cons.prems(1) k' x True show ?thesis by (auto simp: keys_unique_def)
  next
    case False
    with Cons x k' show ?thesis by auto
  qed
qed simp

lemma keys_unique_append:
  "keys_unique key rs \<Longrightarrow> key r = Some k \<Longrightarrow> k \<notin> fst ` set (key_entries key rs) \<Longrightarrow> keys_unique key (rs @ [(r, off)])"
  by (auto simp: keys_unique_def)

locale indexed_rows = row_store holds append_row read_at read_all fits stored frame + ordered_index invar contents ins search
  for holds :: "'s \<Rightarrow> ('r \<times> int) list \<Rightarrow> bool" and append_row read_at read_all fits stored frame
    and invar :: "'t \<Rightarrow> bool" and contents ins search +
  fixes key :: "'r \<Rightarrow> u64 option"
begin

text \<open>A lookup through the index selects what a scan selects.\<close>

lemma lookup_is_scan:
  assumes "holds s rs" "invar t" "keys_unique key rs" "contents t = map_of (key_entries key rs)"
  obtains (none) "search t k = Inr None" "filter (\<lambda>r. key r = Some k) (map fst rs) = []"
    | (one) off r where "search t k = Inr (Some off)" "read_at s off = Inr r"
        "filter (\<lambda>r. key r = Some k) (map fst rs) = [r]"
proof (cases "contents t k")
  case None
  with assms(3,4) key_miss [of key rs k] search_spec [OF assms(2), of k] show thesis
    by (intro none) (simp_all add: keys_unique_def)
next
  case (Some off)
  with key_hit [of key rs k off] assms(3,4) obtain r where
    r: "(r, off) \<in> set rs" "filter (\<lambda>r. key r = Some k) (map fst rs) = [r]" by auto
  with Some search_spec [OF assms(2), of k] read_at_spec [OF assms(1) r(1)] show thesis by (intro one) simp_all
qed

text \<open>Appending a row with a new key and entering it keeps the two in step.\<close>

lemma append_and_index:
  assumes "holds s rs" "invar t" "keys_unique key rs" "contents t = map_of (key_entries key rs)"
    and "fits r" "key (stored r) = Some k" "k \<notin> fst ` set (key_entries key rs)"
  shows "\<exists>off s' t'. append_row r s = (Inr off, s') \<and> ins t k off = (Inr (), t') \<and> frame s s' \<and>
    holds s' (rs @ [(stored r, off)]) \<and> invar t' \<and> keys_unique key (rs @ [(stored r, off)]) \<and>
    contents t' = map_of (key_entries key (rs @ [(stored r, off)]))"
proof -
  obtain off s' where a: "append_row r s = (Inr off, s')" "holds s' (rs @ [(stored r, off)])" "frame s s'"
    using append_spec [OF assms(1,5)] by blast
  have n: "map_of (key_entries key rs) k = None" using assms(7) by (simp add: map_of_eq_None_iff)
  then have "k \<notin> dom (contents t)" using assms(4) by auto
  from insert_fresh [OF assms(2) this, of off] obtain t' where
    t': "ins t k off = (Inr (), t')" "invar t'" "contents t' = (contents t)(k \<mapsto> off)" by blast
  have "contents t' = map_of (key_entries key (rs @ [(stored r, off)]))"
    using t'(3) assms(4,6) n by (auto simp: fun_eq_iff map_add_def split: option.splits)
  with a t' keys_unique_append [OF assms(3,6,7)] show ?thesis by blast
qed

end

end
