(* ===== verification/Runtime.thy ===== *)
theory Runtime
  imports Schema Indexed_Rows Ast
begin

text \<open>
  The table cache of \<^verbatim>\<open>src/runtime.c\<close>: stored ids, the id index that is rebuilt from a
  table's data file, and \<^verbatim>\<open>get_or_load_table_runtime\<close>.  The invariant \<open>table_inv\<close>
  ties a cached table to its file: the index maps exactly the stored ids to their offsets, and
  \<^verbatim>\<open>next_id\<close> is above every stored id.
\<close>

section \<open>Canonical ids\<close>

fun parse_digits :: "string \<Rightarrow> u64 \<Rightarrow> u64 option" where
  "parse_digits [] value = Some value"
| "parse_digits (c # cs) value =
     (if \<not> isdigit c then None
      else let digit = of_nat (code c - 48) in
           if (UINT64_MAX - digit) div 10 < value then None
           else parse_digits cs (value * 10 + digit))"

definition parse_canonical_positive_uint64 :: "string \<Rightarrow> u64 option" where
  "parse_canonical_positive_uint64 text =
     (if text = [] then None
      else if hd text = CHR ''0'' then None
      else case parse_digits text 0 of
             None \<Rightarrow> None
           | Some value \<Rightarrow> if value = 0 then None else Some value)"

definition parse_stored_id_value :: "string \<Rightarrow> u64 result" where
  "parse_stored_id_value text =
     (case parse_canonical_positive_uint64 text of
        None \<Rightarrow> fail STATUS_INDEX_ERROR (''INDEX ERROR: invalid stored id '' @ quoted text)
      | Some value \<Rightarrow> Inr value)"

definition try_parse_indexable_id_literal :: "literal_value \<Rightarrow> u64 option" where
  "try_parse_indexable_id_literal literal = parse_canonical_positive_uint64 (lit_text literal)"

section \<open>Building the id index\<close>

record id_index_build_state =
  build_tree :: bptree
  max_id :: u64
  saw_row :: bool

definition failure_message :: "failure \<Rightarrow> string" where
  "failure_message e = (case e of Failure st m \<Rightarrow> m | Diverges \<Rightarrow> [])"

definition build_id_index_callback :: "int \<Rightarrow> id_index_build_state callback" where
  "build_id_index_callback id_column_index row row_offset state =
     (if id_column_index < 0 \<or> int (length row) \<le> id_column_index then
        (Abort ''INDEX ERROR: missing stored id value'', state)
      else case parse_stored_id_value (row ! nat id_column_index) of
             Inl e \<Rightarrow> (Abort (failure_message e), state)
           | Inr current_id \<Rightarrow>
               (case bptree_insert (build_tree state) current_id row_offset of
                  (Inl e, t) \<Rightarrow>
                    (Abort (if failure_message e = [] then
                              set_error (''INDEX ERROR: duplicate stored id '' @ print_u64 current_id)
                            else failure_message e),
                     state\<lparr>build_tree := t\<rparr>)
                | (Inr u, t) \<Rightarrow>
                    (Continue,
                     state\<lparr>build_tree := t,
                           max_id := (if \<not> saw_row state \<or> max_id state < current_id then current_id
                                      else max_id state),
                           saw_row := True\<rparr>)))"

text \<open>The status of every error of the build is \<open>STATUS_INDEX_ERROR\<close>, with the message left by the scan.\<close>

definition build_id_index_for_table :: "fs \<Rightarrow> string \<Rightarrow> table_schema \<Rightarrow> int \<Rightarrow> (bptree \<times> u64) result" where
  "build_id_index_for_table fs db_dir schema id_column_index =
     (if id_column_index < 0 then
        fail STATUS_INDEX_ERROR ''INDEX ERROR: invalid table index build arguments''
      else case scan_table_rows_with_offsets fs db_dir (schema_table_name schema) (column_count schema)
                  (build_id_index_callback id_column_index)
                  \<lparr>build_tree = bptree_init None, max_id = 0, saw_row = False\<rparr> of
             (Inl e, state) \<Rightarrow> Inl (Failure STATUS_INDEX_ERROR (failure_message e))
           | (Inr u, state) \<Rightarrow>
               if \<not> saw_row state then Inr (build_tree state, 1)
               else if max_id state = UINT64_MAX then
                 fail STATUS_INDEX_ERROR ''INDEX ERROR: next id would overflow''
               else Inr (build_tree state, max_id state + 1))"

section \<open>The table cache\<close>

record table_runtime =
  rt_table_name :: string
  rt_schema :: table_schema
  has_id_column :: bool
  id_column_index :: int
  id_index_ready :: bool
  next_id :: u64
  id_index :: bptree

record execution_context =
  ctx_db_dir :: string
  tables :: "table_runtime list"
  table_capacity :: nat

definition init_execution_context :: "string \<Rightarrow> execution_context" where
  "init_execution_context db_dir = \<lparr>ctx_db_dir = db_dir, tables = [], table_capacity = 0\<rparr>"

text \<open>The position of a table in the cache (the pointer \<^verbatim>\<open>out_table\<close>).\<close>

fun table_position :: "table_runtime list \<Rightarrow> string \<Rightarrow> nat option" where
  "table_position [] table_name = None"
| "table_position (t # ts) table_name =
     (if rt_table_name t = table_name then Some 0 else map_option Suc (table_position ts table_name))"

text \<open>Loading a table that is not in the cache: the schema, the data file, the id index.\<close>

definition load_table_runtime :: "fs \<Rightarrow> string \<Rightarrow> string \<Rightarrow> table_runtime result \<times> fs" where
  "load_table_runtime fs db_dir table_name =
     (case load_table_schema fs db_dir table_name of
        Inl m \<Rightarrow> (Inl (Failure STATUS_SCHEMA_ERROR m), fs)
      | Inr schema \<Rightarrow>
          (case ensure_table_data_file db_dir table_name fs of
             (Inl e, fs1) \<Rightarrow> (Inl (Failure STATUS_STORAGE_ERROR (failure_message e)), fs1)
           | (Inr u, fs1) \<Rightarrow>
               (let i = schema_find_column_index schema ''id'';
                    table = \<lparr>rt_table_name = table_name, rt_schema = schema,
                             has_id_column = (0 \<le> i), id_column_index = i, id_index_ready = False,
                             next_id = 0, id_index = bptree_init None\<rparr>
                in if 0 \<le> i then
                     (case build_id_index_for_table fs1 db_dir schema i of
                        Inl e \<Rightarrow> (Inl (Failure STATUS_INDEX_ERROR (failure_message e)), fs1)
                      | Inr (tree, next) \<Rightarrow>
                          (Inr (table\<lparr>id_index := tree, next_id := next, id_index_ready := True\<rparr>), fs1))
                   else (Inr table, fs1))))"

definition get_or_load_table_runtime ::
  "execution_context \<Rightarrow> string \<Rightarrow> fs \<Rightarrow> nat result \<times> execution_context \<times> fs" where
  "get_or_load_table_runtime ctx table_name fs =
     (case table_position (tables ctx) table_name of
        Some i \<Rightarrow> (Inr i, ctx, fs)
      | None \<Rightarrow>
          (case load_table_runtime fs (ctx_db_dir ctx) table_name of
             (Inl e, fs1) \<Rightarrow> (Inl e, ctx, fs1)
           | (Inr table, fs1) \<Rightarrow>
               (Inr (length (tables ctx)),
                ctx\<lparr>tables := tables ctx @ [table],
                    table_capacity :=
                      (if length (tables ctx) = table_capacity ctx then
                         (if table_capacity ctx = 0 then 4 else table_capacity ctx * 2)
                       else table_capacity ctx)\<rparr>,
                fs1)))"

definition runtime_preload_table ::
  "execution_context \<Rightarrow> string \<Rightarrow> fs \<Rightarrow> unit result \<times> execution_context \<times> fs" where
  "runtime_preload_table ctx table_name fs =
     (case get_or_load_table_runtime ctx table_name fs of
        (Inl e, r) \<Rightarrow> (Inl e, r)
      | (Inr i, r) \<Rightarrow> (Inr (), r))"

text \<open>
  \<^verbatim>\<open>free_execution_context\<close>: every tree is destroyed (its freed nodes are returned) and the
  context is empty.
\<close>

fun destroy_indexes :: "table_runtime list \<Rightarrow> addr list list result" where
  "destroy_indexes [] = Inr []"
| "destroy_indexes (t # ts) =
     (case bptree_destroy (id_index t) of
        Inl e \<Rightarrow> Inl e
      | Inr (freed, t') \<Rightarrow>
          (case destroy_indexes ts of
             Inl e \<Rightarrow> Inl e
           | Inr freed_rest \<Rightarrow> Inr (freed # freed_rest)))"

definition free_execution_context :: "execution_context \<Rightarrow> (addr list list \<times> execution_context) result" where
  "free_execution_context ctx =
     (case destroy_indexes (tables ctx) of
        Inl e \<Rightarrow> Inl e
      | Inr freed \<Rightarrow> Inr (freed, \<lparr>ctx_db_dir = [], tables = [], table_capacity = 0\<rparr>))"

section \<open>Canonical ids are the printed ids\<close>

lemma u64_less_Suc:
  assumes "m \<noteq> UINT64_MAX" "(k :: u64) \<le> m"
  shows "k < m + 1"
proof -
  have "1 + m \<noteq> 0" using assms(1) by (metis UINT64_MAX_def add.commute eq_neg_iff_add_eq_0)
  then have "unat (1 + m) = Suc (unat m)" by (rule unatSuc)
  with assms(2) show ?thesis by (simp add: word_less_nat_alt word_le_nat_alt add.commute)
qed

lemma overflow_check:
  assumes "d < 10"
  shows "(UINT64_MAX - of_nat d) div 10 < (v :: u64) \<longleftrightarrow> 2 ^ 64 \<le> unat v * 10 + d"
proof -
  have d: "unat (of_nat d :: u64) = d" using assms by (simp add: unat_of_nat take_bit_nat_eq_self)
  have m: "unat UINT64_MAX = 2 ^ 64 - 1" by (simp add: UINT64_MAX_def unsigned_minus_1_eq_mask mask_eq_exp_minus_1)
  have "(of_nat d :: u64) \<le> UINT64_MAX" by (simp add: UINT64_MAX_def)
  then have "unat (UINT64_MAX - of_nat d) = 2 ^ 64 - 1 - d"
    using d m by (simp add: unat_sub)
  then have "unat ((UINT64_MAX - of_nat d) div 10) = (2 ^ 64 - 1 - d) div 10"
    by (simp add: unat_div)
  then show ?thesis using assms
    by (auto simp: word_less_nat_alt div_less_iff_less_mult)
qed

lemma accumulate:
  assumes "d < 10" "unat (v :: u64) * 10 + d < 2 ^ 64"
  shows "unat (v * 10 + of_nat d) = unat v * 10 + d"
proof -
  have "v * 10 + of_nat d = of_nat (unat v * 10 + d)" by simp
  also have "unat (of_nat (unat v * 10 + d) :: u64) = unat v * 10 + d"
    using assms(2) by (simp add: unat_of_nat take_bit_nat_eq_self del: of_nat_add of_nat_mult)
  finally show ?thesis .
qed

lemma parse_digits_value:
  "parse_digits cs v =
     (if list_all isdigit cs \<and> digits_value cs (unat v) < 2 ^ 64
      then Some (of_nat (digits_value cs (unat v))) else None)"
proof (induction cs arbitrary: v)
  case Nil
  then show ?case using unsigned_less [of v] by simp
next
  case (Cons c cs)
  show ?case
  proof (cases "isdigit c")
    case True
    define d where "d = code c - 48"
    have d: "d < 10" using True by (auto simp: isdigit_def d_def)
    show ?thesis
    proof (cases "2 ^ 64 \<le> unat v * 10 + d")
      case True
      with \<open>isdigit c\<close> overflow_check [OF d, of v] digits_value_mono [of "unat v * 10 + d" cs] show ?thesis
        by (simp add: d_def [symmetric])
    next
      case False
      with \<open>isdigit c\<close> overflow_check [OF d, of v] accumulate [OF d, of v] Cons.IH show ?thesis
        by (simp add: d_def [symmetric])
    qed
  qed simp
qed

lemma char_digit: "isdigit c \<Longrightarrow> digit_char (code c - 48) = c"
  by (simp add: digit_char_def isdigit_def code_def)

lemma digit_char_zero: "d < 10 \<Longrightarrow> digit_char d = CHR ''0'' \<longleftrightarrow> d = 0"
proof
  assume "d < 10" "digit_char d = CHR ''0''"
  then have "48 + d = code (CHR ''0'')" using code_digit_char by metis
  then show "d = 0" by (simp add: code_def)
qed (simp add: digit_char_def char_of_def bit_0)

lemma print_nat_hd: "0 < n \<Longrightarrow> hd (print_nat n) \<noteq> CHR ''0''"
proof (induction n rule: print_nat.induct)
  case (1 n)
  show ?case
  proof (cases "n < 10")
    case True
    with 1 show ?thesis by (simp add: print_nat.simps [of n] digit_char_zero)
  next
    case False
    with 1 show ?thesis by (simp add: print_nat.simps [of n])
  qed
qed

lemma digits_unique:
  "list_all isdigit cs \<Longrightarrow> cs \<noteq> [] \<Longrightarrow> hd cs \<noteq> CHR ''0'' \<Longrightarrow>
   0 < digits_value cs 0 \<and> cs = print_nat (digits_value cs 0)"
proof (induction cs rule: rev_induct)
  case (snoc c cs)
  define d where "d = code c - 48"
  have c: "d < 10" "digit_char d = c" using snoc.prems char_digit by (auto simp: d_def isdigit_def)
  show ?case
  proof (cases "cs = []")
    case True
    have "c \<noteq> CHR ''0''" using snoc.prems True by simp
    then have "d \<noteq> 0" using c digit_char_zero by metis
    with True c show ?thesis by (simp add: d_def [symmetric] print_nat.simps [of d])
  next
    case False
    with snoc have IH: "0 < digits_value cs 0" "cs = print_nat (digits_value cs 0)" by simp_all
    let ?n = "digits_value cs 0 * 10 + d"
    have "\<not> ?n < 10" "?n div 10 = digits_value cs 0" "?n mod 10 = d" using IH(1) c by simp_all
    then have "print_nat ?n = cs @ [c]"
      using IH(2) c by (simp add: print_nat.simps [of ?n])
    with IH(1) show ?thesis by (simp add: d_def)
  qed
qed simp

lemma parse_canonical_iff:
  "parse_canonical_positive_uint64 text = Some v \<longleftrightarrow> v \<noteq> 0 \<and> text = print_u64 v"
proof
  assume p: "parse_canonical_positive_uint64 text = Some v"
  then have t: "text \<noteq> []" "hd text \<noteq> CHR ''0''" "list_all isdigit text" "v \<noteq> 0"
    and lt: "digits_value text 0 < 2 ^ 64" and v: "v = of_nat (digits_value text 0)"
    by (auto simp: parse_canonical_positive_uint64_def parse_digits_value split: if_splits)
  have "unat v = digits_value text 0" using lt v by (simp add: unat_of_nat take_bit_nat_eq_self)
  with digits_unique [OF t(3,1,2)] t(4) show "v \<noteq> 0 \<and> text = print_u64 v" by (simp add: print_u64_def)
next
  assume a: "v \<noteq> 0 \<and> text = print_u64 v"
  then have "0 < unat v" by (simp add: unat_gt_0)
  moreover have "list_all isdigit (print_nat (unat v))" by (simp add: list_all_iff print_nat_digits)
  ultimately show "parse_canonical_positive_uint64 text = Some v"
    using a unsigned_less [of v]
    by (simp add: parse_canonical_positive_uint64_def print_u64_def print_nat_hd parse_digits_value
          digits_value_print)
qed

lemma print_u64_inj: "print_u64 v = print_u64 w \<longleftrightarrow> v = w"
  by (simp add: print_u64_def print_nat_inj word_unat_eq_iff)

section \<open>The id index of a table\<close>

definition row_id :: "int \<Rightarrow> row \<Rightarrow> u64 option" where
  "row_id i row =
     (if 0 \<le> i \<and> i < int (length row) then parse_canonical_positive_uint64 (row ! nat i) else None)"

text \<open>All rows have a canonical id in column \<open>i\<close>; the entries of the index.\<close>

definition ids_valid :: "int \<Rightarrow> (row \<times> int) list \<Rightarrow> bool" where
  "ids_valid i rs \<longleftrightarrow> (\<forall>(row, off) \<in> set rs. row_id i row \<noteq> None)"

definition id_entries :: "int \<Rightarrow> (row \<times> int) list \<Rightarrow> (u64 \<times> int) list" where
  "id_entries i rs = map (\<lambda>(row, off). (the (row_id i row), off)) rs"

lemma ids_simps [simp]:
  "ids_valid i []" "id_entries i [] = []"
  "ids_valid i ((row, off) # rs) \<longleftrightarrow> row_id i row \<noteq> None \<and> ids_valid i rs"
  "id_entries i ((row, off) # rs) = (the (row_id i row), off) # id_entries i rs"
  "ids_valid i (rs @ rs') \<longleftrightarrow> ids_valid i rs \<and> ids_valid i rs'"
  "id_entries i (rs @ rs') = id_entries i rs @ id_entries i rs'"
  by (auto simp: ids_valid_def id_entries_def)

lemma length_id_entries [simp]: "length (id_entries i rs) = length rs"
  by (simp add: id_entries_def)

text \<open>One callback, in terms of the id of the row.\<close>

lemma build_callback_some:
  assumes "row_id i row = Some k"
  shows "build_id_index_callback i row off st =
    (case bptree_insert (build_tree st) k off of
       (Inl e, t) \<Rightarrow>
         (Abort (if failure_message e = [] then
                   set_error (''INDEX ERROR: duplicate stored id '' @ print_u64 k)
                 else failure_message e), st\<lparr>build_tree := t\<rparr>)
     | (Inr u, t) \<Rightarrow>
         (Continue, st\<lparr>build_tree := t,
            max_id := (if \<not> saw_row st \<or> max_id st < k then k else max_id st), saw_row := True\<rparr>))"
  using assms by (auto simp: row_id_def build_id_index_callback_def parse_stored_id_value_def split: if_splits)

lemma build_callback_none:
  assumes "row_id i row = None"
  shows "\<exists>m. build_id_index_callback i row off st = (Abort m, st)"
  using assms
  by (auto simp: row_id_def build_id_index_callback_def parse_stored_id_value_def fail_def split: if_splits)

text \<open>The build inserts the entries in order and fails exactly when that fails.\<close>

lemma build_run_sound:
  "run_callback nm (build_id_index_callback i) rs st = (Inr (), st') \<Longrightarrow>
   ids_valid i rs \<and> insert_all bptree_insert (id_entries i rs) (build_tree st) = (Inr (), build_tree st') \<and>
   saw_row st' = (saw_row st \<or> rs \<noteq> []) \<and>
   (\<forall>k \<in> fst ` set (id_entries i rs). k \<le> max_id st') \<and>
   (saw_row st \<longrightarrow> max_id st \<le> max_id st') \<and>
   (max_id st' = max_id st \<or> max_id st' \<in> fst ` set (id_entries i rs)) \<and>
   (\<not> saw_row st \<and> rs \<noteq> [] \<longrightarrow> max_id st' \<in> fst ` set (id_entries i rs))"
proof (induction rs arbitrary: st)
  case (Cons r rs)
  obtain row off where r: "r = (row, off)" by (cases r)
  show ?case
  proof (cases "row_id i row")
    case None
    with Cons.prems r build_callback_none [OF None, of off st] show ?thesis by auto
  next
    case (Some k)
    obtain res t where ins: "bptree_insert (build_tree st) k off = (res, t)" by fastforce
    show ?thesis
    proof (cases res)
      case (Inl e)
      with Cons.prems r build_callback_some [OF Some, of off st] ins show ?thesis by auto
    next
      case (Inr u)
      let ?st = "st\<lparr>build_tree := t,
            max_id := (if \<not> saw_row st \<or> max_id st < k then k else max_id st), saw_row := True\<rparr>"
      have "run_callback nm (build_id_index_callback i) rs ?st = (Inr (), st')"
        using Cons.prems r build_callback_some [OF Some, of off st] ins Inr by simp
      from Cons.IH [OF this] show ?thesis
        using r Some ins Inr by (auto split: if_splits)
    qed
  qed
qed simp

lemma build_run_complete:
  "ids_valid i rs \<Longrightarrow> insert_all bptree_insert (id_entries i rs) (build_tree st) = (Inr (), t') \<Longrightarrow>
   \<exists>st'. run_callback nm (build_id_index_callback i) rs st = (Inr (), st') \<and> build_tree st' = t'"
proof (induction rs arbitrary: st)
  case (Cons r rs)
  obtain row off where r: "r = (row, off)" by (cases r)
  obtain k where k: "row_id i row = Some k" using Cons.prems r by auto
  obtain t1 where ins: "bptree_insert (build_tree st) k off = (Inr (), t1)"
    using Cons.prems(2) r k by (auto split: prod.splits sum.splits)
  let ?st = "st\<lparr>build_tree := t1,
      max_id := (if \<not> saw_row st \<or> max_id st < k then k else max_id st), saw_row := True\<rparr>"
  from Cons.IH [of ?st] Cons.prems r k ins obtain st' where
    "run_callback nm (build_id_index_callback i) rs ?st = (Inr (), st')" "build_tree st' = t'" by auto
  with r build_callback_some [OF k, of off st] ins show ?case by simp
qed simp

definition id_keys :: "int \<Rightarrow> (row \<times> int) list \<Rightarrow> u64 list" where
  "id_keys i rs = map fst (id_entries i rs)"

lemma set_id_keys: "set (id_keys i rs) = fst ` set (id_entries i rs)"
  by (simp add: id_keys_def)

text \<open>A data file and the B+Tree on its ids are a row file with an index.\<close>

lemma ids_unique: "keys_unique (row_id i) rs \<longleftrightarrow> ids_valid i rs \<and> distinct (id_keys i rs)"
  by (simp add: keys_unique_def ids_valid_def id_keys_def id_entries_def key_entries_def)

lemma id_entries_key: "key_entries (row_id i) rs = id_entries i rs"
  by (simp add: id_entries_def key_entries_def)

interpretation id_table: indexed_rows "\<lambda>fs. table_rows fs db_dir t n" "append_row_to_table_with_offset db_dir t"
  "\<lambda>fs off. read_row_at_offset fs db_dir t off n" "\<lambda>fs. read_all_rows_from_table fs db_dir t n" "storable n" stored_row
  "\<lambda>fs fs'. \<forall>p. p \<noteq> data_path db_dir t \<longrightarrow> fs' p = fs p"
  index_inv bptree_map bptree_insert bptree_search "row_id i"
  for db_dir t n i
  by unfold_locales

definition next_free_id :: "int \<Rightarrow> (row \<times> int) list \<Rightarrow> u64" where
  "next_free_id i rs = (if rs = [] then 1 else Max (set (id_keys i rs)) + 1)"

lemma build_index_sound:
  assumes tab: "table_rows fs db_dir (schema_table_name schema) (column_count schema) rs"
    and b: "build_id_index_for_table fs db_dir schema i = Inr (tree, nid)"
  shows "ids_valid i rs" "distinct (id_keys i rs)" "index_inv tree"
    "bptree_map tree = map_of (id_entries i rs)" "UINT64_MAX \<notin> set (id_keys i rs)"
    "nid = next_free_id i rs"
proof -
  let ?st = "\<lparr>build_tree = bptree_init None, max_id = 0, saw_row = False\<rparr>"
  let ?run = "run_callback (schema_table_name schema) (build_id_index_callback i) rs ?st"
  have i: "\<not> i < 0" using b by (auto simp: build_id_index_for_table_def)
  obtain st' where run: "?run = (Inr (), st')"
    and res: "if \<not> saw_row st' then (tree, nid) = (build_tree st', 1)
              else max_id st' \<noteq> UINT64_MAX \<and> (tree, nid) = (build_tree st', max_id st' + 1)"
    using b i by (auto simp: build_id_index_for_table_def scan_table [OF tab] split: prod.splits sum.splits if_splits)
  note S = build_run_sound [OF run]
  show v: "ids_valid i rs" using S by blast
  have tr: "tree = build_tree st'" using res by (auto split: if_splits)
  have ia: "insert_all bptree_insert (id_entries i rs) (bptree_init None) = (Inr (), tree)"
    using S tr by simp
  show d: "distinct (id_keys i rs)"
  proof (rule ccontr)
    assume "\<not> distinct (id_keys i rs)"
    then have "\<exists>k t'. insert_all bptree_insert (id_entries i rs) (bptree_init None) = (duplicate_key k, t') \<and>
        k \<in> fst ` set (id_entries i rs)"
      by (intro bp.insert_all_duplicate [OF index_inv_init]) (simp add: id_keys_def)
    with ia show False by (auto simp: duplicate_key_def)
  qed
  from bp.insert_all_distinct [OF index_inv_init, of "id_entries i rs"] d ia
  show "index_inv tree" "bptree_map tree = map_of (id_entries i rs)"
    by (auto simp: id_keys_def)
  have le: "\<forall>k \<in> set (id_keys i rs). k \<le> max_id st'"
    and mem: "rs \<noteq> [] \<Longrightarrow> max_id st' \<in> set (id_keys i rs)"
    using S by (simp_all add: set_id_keys)
  have mx: "rs \<noteq> [] \<Longrightarrow> Max (set (id_keys i rs)) = max_id st'"
    using le mem by (intro Max_eqI) auto
  have ne: "rs \<noteq> [] \<Longrightarrow> max_id st' \<noteq> UINT64_MAX" using S res by (auto split: if_splits)
  show "UINT64_MAX \<notin> set (id_keys i rs)"
  proof
    assume u: "UINT64_MAX \<in> set (id_keys i rs)"
    then have "UINT64_MAX \<le> max_id st'" using le by blast
    then have "max_id st' = UINT64_MAX" by (simp add: UINT64_MAX_def word_order.extremum_unique)
    moreover have "rs \<noteq> []" using u by (auto simp: id_keys_def)
    ultimately show False using ne by blast
  qed
  show "nid = next_free_id i rs" using mx S res by (auto simp: next_free_id_def split: if_splits)
qed

lemma build_index_complete:
  assumes tab: "table_rows fs db_dir (schema_table_name schema) (column_count schema) rs"
    and "0 \<le> i" "ids_valid i rs" "distinct (id_keys i rs)" "UINT64_MAX \<notin> set (id_keys i rs)"
  shows "\<exists>tree. build_id_index_for_table fs db_dir schema i = Inr (tree, next_free_id i rs)"
proof -
  let ?st = "\<lparr>build_tree = bptree_init None, max_id = 0, saw_row = False\<rparr>"
  obtain t' where "insert_all bptree_insert (id_entries i rs) (build_tree ?st) = (Inr (), t')"
    using bp.insert_all_distinct [OF index_inv_init, of "id_entries i rs"] assms(4)
    by (auto simp: id_keys_def)
  from build_run_complete [OF assms(3) this] obtain st' where
    run: "run_callback (schema_table_name schema) (build_id_index_callback i) rs ?st = (Inr (), st')" by blast
  note S = build_run_sound [OF run]
  have "rs \<noteq> [] \<Longrightarrow> max_id st' \<in> set (id_keys i rs)" using S by (simp add: set_id_keys)
  with assms(5) have "rs \<noteq> [] \<Longrightarrow> max_id st' \<noteq> UINT64_MAX" by metis
  then obtain tree nid where b: "build_id_index_for_table fs db_dir schema i = Inr (tree, nid)"
    using assms(2) S run by (auto simp: build_id_index_for_table_def scan_table [OF tab])
  from build_index_sound(6) [OF tab b] b show ?thesis by blast
qed

section \<open>The invariant of a cached table\<close>

definition table_inv :: "fs \<Rightarrow> string \<Rightarrow> table_runtime \<Rightarrow> (row \<times> int) list \<Rightarrow> bool" where
  "table_inv fs db_dir table rs \<longleftrightarrow>
     columns (rt_schema table) \<noteq> [] \<and> distinct (columns (rt_schema table)) \<and>
     table_rows fs db_dir (rt_table_name table) (column_count (rt_schema table)) rs \<and>
     id_column_index table = schema_find_column_index (rt_schema table) ''id'' \<and>
     has_id_column table = (''id'' \<in> set (columns (rt_schema table))) \<and>
     id_index_ready table = has_id_column table \<and> index_inv (id_index table) \<and>
     (has_id_column table \<longrightarrow>
        ids_valid (id_column_index table) rs \<and> distinct (id_keys (id_column_index table) rs) \<and>
        bptree_map (id_index table) = map_of (id_entries (id_column_index table) rs) \<and>
        (\<forall>k \<in> set (id_keys (id_column_index table) rs). next_id table = 0 \<or> k < next_id table))"

lemma table_inv_rows:
  "table_inv fs db_dir table rs \<Longrightarrow>
   table_rows fs db_dir (rt_table_name table) (column_count (rt_schema table)) rs"
  by (simp add: table_inv_def)

lemma table_inv_ids:
  assumes "table_inv fs db_dir table rs" "has_id_column table"
  shows "ids_valid (id_column_index table) rs" "distinct (id_keys (id_column_index table) rs)"
    "index_inv (id_index table)"
    "bptree_map (id_index table) = map_of (id_entries (id_column_index table) rs)"
    "\<forall>k \<in> set (id_keys (id_column_index table) rs). next_id table = 0 \<or> k < next_id table"
  using assms unfolding table_inv_def by blast+

lemma load_table_inv:
  assumes l: "load_table_runtime fs db_dir table_name = (Inr table, fs')"
    and tab: "data_file_ok fs db_dir table_name"
  shows "rt_table_name table = table_name" "\<exists>rs. table_inv fs' db_dir table rs"
    "\<forall>p. p \<noteq> data_path db_dir table_name \<longrightarrow> fs' p = fs p"
    "\<And>n rs. table_rows fs db_dir table_name n rs \<Longrightarrow> table_rows fs' db_dir table_name n rs"
proof -
  obtain schema where sc: "load_table_schema fs db_dir table_name = Inr schema"
    using l by (auto simp: load_table_runtime_def split: sum.splits)
  note SC = load_table_schema_ok [OF sc]
  obtain rs where rs: "table_rows fs db_dir table_name (column_count schema) rs"
    using tab data_file_ok_rows by blast
  obtain fs1 where en: "ensure_table_data_file db_dir table_name fs = (Inr (), fs1)"
    and rs1: "table_rows fs1 db_dir table_name (column_count schema) rs"
    and other: "\<forall>p. p \<noteq> data_path db_dir table_name \<longrightarrow> fs1 p = fs p"
    using ensure_table [OF rs] by blast
  let ?i = "schema_find_column_index schema ''id''"
  have idx: "0 \<le> ?i \<longleftrightarrow> ''id'' \<in> set (columns schema)"
    using column_position_neg_iff [of "columns schema" "''id''"]
    by (auto simp: schema_find_column_index_def not_less)
  note L = l [unfolded load_table_runtime_def sc en Let_def, simplified]
  show "rt_table_name table = table_name" "\<forall>p. p \<noteq> data_path db_dir table_name \<longrightarrow> fs' p = fs p"
    using L other by (auto split: if_splits sum.splits prod.splits)
  show "table_rows fs' db_dir table_name n x" if "table_rows fs db_dir table_name n x" for n x
    using ensure_table [OF that] en L by (auto split: if_splits sum.splits prod.splits)
  show "\<exists>rs. table_inv fs' db_dir table rs"
  proof (cases "0 \<le> ?i")
    case True
    with L obtain tree nid where b: "build_id_index_for_table fs1 db_dir schema ?i = Inr (tree, nid)"
      and t: "table = \<lparr>rt_table_name = table_name, rt_schema = schema, has_id_column = True,
         id_column_index = ?i, id_index_ready = True, next_id = nid, id_index = tree\<rparr>" "fs' = fs1"
      by (auto split: sum.splits)
    note B = build_index_sound [OF rs1 [folded SC(4)] b]
    have "k < nid" if k: "k \<in> set (id_keys ?i rs)" for k
    proof -
      let ?m = "Max (set (id_keys ?i rs))"
      have "k \<le> ?m" "?m \<in> set (id_keys ?i rs)" using k by (auto intro!: Max_in)
      moreover from this B(5) have "?m \<noteq> UINT64_MAX" by metis
      moreover have "nid = ?m + 1" using B(6) k by (auto simp: next_free_id_def id_keys_def)
      ultimately show ?thesis using u64_less_Suc by simp
    qed
    with B t SC rs1 True idx have "table_inv fs' db_dir table rs"
      by (simp add: table_inv_def)
    then show ?thesis ..
  next
    case False
    with L have "table = \<lparr>rt_table_name = table_name, rt_schema = schema, has_id_column = False,
         id_column_index = ?i, id_index_ready = False, next_id = 0, id_index = bptree_init None\<rparr>" "fs' = fs1"
      by auto
    with SC rs1 False idx index_inv_init have "table_inv fs' db_dir table rs" by (simp add: table_inv_def)
    then show ?thesis ..
  qed
qed

section \<open>The invariant of the context\<close>

definition ctx_inv :: "fs \<Rightarrow> execution_context \<Rightarrow> bool" where
  "ctx_inv fs ctx \<longleftrightarrow>
     distinct (map rt_table_name (tables ctx)) \<and> length (tables ctx) \<le> table_capacity ctx \<and>
     (\<forall>t \<in> set (tables ctx). \<exists>rs. table_inv fs (ctx_db_dir ctx) t rs)"

lemma table_inv_cong:
  "fs' (data_path db_dir (rt_table_name t)) = fs (data_path db_dir (rt_table_name t)) \<Longrightarrow>
   table_inv fs' db_dir t rs \<longleftrightarrow> table_inv fs db_dir t rs"
  using table_rows_cong [of fs' db_dir "rt_table_name t" fs] by (simp add: table_inv_def)

lemma table_position_Some:
  "table_position ts name = Some i \<Longrightarrow> i < length ts \<and> rt_table_name (ts ! i) = name"
  by (induction ts arbitrary: i) (auto split: if_splits)

lemma table_position_None: "table_position ts name = None \<longleftrightarrow> name \<notin> rt_table_name ` set ts"
  by (induction ts) auto

lemma init_ctx_inv: "ctx_inv fs (init_execution_context db_dir)"
  by (simp add: ctx_inv_def init_execution_context_def)

lemma load_table_runtime_fail:
  assumes "load_table_runtime fs db_dir name = (Inl e, fs')" "data_file_ok fs db_dir name"
  shows "\<forall>p. p \<noteq> data_path db_dir name \<longrightarrow> fs' p = fs p"
proof -
  obtain rs where "table_rows fs db_dir name 0 rs" using assms(2) data_file_ok_rows by blast
  from ensure_table [OF this] assms(1) show ?thesis
    by (auto simp: load_table_runtime_def Let_def split: sum.splits prod.splits if_splits)
qed

lemma get_or_load_inv:
  assumes inv: "ctx_inv fs ctx" and ok: "data_file_ok fs (ctx_db_dir ctx) name"
    and g: "get_or_load_table_runtime ctx name fs = (res, ctx', fs')"
  shows "ctx_inv fs' ctx'" "ctx_db_dir ctx' = ctx_db_dir ctx"
    "res = Inr i \<Longrightarrow> i < length (tables ctx') \<and> rt_table_name (tables ctx' ! i) = name"
    "res = Inl e \<Longrightarrow> ctx' = ctx"
    "name \<in> rt_table_name ` set (tables ctx) \<Longrightarrow> ctx' = ctx \<and> fs' = fs \<and> (\<exists>i. res = Inr i)"
proof -
  have "ctx_inv fs' ctx' \<and> ctx_db_dir ctx' = ctx_db_dir ctx \<and>
      (\<forall>i. res = Inr i \<longrightarrow> i < length (tables ctx') \<and> rt_table_name (tables ctx' ! i) = name) \<and>
      (\<forall>e. res = Inl e \<longrightarrow> ctx' = ctx) \<and>
      (name \<in> rt_table_name ` set (tables ctx) \<longrightarrow> ctx' = ctx \<and> fs' = fs \<and> (\<exists>i. res = Inr i))"
  proof (cases "table_position (tables ctx) name")
    case (Some i)
    with inv g table_position_Some [OF Some] show ?thesis
      by (auto simp: get_or_load_table_runtime_def)
  next
    case None
    then have new: "name \<notin> rt_table_name ` set (tables ctx)" by (simp add: table_position_None)
    have frame: "\<exists>rs. table_inv fs1 (ctx_db_dir ctx) t rs"
      if "\<forall>p. p \<noteq> data_path (ctx_db_dir ctx) name \<longrightarrow> fs1 p = fs p" "t \<in> set (tables ctx)" for fs1 t
    proof -
      have "rt_table_name t \<noteq> name" using new that(2) by auto
      then have "fs1 (data_path (ctx_db_dir ctx) (rt_table_name t)) =
          fs (data_path (ctx_db_dir ctx) (rt_table_name t))"
        using that(1) by (simp add: data_path_inj)
      with inv that(2) table_inv_cong show ?thesis unfolding ctx_inv_def by metis
    qed
    obtain r fs1 where l: "load_table_runtime fs (ctx_db_dir ctx) name = (r, fs1)" by fastforce
    show ?thesis
    proof (cases r)
      case (Inl e)
      have "ctx' = ctx" "res = Inl e" "fs' = fs1"
        using g None l Inl by (auto simp: get_or_load_table_runtime_def)
      with new inv frame load_table_runtime_fail [OF l [unfolded Inl] ok] show ?thesis
        by (auto simp: ctx_inv_def)
    next
      case (Inr table)
      have c: "res = Inr (length (tables ctx))" "tables ctx' = tables ctx @ [table]" "fs' = fs1"
        "ctx_db_dir ctx' = ctx_db_dir ctx" "length (tables ctx) < table_capacity ctx'"
        using g None l Inr inv by (auto simp: get_or_load_table_runtime_def ctx_inv_def)
      note T = load_table_inv [OF l [unfolded Inr] ok]
      show ?thesis
        using new inv frame [OF T(3)] c T(1,2) by (auto simp: ctx_inv_def)
    qed
  qed
  then show "ctx_inv fs' ctx'" "ctx_db_dir ctx' = ctx_db_dir ctx"
    "res = Inr i \<Longrightarrow> i < length (tables ctx') \<and> rt_table_name (tables ctx' ! i) = name"
    "res = Inl e \<Longrightarrow> ctx' = ctx"
    "name \<in> rt_table_name ` set (tables ctx) \<Longrightarrow> ctx' = ctx \<and> fs' = fs \<and> (\<exists>i. res = Inr i)"
    by blast+
qed

text \<open>Freeing the context frees every node of every index once.\<close>

lemma destroy_indexes_ok:
  "\<forall>t \<in> set ts. bptree_inv (id_index t) \<Longrightarrow>
   \<exists>freed. destroy_indexes ts = Inr freed \<and>
     list_all2 (\<lambda>t fr. distinct fr \<and> set fr = dom (cells (id_index t))) ts freed"
proof (induction ts)
  case (Cons t ts)
  obtain fr t' where "bptree_destroy (id_index t) = Inr (fr, t')" "distinct fr"
    "set fr = dom (cells (id_index t))" using destroy_ok [of "id_index t"] Cons.prems by auto
  moreover obtain freed where "destroy_indexes ts = Inr freed"
    "list_all2 (\<lambda>t fr. distinct fr \<and> set fr = dom (cells (id_index t))) ts freed"
    using Cons by auto
  ultimately show ?case by auto
qed simp

lemma free_context_ok:
  assumes "ctx_inv fs ctx"
  shows "\<exists>freed. free_execution_context ctx = Inr (freed, \<lparr>ctx_db_dir = [], tables = [], table_capacity = 0\<rparr>) \<and>
    list_all2 (\<lambda>t f. distinct f \<and> set f = dom (cells (id_index t))) (tables ctx) freed"
proof -
  have "\<forall>t \<in> set (tables ctx). bptree_inv (id_index t)"
    using assms by (fastforce simp: ctx_inv_def table_inv_def index_inv_def)
  from destroy_indexes_ok [OF this] show ?thesis by (auto simp: free_execution_context_def)
qed

section \<open>Properties\<close>

text \<open>
  C15. The ids that are accepted, on disk and in a WHERE clause, are exactly the decimal
  representations of the non-zero 64-bit integers as the program prints them: no leading zero, no
  sign, no overflow, so equal ids have equal texts.
\<close>

theorem canonical_ids_are_printed_ids:
  "parse_canonical_positive_uint64 text = Some value \<longleftrightarrow> value \<noteq> 0 \<and> text = print_u64 value"
  by (rule parse_canonical_iff)

text \<open>
  C16. The index build of a well-formed table succeeds exactly when every row has a canonical id,
  the ids are pairwise distinct and none is \<^verbatim>\<open>UINT64_MAX\<close>; the index then maps each id to
  the offset of its row and nothing else, and \<^verbatim>\<open>next_id\<close> is one more than the largest id
  (one for an empty table).
\<close>

theorem build_index_correct:
  assumes "table_rows fs db_dir (schema_table_name schema) (column_count schema) rs" "0 \<le> i"
  shows "case build_id_index_for_table fs db_dir schema i of
     Inr (tree, nid) \<Rightarrow>
       ids_valid i rs \<and> distinct (id_keys i rs) \<and> UINT64_MAX \<notin> set (id_keys i rs) \<and>
       bptree_inv tree \<and> bptree_map tree = map_of (id_entries i rs) \<and> nid = next_free_id i rs
   | Inl e \<Rightarrow> \<not> (ids_valid i rs \<and> distinct (id_keys i rs) \<and> UINT64_MAX \<notin> set (id_keys i rs))"
proof (cases "build_id_index_for_table fs db_dir schema i")
  case (Inl e)
  with build_index_complete [OF assms] show ?thesis by auto
next
  case (Inr p)
  obtain tree nid where p: "p = (tree, nid)" by (cases p)
  from build_index_sound [OF assms(1) Inr [unfolded p]] Inr p show ?thesis by (simp add: index_inv_def)
qed

theorem build_index_correct_witness:
  "\<exists>tree. build_id_index_for_table ((\<lambda>_. Absent)(''db/t.data'' := File (''3|a'' @ [LF] @ ''9|b'' @ [LF])))
       ''db'' \<lparr>schema_table_name = ''t'', columns = [''id'', ''name'']\<rparr> 0 = Inr (tree, 10) \<and>
     bptree_inv tree \<and> bptree_map tree = map_of [(3, 0), (9, 4)]"
proof -
  let ?fs = "(\<lambda>_. Absent)(''db/t.data'' := File (''3|a'' @ [LF] @ ''9|b'' @ [LF]))"
  let ?s = "\<lparr>schema_table_name = ''t'', columns = [''id'', ''name'']\<rparr>"
  let ?rs = "[([''3'', ''a''], 0), ([''9'', ''b''], 4)]"
  have t: "table_rows ?fs ''db'' (schema_table_name ?s) (column_count ?s) ?rs" by code_simp
  have e: "id_entries 0 ?rs = [(3, 0), (9, 4)]" by code_simp
  have "map_option (\<lambda>_. ()) (case build_id_index_for_table ?fs ''db'' ?s 0 of Inr p \<Rightarrow> Some (snd p) | Inl e \<Rightarrow> None) = Some ()
      \<and> (case build_id_index_for_table ?fs ''db'' ?s 0 of Inr p \<Rightarrow> snd p = 10 | Inl e \<Rightarrow> False)" by code_simp
  then obtain tree where b: "build_id_index_for_table ?fs ''db'' ?s 0 = Inr (tree, 10)"
    by (auto split: sum.splits)
  from build_index_correct [OF t, of 0] b e show ?thesis by simp
qed

end
