(* ===== verification/Executor.thy ===== *)
theory Executor
  imports Runtime
begin

text \<open>
  The statement executor of \<^verbatim>\<open>src/executor.c\<close>: INSERT with generated ids, SELECT through
  the id index or by a full scan, and the errors of both.  Memory does not run out.
\<close>

section \<open>Results\<close>

datatype exec_result_type = RESULT_INSERT | RESULT_SELECT

record query_result =
  qr_columns :: "string list"
  qr_rows :: "row list"

record exec_result =
  res_type :: exec_result_type
  affected_rows :: nat
  query_result :: query_result
  used_index :: bool
  has_generated_id :: bool
  generated_id :: u64

text \<open>\<^verbatim>\<open>memset(out_result, 0, sizeof(*out_result))\<close>\<close>

definition zero_result :: exec_result where
  "zero_result = \<lparr>res_type = RESULT_INSERT, affected_rows = 0,
     query_result = \<lparr>qr_columns = [], qr_rows = []\<rparr>,
     used_index = False, has_generated_id = False, generated_id = 0\<rparr>"

fun translate_module_status :: "status \<Rightarrow> string \<Rightarrow> failure \<Rightarrow> failure" where
  "translate_module_status mapped_status prefix (Failure st m) =
     Failure mapped_status (set_error (if m \<noteq> [] then prefix @ '': '' @ m else prefix))"
| "translate_module_status mapped_status prefix Diverges = Diverges"

text \<open>The mapping of the errors of \<^verbatim>\<open>get_or_load_table_runtime\<close>.\<close>

definition translate_load_status :: "failure \<Rightarrow> failure" where
  "translate_load_status e =
     (case e of
        Failure STATUS_SCHEMA_ERROR m \<Rightarrow> translate_module_status STATUS_SCHEMA_ERROR ''SCHEMA ERROR'' e
      | Failure STATUS_STORAGE_ERROR m \<Rightarrow> translate_module_status STATUS_STORAGE_ERROR ''STORAGE ERROR'' e
      | Failure STATUS_INDEX_ERROR m \<Rightarrow> translate_module_status STATUS_INDEX_ERROR ''INDEX ERROR'' e
      | _ \<Rightarrow> e)"

section \<open>Building the row of an INSERT\<close>

definition exec_error :: "string \<Rightarrow> 'a result" where
  "exec_error msg = fail STATUS_EXEC_ERROR (''EXEC ERROR: '' @ msg)"

text \<open>
  The loop over the column list of \<^verbatim>\<open>build_insert_row_existing_behavior\<close>: the array
  \<^verbatim>\<open>seen_columns\<close> and the row under construction.
\<close>

fun place_values :: "table_schema \<Rightarrow> string list \<Rightarrow> literal_value list \<Rightarrow> bool list \<Rightarrow> row \<Rightarrow> row result" where
  "place_values schema (c # cs) (v # vs) seen row =
     (let column_index = schema_find_column_index schema c in
      if column_index < 0 then exec_error (''unknown column '' @ quoted c)
      else if seen ! nat column_index then exec_error (''duplicate column '' @ quoted c)
      else place_values schema cs vs (seen[nat column_index := True])
             (row[nat column_index := lit_text v]))"
| "place_values schema _ _ seen row = Inr row"

definition build_insert_row_existing_behavior :: "table_schema \<Rightarrow> insert_statement \<Rightarrow> row result" where
  "build_insert_row_existing_behavior schema stmt =
     (if ins_columns stmt = [] then
        (if length (ins_values stmt) \<noteq> column_count schema then
           exec_error (''expected '' @ print_nat (column_count schema) @ '' values but got '' @
             print_nat (length (ins_values stmt)))
         else Inr (map lit_text (ins_values stmt)))
      else if length (ins_columns stmt) \<noteq> length (ins_values stmt) then
        exec_error (''column count '' @ print_nat (length (ins_columns stmt)) @
          '' does not match value count '' @ print_nat (length (ins_values stmt)))
      else place_values schema (ins_columns stmt) (ins_values stmt)
             (replicate (column_count schema) False) (replicate (column_count schema) []))"

fun check_columns :: "table_schema \<Rightarrow> int \<Rightarrow> string list \<Rightarrow> bool list \<Rightarrow> unit result" where
  "check_columns schema id_col [] seen = Inr ()"
| "check_columns schema id_col (c # cs) seen =
     (let column_index = schema_find_column_index schema c in
      if column_index < 0 then exec_error (''unknown column '' @ quoted c)
      else if column_index = id_col then
        exec_error (''explicit '' @ quoted ''id'' @ '' values are not allowed'')
      else if seen ! nat column_index then exec_error (''duplicate column '' @ quoted c)
      else check_columns schema id_col cs (seen[nat column_index := True]))"

definition validate_insert_columns_for_auto_id :: "table_runtime \<Rightarrow> insert_statement \<Rightarrow> unit result" where
  "validate_insert_columns_for_auto_id table stmt =
     (if \<not> has_id_column table then Inr ()
      else let non_id_column_count = column_count (rt_schema table) - 1 in
           if ins_columns stmt = [] then
             (if length (ins_values stmt) \<noteq> non_id_column_count then
                exec_error (''expected '' @ print_nat non_id_column_count @
                  '' values for auto-id insert but got '' @ print_nat (length (ins_values stmt)))
              else Inr ())
           else if length (ins_columns stmt) \<noteq> length (ins_values stmt) then
             exec_error (''column count '' @ print_nat (length (ins_columns stmt)) @
               '' does not match value count '' @ print_nat (length (ins_values stmt)))
           else check_columns (rt_schema table) (id_column_index table) (ins_columns stmt)
                  (replicate (column_count (rt_schema table)) False))"

text \<open>Without a column list: the values go to the columns other than \<^verbatim>\<open>id\<close>, from column \<open>i\<close> on.\<close>

fun fill_columns :: "int \<Rightarrow> int \<Rightarrow> row \<Rightarrow> literal_value list \<Rightarrow> row" where
  "fill_columns i id_col [] vs = []"
| "fill_columns i id_col (x # xs) vs =
     (if i = id_col then x # fill_columns (i + 1) id_col xs vs
      else case vs of
             [] \<Rightarrow> x # fill_columns (i + 1) id_col xs []
           | v # vs' \<Rightarrow> lit_text v # fill_columns (i + 1) id_col xs vs')"

fun assign_columns :: "table_schema \<Rightarrow> int \<Rightarrow> string list \<Rightarrow> literal_value list \<Rightarrow> row \<Rightarrow> row result" where
  "assign_columns schema id_col (c # cs) (v # vs) row =
     (let column_index = schema_find_column_index schema c in
      if column_index < 0 \<or> column_index = id_col then
        exec_error ''invalid auto-id insert column''
      else assign_columns schema id_col cs vs (row[nat column_index := lit_text v]))"
| "assign_columns schema id_col _ _ row = Inr row"

definition build_insert_row_with_generated_id ::
  "table_runtime \<Rightarrow> insert_statement \<Rightarrow> u64 \<Rightarrow> row result" where
  "build_insert_row_with_generated_id table stmt gen_id =
     (if \<not> has_id_column table then exec_error ''invalid generated-id row arguments''
      else let row = (replicate (column_count (rt_schema table)) [])
                       [nat (id_column_index table) := print_u64 gen_id] in
           if ins_columns stmt = [] then
             Inr (fill_columns 0 (id_column_index table) row (ins_values stmt))
           else assign_columns (rt_schema table) (id_column_index table) (ins_columns stmt)
                  (ins_values stmt) row)"

section \<open>SELECT\<close>

fun unknown_column :: "table_schema \<Rightarrow> string list \<Rightarrow> string option" where
  "unknown_column schema [] = None"
| "unknown_column schema (c # cs) =
     (if schema_find_column_index schema c < 0 then Some c else unknown_column schema cs)"

definition validate_select_columns :: "table_schema \<Rightarrow> select_statement \<Rightarrow> unit result" where
  "validate_select_columns schema stmt =
     (if \<not> select_all stmt \<and> sel_columns stmt = [] then exec_error ''empty select column list''
      else case (if select_all stmt then None else unknown_column schema (sel_columns stmt)) of
             Some c \<Rightarrow> exec_error (''unknown column '' @ quoted c)
           | None \<Rightarrow>
               if has_condition (sel_where stmt) \<and>
                  schema_find_column_index schema (where_column (sel_where stmt)) < 0 then
                 exec_error (''unknown column '' @ quoted (where_column (sel_where stmt)))
               else Inr ())"

definition initialize_query_result_columns :: "table_schema \<Rightarrow> select_statement \<Rightarrow> query_result" where
  "initialize_query_result_columns schema stmt =
     \<lparr>qr_columns = (if select_all stmt then columns schema else sel_columns stmt), qr_rows = []\<rparr>"

definition row_matches_where_clause :: "select_statement \<Rightarrow> int \<Rightarrow> row \<Rightarrow> bool" where
  "row_matches_where_clause stmt where_index row =
     (if \<not> has_condition (sel_where stmt) then True
      else if where_index < 0 \<or> int (length row) \<le> where_index then False
      else row ! nat where_index = lit_text (where_value (sel_where stmt)))"

definition row_value :: "row \<Rightarrow> int \<Rightarrow> string" where
  "row_value row column_index =
     (if 0 \<le> column_index \<and> column_index < int (length row) then row ! nat column_index else [])"

definition project_single_row :: "table_schema \<Rightarrow> select_statement \<Rightarrow> row \<Rightarrow> row" where
  "project_single_row schema stmt source_row =
     (if select_all stmt then map (\<lambda>i. row_value source_row (int i)) [0..<column_count schema]
      else map (\<lambda>c. row_value source_row (schema_find_column_index schema c)) (sel_columns stmt))"

definition append_result_row :: "query_result \<Rightarrow> row \<Rightarrow> query_result" where
  "append_result_row result projected_row = result\<lparr>qr_rows := qr_rows result @ [projected_row]\<rparr>"

definition select_full_scan_callback ::
  "table_schema \<Rightarrow> select_statement \<Rightarrow> int \<Rightarrow> query_result callback" where
  "select_full_scan_callback schema stmt where_index row row_offset result =
     (if \<not> row_matches_where_clause stmt where_index row then (Continue, result)
      else (Continue, append_result_row result (project_single_row schema stmt row)))"

definition can_use_id_index :: "table_runtime \<Rightarrow> select_statement \<Rightarrow> u64 option" where
  "can_use_id_index table stmt =
     (if \<not> has_id_column table \<or> \<not> id_index_ready table then None
      else if \<not> has_condition (sel_where stmt) then None
      else if where_column (sel_where stmt) \<noteq> ''id'' then None
      else try_parse_indexable_id_literal (where_value (sel_where stmt)))"

definition execute_select_with_id_index ::
  "fs \<Rightarrow> string \<Rightarrow> table_runtime \<Rightarrow> select_statement \<Rightarrow> u64 \<Rightarrow> exec_result result" where
  "execute_select_with_id_index fs db_dir table stmt id_key =
     (let qr = initialize_query_result_columns (rt_schema table) stmt in
      case bptree_search (id_index table) id_key of
        Inl e \<Rightarrow> Inl (translate_module_status STATUS_INDEX_ERROR ''INDEX ERROR'' e)
      | Inr None \<Rightarrow> Inr (zero_result\<lparr>query_result := qr, used_index := True\<rparr>)
      | Inr (Some row_offset) \<Rightarrow>
          (case read_row_at_offset fs db_dir (rt_table_name table) row_offset
                  (column_count (rt_schema table)) of
             Inl e \<Rightarrow> Inl (translate_module_status STATUS_STORAGE_ERROR ''STORAGE ERROR'' e)
           | Inr source_row \<Rightarrow>
               if \<not> row_matches_where_clause stmt (id_column_index table) source_row then
                 Inr (zero_result\<lparr>query_result := qr, used_index := True\<rparr>)
               else
                 Inr (zero_result\<lparr>query_result :=
                        append_result_row qr (project_single_row (rt_schema table) stmt source_row),
                      used_index := True\<rparr>)))"

definition execute_select_with_full_scan ::
  "fs \<Rightarrow> string \<Rightarrow> table_runtime \<Rightarrow> select_statement \<Rightarrow> exec_result result" where
  "execute_select_with_full_scan fs db_dir table stmt =
     (let where_index = (if has_condition (sel_where stmt) then
                           schema_find_column_index (rt_schema table) (where_column (sel_where stmt))
                         else -1) in
      case scan_table_rows_with_offsets fs db_dir (rt_table_name table) (column_count (rt_schema table))
             (select_full_scan_callback (rt_schema table) stmt where_index)
             (initialize_query_result_columns (rt_schema table) stmt) of
        (Inl e, qr) \<Rightarrow> Inl (translate_module_status STATUS_STORAGE_ERROR ''STORAGE ERROR'' e)
      | (Inr u, qr) \<Rightarrow> Inr (zero_result\<lparr>query_result := qr, used_index := False\<rparr>))"

definition execute_select ::
  "execution_context \<Rightarrow> select_statement \<Rightarrow> fs \<Rightarrow> exec_result result \<times> execution_context \<times> fs" where
  "execute_select ctx stmt fs =
     (case get_or_load_table_runtime ctx (sel_table_name stmt) fs of
        (Inl e, ctx1, fs1) \<Rightarrow> (Inl (translate_load_status e), ctx1, fs1)
      | (Inr i, ctx1, fs1) \<Rightarrow>
          (let table = tables ctx1 ! i in
           case validate_select_columns (rt_schema table) stmt of
             Inl e \<Rightarrow> (Inl e, ctx1, fs1)
           | Inr u \<Rightarrow>
               (case (case can_use_id_index table stmt of
                        Some id_key \<Rightarrow>
                          execute_select_with_id_index fs1 (ctx_db_dir ctx1) table stmt id_key
                      | None \<Rightarrow> execute_select_with_full_scan fs1 (ctx_db_dir ctx1) table stmt) of
                  Inl e \<Rightarrow> (Inl e, ctx1, fs1)
                | Inr r \<Rightarrow>
                    (Inr (r\<lparr>res_type := RESULT_SELECT,
                            affected_rows := length (qr_rows (query_result r))\<rparr>), ctx1, fs1))))"

section \<open>INSERT\<close>

definition execute_insert ::
  "execution_context \<Rightarrow> insert_statement \<Rightarrow> fs \<Rightarrow> exec_result result \<times> execution_context \<times> fs" where
  "execute_insert ctx stmt fs =
     (case get_or_load_table_runtime ctx (ins_table_name stmt) fs of
        (Inl e, ctx1, fs1) \<Rightarrow> (Inl (translate_load_status e), ctx1, fs1)
      | (Inr i, ctx1, fs1) \<Rightarrow>
          (let table = tables ctx1 ! i in
           if has_id_column table then
             (case validate_insert_columns_for_auto_id table stmt of
                Inl e \<Rightarrow> (Inl e, ctx1, fs1)
              | Inr u \<Rightarrow>
                  if next_id table = 0 then (exec_error ''auto-generated id overflow'', ctx1, fs1)
                  else
                    (case build_insert_row_with_generated_id table stmt (next_id table) of
                       Inl e \<Rightarrow> (Inl e, ctx1, fs1)
                     | Inr row \<Rightarrow>
                         (case append_row_to_table_with_offset (ctx_db_dir ctx1) (ins_table_name stmt) row fs1 of
                            (Inl e, fs2) \<Rightarrow>
                              (Inl (translate_module_status STATUS_STORAGE_ERROR ''STORAGE ERROR'' e), ctx1, fs2)
                          | (Inr row_offset, fs2) \<Rightarrow>
                              (case bptree_insert (id_index table) (next_id table) row_offset of
                                 (Inl e, tree) \<Rightarrow>
                                   (Inl (translate_module_status STATUS_INDEX_ERROR ''INDEX ERROR'' e),
                                    ctx1\<lparr>tables := (tables ctx1)[i := table\<lparr>id_index := tree\<rparr>]\<rparr>, fs2)
                               | (Inr u, tree) \<Rightarrow>
                                   (Inr (zero_result\<lparr>res_type := RESULT_INSERT, affected_rows := 1,
                                           has_generated_id := True, generated_id := next_id table\<rparr>),
                                    ctx1\<lparr>tables := (tables ctx1)
                                           [i := table\<lparr>id_index := tree, next_id := next_id table + 1,
                                                       id_index_ready := True\<rparr>]\<rparr>, fs2)))))
           else
             (case build_insert_row_existing_behavior (rt_schema table) stmt of
                Inl e \<Rightarrow> (Inl e, ctx1, fs1)
              | Inr row \<Rightarrow>
                  (case append_row_to_table (ctx_db_dir ctx1) (ins_table_name stmt) row fs1 of
                     (Inl e, fs2) \<Rightarrow>
                       (Inl (translate_module_status STATUS_STORAGE_ERROR ''STORAGE ERROR'' e), ctx1, fs2)
                   | (Inr u, fs2) \<Rightarrow>
                       (Inr (zero_result\<lparr>res_type := RESULT_INSERT, affected_rows := 1\<rparr>), ctx1, fs2)))))"

definition execute_statement ::
  "execution_context \<Rightarrow> statement \<Rightarrow> fs \<Rightarrow> exec_result result \<times> execution_context \<times> fs" where
  "execute_statement ctx stmt fs =
     (case stmt of
        STMT_INSERT s \<Rightarrow> execute_insert ctx s fs
      | STMT_SELECT s \<Rightarrow> execute_select ctx s fs)"

end
