(* ===== verification/Insert_Rows.thy ===== *)
theory Insert_Rows
  imports Executor
begin

text \<open>
  The row an INSERT writes, stated on column names: \<open>insert_accepts\<close> says which statements fit
  a schema and \<open>inserted_row\<close> which value each column gets.  The loops of
  \<^verbatim>\<open>src/executor.c\<close> that check the columns and build the row (with a column list, without
  one, with a generated id) are shown to compute exactly these two.
\<close>

section \<open>The specification\<close>

text \<open>The columns that the values of a statement go to, in order.\<close>

definition insert_targets :: "table_schema \<Rightarrow> insert_statement \<Rightarrow> string list" where
  "insert_targets schema stmt =
     (if ins_columns stmt = [] then filter (\<lambda>c. c \<noteq> ''id'') (columns schema) else ins_columns stmt)"

definition insert_accepts :: "table_schema \<Rightarrow> insert_statement \<Rightarrow> bool" where
  "insert_accepts schema stmt \<longleftrightarrow>
     length (insert_targets schema stmt) = length (ins_values stmt) \<and>
     distinct (insert_targets schema stmt) \<and>
     set (insert_targets schema stmt) \<subseteq> set (columns schema) - {''id''}"

definition inserted_value :: "table_schema \<Rightarrow> insert_statement \<Rightarrow> u64 \<Rightarrow> string \<Rightarrow> string" where
  "inserted_value schema stmt gen_id c =
     (if c = ''id'' then print_u64 gen_id
      else case map_of (zip (insert_targets schema stmt) (map lit_text (ins_values stmt))) c of
             None \<Rightarrow> []
           | Some v \<Rightarrow> v)"

definition inserted_row :: "table_schema \<Rightarrow> insert_statement \<Rightarrow> u64 \<Rightarrow> row" where
  "inserted_row schema stmt gen_id = map (inserted_value schema stmt gen_id) (columns schema)"

section \<open>Rows as functions of the column\<close>

definition overlay :: "('a \<Rightarrow> 'b) \<Rightarrow> ('a \<rightharpoonup> 'b) \<Rightarrow> 'a \<Rightarrow> 'b" where
  "overlay f m x = (case m x of None \<Rightarrow> f x | Some y \<Rightarrow> y)"

lemma overlay_empty [simp]: "overlay f Map.empty = f"
  by (simp add: overlay_def fun_eq_iff)

lemma overlay_step: "c \<notin> dom m \<Longrightarrow> overlay (f(c := v)) m = overlay f (m(c \<mapsto> v))"
  by (auto simp: overlay_def fun_eq_iff split: option.splits)

lemma dom_zip: "length cs = length vs \<Longrightarrow> dom (map_of (zip cs vs)) = set cs"
  by (simp add: dom_map_of_zip)

lemma update_column:
  assumes "distinct cols" "c \<in> set cols"
  shows "(map f cols)[nat (column_position cols c) := v] = map (f(c := v)) cols"
proof (rule nth_equalityI)
  fix i
  assume i: "i < length ((map f cols)[nat (column_position cols c) := v])"
  let ?p = "nat (column_position cols c)"
  have p: "?p < length cols" "cols ! ?p = c" using column_position_found [OF assms(2)] by auto
  with assms(1) i have "cols ! i = c \<longleftrightarrow> i = ?p" by (auto simp: nth_eq_iff_index_eq)
  with i p show "(map f cols)[?p := v] ! i = map (f(c := v)) cols ! i" by (auto simp: nth_list_update)
qed simp

lemma at_column:
  assumes "c \<in> set cols"
  shows "map f cols ! nat (column_position cols c) = f c"
  using column_position_found [OF assms] by simp

section \<open>The loops\<close>

lemma place_values_spec:
  assumes "length cs = length vs" "distinct (columns schema)"
  shows "place_values schema cs vs (map (\<lambda>c. c \<in> S) (columns schema)) (map f (columns schema)) = Inr row \<longleftrightarrow>
    set cs \<subseteq> set (columns schema) \<and> distinct cs \<and> set cs \<inter> S = {} \<and>
    row = map (overlay f (map_of (zip cs (map lit_text vs)))) (columns schema)"
  using assms(1)
proof (induction cs vs arbitrary: S f rule: list_induct2)
  case (Cons c cs v vs)
  let ?cols = "columns schema" and ?p = "column_position (columns schema) c"
  show ?case
  proof (cases "c \<in> set ?cols \<and> c \<notin> S")
    case True
    then have p: "\<not> ?p < 0" by (simp add: column_position_neg_iff)
    have s: "(map (\<lambda>c. c \<in> S) ?cols)[nat ?p := True] = map (\<lambda>c. c \<in> insert c' S) ?cols" if "c' = c" for c'
      using update_column [OF assms(2), of c "\<lambda>c. c \<in> S" True] True that by (auto simp: fun_eq_iff)
    have "place_values schema (c # cs) (v # vs) (map (\<lambda>c. c \<in> S) ?cols) (map f ?cols) =
        place_values schema cs vs (map (\<lambda>x. x \<in> insert c S) ?cols) (map (f(c := lit_text v)) ?cols)"
      using True p s [OF refl] update_column [OF assms(2), of c f] at_column [of c ?cols "\<lambda>c. c \<in> S"]
      by (simp add: schema_find_column_index_def Let_def)
    then have "place_values schema (c # cs) (v # vs) (map (\<lambda>c. c \<in> S) ?cols) (map f ?cols) = Inr row \<longleftrightarrow>
        set cs \<subseteq> set ?cols \<and> distinct cs \<and> set cs \<inter> insert c S = {} \<and>
        row = map (overlay (f(c := lit_text v)) (map_of (zip cs (map lit_text vs)))) ?cols"
      using Cons.IH [of "insert c S" "f(c := lit_text v)"] by (simp only:)
    also have "\<dots> \<longleftrightarrow> set cs \<subseteq> set ?cols \<and> distinct cs \<and> set cs \<inter> insert c S = {} \<and>
        row = map (overlay f (map_of (zip (c # cs) (map lit_text (v # vs))))) ?cols"
      using overlay_step [of c "map_of (zip cs (map lit_text vs))" f "lit_text v"]
        dom_zip [of cs "map lit_text vs"] Cons.hyps by (auto simp del: fun_upd_apply)
    finally have *: "place_values schema (c # cs) (v # vs) (map (\<lambda>c. c \<in> S) ?cols) (map f ?cols) = Inr row \<longleftrightarrow>
        set cs \<subseteq> set ?cols \<and> distinct cs \<and> set cs \<inter> insert c S = {} \<and>
        row = map (overlay f (map_of (zip (c # cs) (map lit_text (v # vs))))) ?cols" .
    have "(set cs \<subseteq> set ?cols \<and> distinct cs \<and> set cs \<inter> insert c S = {}) =
        (set (c # cs) \<subseteq> set ?cols \<and> distinct (c # cs) \<and> set (c # cs) \<inter> S = {})" using True by auto
    then show ?thesis using * by argo
  next
    case False
    with at_column [of c ?cols "\<lambda>c. c \<in> S"] show ?thesis
      by (auto simp: schema_find_column_index_def Let_def column_position_neg_iff exec_error_def)
  qed
qed (auto simp: eq_commute)

lemma position_eq_iff:
  assumes "c \<in> set cols" "d \<in> set cols"
  shows "column_position cols c = column_position cols d \<longleftrightarrow> c = d"
  using column_position_found [OF assms(1)] column_position_found [OF assms(2)] by metis

lemma check_columns_spec:
  assumes "distinct (columns schema)" "''id'' \<in> set (columns schema)"
  shows "check_columns schema (schema_find_column_index schema ''id'') cs (map (\<lambda>c. c \<in> S) (columns schema)) = Inr u \<longleftrightarrow>
    set cs \<subseteq> set (columns schema) - {''id''} \<and> distinct cs \<and> set cs \<inter> S = {}"
proof (induction cs arbitrary: S)
  case (Cons c cs)
  let ?cols = "columns schema" and ?p = "column_position (columns schema) c"
  let ?check = "check_columns schema (column_position ?cols ''id'')"
  have step: "?check (c # cs) (map (\<lambda>c. c \<in> S) ?cols) =
      (if c \<notin> set ?cols then exec_error (''unknown column '' @ quoted c)
       else if c = ''id'' then exec_error (''explicit '' @ quoted ''id'' @ '' values are not allowed'')
       else if c \<in> S then exec_error (''duplicate column '' @ quoted c)
       else ?check cs (map ((\<lambda>c. c \<in> S)(c := True)) ?cols))"
    using position_eq_iff [OF _ assms(2), of c] update_column [OF assms(1), of c "\<lambda>c. c \<in> S" True]
      at_column [of c ?cols "\<lambda>c. c \<in> S"]
    by (simp add: schema_find_column_index_def Let_def column_position_neg_iff)
  have "(\<lambda>c. c \<in> S)(c := True) = (\<lambda>x. x \<in> insert c S)" by (auto simp: fun_eq_iff)
  with step Cons.IH [of "insert c S"] show ?case
    unfolding schema_find_column_index_def by (auto simp: exec_error_def)
qed simp

lemma assign_columns_spec:
  assumes "length cs = length vs" "distinct (columns schema)" "''id'' \<in> set (columns schema)"
    and "set cs \<subseteq> set (columns schema) - {''id''}" "distinct cs"
  shows "assign_columns schema (schema_find_column_index schema ''id'') cs vs (map f (columns schema)) =
    Inr (map (overlay f (map_of (zip cs (map lit_text vs)))) (columns schema))"
  using assms(1,4,5)
proof (induction cs vs arbitrary: f rule: list_induct2)
  case (Cons c cs v vs)
  let ?cols = "columns schema"
  have c: "c \<in> set ?cols" "c \<noteq> ''id''" "c \<notin> set cs" using Cons.prems by auto
  then have "assign_columns schema (schema_find_column_index schema ''id'') (c # cs) (v # vs) (map f ?cols) =
      assign_columns schema (schema_find_column_index schema ''id'') cs vs (map (f(c := lit_text v)) ?cols)"
    using position_eq_iff [OF c(1) assms(3)] update_column [OF assms(2) c(1), of f "lit_text v"]
    by (simp add: schema_find_column_index_def Let_def column_position_neg_iff del: map_eq_conv)
  also have "\<dots> = Inr (map (overlay (f(c := lit_text v)) (map_of (zip cs (map lit_text vs)))) ?cols)"
    using Cons.prems by (intro Cons.IH) auto
  also have "overlay (f(c := lit_text v)) (map_of (zip cs (map lit_text vs))) =
      overlay f (map_of (zip (c # cs) (map lit_text (v # vs))))"
    using overlay_step [of c _ f "lit_text v"] dom_zip [of cs "map lit_text vs"] Cons.hyps c(3) by simp
  finally show ?case .
qed simp

lemma fill_columns_spec:
  assumes "distinct cs" "\<And>j. j < length cs \<Longrightarrow> i + int j = id_col \<longleftrightarrow> cs ! j = ''id''"
    and "length (filter (\<lambda>c. c \<noteq> ''id'') cs) = length vs"
  shows "fill_columns i id_col (map f cs) vs =
    map (\<lambda>c. if c = ''id'' then f c
             else overlay f (map_of (zip (filter (\<lambda>c. c \<noteq> ''id'') cs) (map lit_text vs))) c) cs"
  using assms
proof (induction cs arbitrary: i vs)
  case (Cons c cs)
  have c: "i = id_col \<longleftrightarrow> c = ''id''" using Cons.prems(2) [of 0] by simp
  have tl: "j < length cs \<Longrightarrow> i + 1 + int j = id_col \<longleftrightarrow> cs ! j = ''id''" for j
    using Cons.prems(2) [of "Suc j"] by (simp add: algebra_simps)
  note IH = Cons.IH [OF _ tl]
  show ?case
  proof (cases "c = ''id''")
    case True
    with c Cons.prems IH [of vs] show ?thesis by simp
  next
    case False
    with Cons.prems(3) obtain v vs' where vs: "vs = v # vs'" by (cases vs) auto
    with False Cons.prems IH [of vs'] c show ?thesis by (auto simp: overlay_def)
  qed
qed simp

section \<open>The rows built are the specified ones\<close>

text \<open>A table with a column \<^verbatim>\<open>id\<close>: the check and the row.\<close>

lemma auto_id_accepts:
  assumes "distinct (columns (rt_schema table))" "''id'' \<in> set (columns (rt_schema table))"
    and "has_id_column table" "id_column_index table = schema_find_column_index (rt_schema table) ''id''"
  shows "validate_insert_columns_for_auto_id table stmt = Inr u \<longleftrightarrow> insert_accepts (rt_schema table) stmt"
proof -
  let ?cols = "columns (rt_schema table)"
  have r: "replicate (length ?cols) False = map (\<lambda>c. c \<in> {}) ?cols" by (simp add: map_replicate_const)
  have "length (filter (\<lambda>c. c \<noteq> ''id'') ?cols) = length ?cols - 1"
  proof -
    have "{c. c \<noteq> ''id''} \<inter> set ?cols = set ?cols - {''id''}" by auto
    then show ?thesis using assms(1,2) by (simp add: distinct_length_filter distinct_card)
  qed
  then show ?thesis
    using assms check_columns_spec [OF assms(1,2), of "ins_columns stmt" "{}"]
    unfolding validate_insert_columns_for_auto_id_def insert_accepts_def insert_targets_def column_count_def r
    by (auto simp: Let_def exec_error_def)
qed

lemma auto_id_row:
  assumes "distinct (columns (rt_schema table))" "''id'' \<in> set (columns (rt_schema table))"
    and "has_id_column table" "id_column_index table = schema_find_column_index (rt_schema table) ''id''"
    and "insert_accepts (rt_schema table) stmt"
  shows "build_insert_row_with_generated_id table stmt gen_id = Inr (inserted_row (rt_schema table) stmt gen_id)"
proof -
  let ?cols = "columns (rt_schema table)" and ?f = "(\<lambda>c. [])(''id'' := print_u64 gen_id)"
  let ?p = "column_position ?cols ''id''"
  have r: "(replicate (length ?cols) [])[nat ?p := print_u64 gen_id] = map ?f ?cols"
    using update_column [OF assms(1,2), of "\<lambda>c. []"] by (simp add: map_replicate_const)
  have row: "inserted_row (rt_schema table) stmt gen_id =
      map (\<lambda>c. if c = ''id'' then ?f c
               else overlay ?f (map_of (zip (insert_targets (rt_schema table) stmt) (map lit_text (ins_values stmt)))) c) ?cols"
    by (auto simp: inserted_row_def inserted_value_def overlay_def split: option.splits)
  show ?thesis
  proof (cases "ins_columns stmt = []")
    case True
    have "j < length ?cols \<Longrightarrow> 0 + int j = ?p \<longleftrightarrow> ?cols ! j = ''id''" for j
      using column_position_nth [OF assms(1), of j] column_position_found [OF assms(2)] by (metis add_0 nat_int)
    moreover have t: "insert_targets (rt_schema table) stmt = filter (\<lambda>c. c \<noteq> ''id'') ?cols"
      using True by (simp add: insert_targets_def)
    ultimately have "fill_columns 0 ?p (map ?f ?cols) (ins_values stmt) = inserted_row (rt_schema table) stmt gen_id"
      unfolding row t using assms(5) by (intro fill_columns_spec [OF assms(1)]) (simp_all add: insert_accepts_def t)
    with assms(3,4) True r show ?thesis
      by (simp add: build_insert_row_with_generated_id_def column_count_def schema_find_column_index_def)
  next
    case False
    let ?m = "map_of (zip (ins_columns stmt) (map lit_text (ins_values stmt)))"
    have t: "insert_targets (rt_schema table) stmt = ins_columns stmt" using False by (simp add: insert_targets_def)
    have a: "length (ins_columns stmt) = length (ins_values stmt)" "distinct (ins_columns stmt)"
      "set (ins_columns stmt) \<subseteq> set ?cols - {''id''}"
      using assms(5) t by (simp_all add: insert_accepts_def)
    then have "?m ''id'' = None" by (auto simp: map_of_eq_None_iff dest: set_zip_leftD)
    then have "map (overlay ?f ?m) ?cols = inserted_row (rt_schema table) stmt gen_id"
      unfolding row t by (auto simp: overlay_def)
    with assign_columns_spec [OF a(1) assms(1,2) a(3,2), of ?f] r False assms(3,4) show ?thesis
      by (simp add: build_insert_row_with_generated_id_def column_count_def schema_find_column_index_def
          del: fun_upd_apply map_eq_conv)
  qed
qed

text \<open>A table without one: the values are placed by position or by name.\<close>

lemma plain_row:
  assumes "distinct (columns schema)" "''id'' \<notin> set (columns schema)"
  shows "build_insert_row_existing_behavior schema stmt = Inr row \<longleftrightarrow>
    insert_accepts schema stmt \<and> row = inserted_row schema stmt gen_id"
proof -
  let ?cols = "columns schema" and ?vs = "map lit_text (ins_values stmt)"
  have no_id: "filter (\<lambda>c. c \<noteq> ''id'') ?cols = ?cols" using assms(2) by (auto simp: filter_id_conv)
  have row: "inserted_row schema stmt gen_id = map (overlay (\<lambda>c. []) (map_of (zip (insert_targets schema stmt) ?vs))) ?cols"
    using assms(2) by (auto simp: inserted_row_def inserted_value_def overlay_def)
  show ?thesis
  proof (cases "ins_columns stmt = []")
    case True
    have "map (overlay (\<lambda>c. []) (map_of (zip ?cols ?vs))) ?cols = ?vs" if "length ?cols = length ?vs"
      using that assms(1) by (auto simp: list_eq_iff_nth_eq overlay_def map_of_zip_nth)
    then show ?thesis using True no_id row assms
      by (auto simp: build_insert_row_existing_behavior_def insert_accepts_def insert_targets_def column_count_def exec_error_def)
  next
    case False
    then have t: "insert_targets schema stmt = ins_columns stmt" by (simp add: insert_targets_def)
    have r: "replicate (length ?cols) False = map (\<lambda>c. c \<in> {}) ?cols" "replicate (length ?cols) [] = map (\<lambda>c. []) ?cols"
      by (simp_all add: map_replicate_const)
    have "build_insert_row_existing_behavior schema stmt = Inr row \<longleftrightarrow>
        length (ins_columns stmt) = length (ins_values stmt) \<and>
        place_values schema (ins_columns stmt) (ins_values stmt) (map (\<lambda>c. c \<in> {}) ?cols) (map (\<lambda>c. []) ?cols) = Inr row"
      using False unfolding build_insert_row_existing_behavior_def column_count_def r by (simp add: exec_error_def)
    also have "\<dots> \<longleftrightarrow> length (ins_columns stmt) = length (ins_values stmt) \<and> set (ins_columns stmt) \<subseteq> set ?cols \<and>
        distinct (ins_columns stmt) \<and> row = inserted_row schema stmt gen_id"
      using place_values_spec [OF _ assms(1), of "ins_columns stmt" "ins_values stmt" "{}" "\<lambda>c. []" row]
      unfolding row t by blast
    finally show ?thesis using assms(2) unfolding insert_accepts_def t by blast
  qed
qed

end
