(* ===== verification/Executor_Correct.thy ===== *)
theory Executor_Correct
  imports Insert_Rows
begin

text \<open>
  Correctness of the executor against the rows of the data files: a SELECT returns the projected
  matching rows in file order whichever path it takes, an INSERT appends one row with a fresh id,
  and both keep the invariant that ties the cache to the files.
\<close>

section \<open>SELECT by full scan\<close>

definition where_position :: "table_schema \<Rightarrow> select_statement \<Rightarrow> int" where
  "where_position schema stmt =
     (if has_condition (sel_where stmt) then schema_find_column_index schema (where_column (sel_where stmt))
      else -1)"

text \<open>The specification of SELECT on a list of rows.\<close>

definition select_rows :: "table_schema \<Rightarrow> select_statement \<Rightarrow> row list \<Rightarrow> row list" where
  "select_rows schema stmt rows =
     map (project_single_row schema stmt)
       (filter (row_matches_where_clause stmt (where_position schema stmt)) rows)"

definition select_result :: "table_schema \<Rightarrow> select_statement \<Rightarrow> row list \<Rightarrow> bool \<Rightarrow> exec_result" where
  "select_result schema stmt rows idx =
     zero_result\<lparr>query_result := \<lparr>qr_columns = (if select_all stmt then columns schema else sel_columns stmt),
                                   qr_rows = rows\<rparr>, used_index := idx\<rparr>"

lemma run_select:
  "run_callback nm (select_full_scan_callback schema stmt w) rs qr =
     (Inr (), qr\<lparr>qr_rows := qr_rows qr @
        map (project_single_row schema stmt) (filter (row_matches_where_clause stmt w) (map fst rs))\<rparr>)"
proof (induction rs arbitrary: qr)
  case (Cons r rs)
  then show ?case by (cases r) (simp add: select_full_scan_callback_def append_result_row_def)
qed simp

lemma full_scan_correct:
  assumes "table_rows fs db_dir (rt_table_name table) (column_count (rt_schema table)) rs"
  shows "execute_select_with_full_scan fs db_dir table stmt =
    Inr (select_result (rt_schema table) stmt (select_rows (rt_schema table) stmt (map fst rs)) False)"
  unfolding execute_select_with_full_scan_def where_position_def [symmetric] Let_def scan_table [OF assms] run_select
  by (simp add: select_result_def select_rows_def initialize_query_result_columns_def)

section \<open>SELECT by the id index\<close>

lemma row_id_iff:
  "row_id i row = Some k \<longleftrightarrow> 0 \<le> i \<and> i < int (length row) \<and> k \<noteq> 0 \<and> row ! nat i = print_u64 k"
  by (auto simp: row_id_def parse_canonical_iff)

lemma matches_id:
  assumes "can_use_id_index table stmt = Some k"
  shows "row_matches_where_clause stmt i row \<longleftrightarrow> row_id i row = Some k"
  using assms
  by (auto simp: can_use_id_index_def try_parse_indexable_id_literal_def row_matches_where_clause_def
        row_id_iff parse_canonical_iff split: if_splits)

lemma index_scan_correct:
  assumes inv: "table_inv fs db_dir table rs" and idx: "can_use_id_index table stmt = Some k"
  shows "execute_select_with_id_index fs db_dir table stmt k =
    Inr (select_result (rt_schema table) stmt (select_rows (rt_schema table) stmt (map fst rs)) True)"
proof -
  let ?i = "id_column_index table"
  have has: "has_id_column table" and w: "where_position (rt_schema table) stmt = ?i"
    using idx inv by (auto simp: can_use_id_index_def where_position_def table_inv_def split: if_splits)
  have T: "ids_valid ?i rs" "distinct (id_keys ?i rs)" "index_inv (id_index table)"
    "bptree_map (id_index table) = map_of (id_entries ?i rs)"
    "table_rows fs db_dir (rt_table_name table) (column_count (rt_schema table)) rs"
    using inv has unfolding table_inv_def by blast+
  have m: "row_matches_where_clause stmt ?i = (\<lambda>r. row_id ?i r = Some k)"
    using matches_id [OF idx] by (simp add: fun_eq_iff)
  have sr: "select_rows (rt_schema table) stmt (map fst rs) = map (project_single_row (rt_schema table) stmt)
      (filter (\<lambda>r. row_id ?i r = Some k) (map fst rs))"
    by (simp add: select_rows_def w m)
  have "keys_unique (row_id ?i) rs" "bptree_map (id_index table) = map_of (key_entries (row_id ?i) rs)"
    using T by (simp_all add: ids_unique id_entries_key)
  from T(5,3) this show ?thesis
  proof (cases rule: id_table.lookup_is_scan [of _ _ _ _ _ _ _ k])
    case none
    with sr show ?thesis
      by (simp add: execute_select_with_id_index_def select_result_def initialize_query_result_columns_def)
  next
    case (one off r)
    have "r \<in> set (filter (\<lambda>r. row_id ?i r = Some k) (map fst rs))" unfolding one(3) by simp
    then have "row_id ?i r = Some k" by simp
    with one sr matches_id [OF idx] show ?thesis
      by (simp add: execute_select_with_id_index_def select_result_def initialize_query_result_columns_def
            append_result_row_def)
  qed
qed

lemma select_table:
  assumes inv: "table_inv fs db_dir table rs"
  shows "(case can_use_id_index table stmt of
            Some id_key \<Rightarrow> execute_select_with_id_index fs db_dir table stmt id_key
          | None \<Rightarrow> execute_select_with_full_scan fs db_dir table stmt) =
    Inr (select_result (rt_schema table) stmt (select_rows (rt_schema table) stmt (map fst rs))
           (can_use_id_index table stmt \<noteq> None))"
proof (cases "can_use_id_index table stmt")
  case None
  then show ?thesis
    using full_scan_correct [of fs db_dir table rs stmt] inv by (simp add: table_inv_def)
next
  case (Some k)
  then show ?thesis using index_scan_correct [OF inv Some] by simp
qed

section \<open>Rows built for INSERT\<close>

definition stmt_ok :: "insert_statement \<Rightarrow> bool" where
  "stmt_ok stmt \<longleftrightarrow> list_all (\<lambda>v. no_nul (lit_text v)) (ins_values stmt)"

lemma digits_no_nul: "no_nul (print_u64 k)"
  by (simp add: print_u64_def no_nul_print_nat)

lemma strip_cr_print_nat [simp]: "strip_cr (print_nat n) = print_nat n"
proof -
  have "\<not> isdigit CR" by (simp add: isdigit_def code_def CR_def)
  with last_print_nat [of n] show ?thesis by (auto simp: strip_cr_def)
qed

lemma strip_cr_print [simp]: "strip_cr (print_u64 k) = print_u64 k"
  by (simp add: print_u64_def)

text \<open>The generated id survives storing, wherever the id column is.\<close>

lemma stored_row_nth:
  "i < length row \<Longrightarrow> stored_row row ! i = (if i = length row - 1 then strip_cr (row ! i) else row ! i)"
  by (auto simp: stored_row_def nth_append nth_butlast last_conv_nth)

lemma row_id_stored:
  assumes "0 \<le> i" "i < int (length row)" "row ! nat i = print_u64 k" "k \<noteq> 0"
  shows "row_id i (stored_row row) = Some k"
proof -
  have n: "nat i < length row" using assms(1,2) by (simp add: nat_less_iff)
  have "stored_row row ! nat i = print_u64 k"
    using stored_row_nth [OF n] assms(3) by (metis strip_cr_print)
  with assms show ?thesis by (simp add: row_id_iff)
qed

lemma table_id_column:
  assumes "table_inv fs db_dir table rs" "has_id_column table"
  shows "0 \<le> id_column_index table" "id_column_index table < int (column_count (rt_schema table))"
    "0 < column_count (rt_schema table)"
  using assms column_position_found [of "''id''" "columns (rt_schema table)"]
  by (auto simp: table_inv_def schema_find_column_index_def column_count_def)

lemma inserted_row_storable:
  assumes "columns schema \<noteq> []" "stmt_ok stmt"
  shows "storable (column_count schema) (inserted_row schema stmt k)"
proof -
  have "no_nul (inserted_value schema stmt k c)" for c
    using assms(2) digits_no_nul
    by (auto simp: inserted_value_def stmt_ok_def list_all_iff split: option.splits dest!: map_of_SomeD set_zip_rightD)
  with assms(1) show ?thesis by (simp add: storable_def inserted_row_def column_count_def list_all_iff)
qed

lemma inserted_row_id:
  assumes "table_inv fs db_dir table rs" "has_id_column table"
  shows "inserted_row (rt_schema table) stmt k ! nat (id_column_index table) = print_u64 k"
  using assms at_column [of "''id''" "columns (rt_schema table)" "inserted_value (rt_schema table) stmt k"]
  by (simp add: table_inv_def schema_find_column_index_def inserted_row_def inserted_value_def)

section \<open>INSERT on a cached table\<close>

lemma insert_auto_id:
  assumes inv: "table_inv fs db_dir table rs" and has: "has_id_column table"
    and nz: "next_id table \<noteq> 0" and ok: "stmt_ok stmt"
    and row: "row = inserted_row (rt_schema table) stmt (next_id table)"
  shows "\<exists>off tree fs'. append_row_to_table_with_offset db_dir (rt_table_name table) row fs = (Inr off, fs') \<and>
     bptree_insert (id_index table) (next_id table) off = (Inr (), tree) \<and>
     table_inv fs' db_dir (table\<lparr>id_index := tree, next_id := next_id table + 1, id_index_ready := True\<rparr>)
       (rs @ [(stored_row row, off)]) \<and>
     row_id (id_column_index table) (stored_row row) = Some (next_id table) \<and>
     (\<forall>p. p \<noteq> data_path db_dir (rt_table_name table) \<longrightarrow> fs' p = fs p)"
proof -
  let ?i = "id_column_index table" and ?k = "next_id table" and ?n = "column_count (rt_schema table)"
  note I = table_id_column [OF inv has]
  have G: "storable ?n row" "row ! nat ?i = print_u64 ?k"
    using inserted_row_storable [OF _ ok] inserted_row_id [OF inv has] inv by (simp_all add: row table_inv_def)
  have T: "ids_valid ?i rs" "distinct (id_keys ?i rs)" "index_inv (id_index table)"
    "bptree_map (id_index table) = map_of (id_entries ?i rs)" "table_rows fs db_dir (rt_table_name table) ?n rs"
    "\<forall>k \<in> set (id_keys ?i rs). k < ?k"
    using inv has nz unfolding table_inv_def by blast+
  have id: "row_id ?i (stored_row row) = Some ?k"
    by (rule row_id_stored) (use I G nz in \<open>simp_all add: storable_def\<close>)
  have "keys_unique (row_id ?i) rs" "bptree_map (id_index table) = map_of (key_entries (row_id ?i) rs)"
    "?k \<notin> fst ` set (key_entries (row_id ?i) rs)"
    using T by (auto simp: ids_unique id_entries_key set_id_keys [symmetric])
  from id_table.append_and_index [OF T(5,3) this(1,2) G(1) id this(3)] obtain off fs' tree where
    ap: "append_row_to_table_with_offset db_dir (rt_table_name table) row fs = (Inr off, fs')"
      "bptree_insert (id_index table) ?k off = (Inr (), tree)" "\<forall>p. p \<noteq> data_path db_dir (rt_table_name table) \<longrightarrow> fs' p = fs p"
    and T': "table_rows fs' db_dir (rt_table_name table) ?n (rs @ [(stored_row row, off)])" "index_inv tree"
      "ids_valid ?i (rs @ [(stored_row row, off)])" "distinct (id_keys ?i (rs @ [(stored_row row, off)]))"
      "bptree_map tree = map_of (id_entries ?i (rs @ [(stored_row row, off)]))"
    unfolding ids_unique id_entries_key by blast
  have "?k + 1 = 0 \<or> k < ?k + 1" if "k \<in> set (id_keys ?i (rs @ [(stored_row row, off)]))" for k
  proof -
    have "k \<le> ?k" using that T(6) id by (auto simp: id_keys_def)
    then show ?thesis using u64_less_Suc [of ?k k] by (cases "?k = UINT64_MAX") (auto simp: UINT64_MAX_def)
  qed
  then have "table_inv fs' db_dir (table\<lparr>id_index := tree, next_id := ?k + 1, id_index_ready := True\<rparr>)
       (rs @ [(stored_row row, off)])"
    using inv has T' unfolding table_inv_def by simp
  with ap id show ?thesis by blast
qed

lemma insert_plain:
  assumes inv: "table_inv fs db_dir table rs" and has: "\<not> has_id_column table" and ok: "stmt_ok stmt"
    and row: "row = inserted_row (rt_schema table) stmt k"
  shows "\<exists>off fs'. append_row_to_table db_dir (rt_table_name table) row fs = (Inr (), fs') \<and>
     table_inv fs' db_dir table (rs @ [(stored_row row, off)]) \<and>
     (\<forall>p. p \<noteq> data_path db_dir (rt_table_name table) \<longrightarrow> fs' p = fs p)"
proof -
  have "storable (column_count (rt_schema table)) row"
    using inserted_row_storable [OF _ ok] inv by (simp add: row table_inv_def)
  moreover have "table_rows fs db_dir (rt_table_name table) (column_count (rt_schema table)) rs"
    using inv by (simp add: table_inv_def)
  ultimately obtain off fs' where
    "append_row_to_table_with_offset db_dir (rt_table_name table) row fs = (Inr off, fs')"
    "table_rows fs' db_dir (rt_table_name table) (column_count (rt_schema table)) (rs @ [(stored_row row, off)])"
    "\<forall>p. p \<noteq> data_path db_dir (rt_table_name table) \<longrightarrow> fs' p = fs p"
    using append_table by blast
  with inv has show ?thesis by (auto simp: append_row_to_table_def table_inv_def)
qed

section \<open>The invariant across statements\<close>

text \<open>Replacing one cached table whose data file alone changed.\<close>

lemma ctx_inv_update:
  assumes inv: "ctx_inv fs ctx" and i: "i < length (tables ctx)"
    and t: "table_inv fs' (ctx_db_dir ctx) table' rs" "rt_table_name table' = rt_table_name (tables ctx ! i)"
    and fr: "\<forall>p. p \<noteq> data_path (ctx_db_dir ctx) (rt_table_name (tables ctx ! i)) \<longrightarrow> fs' p = fs p"
  shows "ctx_inv fs' (ctx\<lparr>tables := (tables ctx)[i := table']\<rparr>)"
proof -
  have d: "distinct (map rt_table_name (tables ctx))" using inv by (simp add: ctx_inv_def)
  have names: "map rt_table_name ((tables ctx)[i := table']) = map rt_table_name (tables ctx)"
    using t(2) i by (simp add: map_update list_update_same_conv)
  have "\<exists>rs. table_inv fs' (ctx_db_dir ctx) x rs" if x: "x \<in> set ((tables ctx)[i := table'])" for x
  proof -
    obtain j where j: "j < length (tables ctx)" "x = (tables ctx)[i := table'] ! j"
      using x by (auto simp: in_set_conv_nth)
    show ?thesis
    proof (cases "j = i")
      case True
      with j i t(1) show ?thesis by auto
    next
      case False
      then have "rt_table_name (tables ctx ! j) \<noteq> rt_table_name (tables ctx ! i)"
        using d i j by (metis distinct_conv_nth length_map nth_map)
      then have "fs' (data_path (ctx_db_dir ctx) (rt_table_name (tables ctx ! j))) =
          fs (data_path (ctx_db_dir ctx) (rt_table_name (tables ctx ! j)))"
        using fr by (simp add: data_path_inj)
      moreover obtain rs where "table_inv fs (ctx_db_dir ctx) (tables ctx ! j) rs"
        using inv nth_mem [OF j(1)] unfolding ctx_inv_def by blast
      ultimately show ?thesis using False j table_inv_cong by (metis nth_list_update_neq)
    qed
  qed
  with inv names show ?thesis by (auto simp: ctx_inv_def)
qed

text \<open>
  The outcome of an INSERT on the cached table at position \<open>i\<close>: an error that changes
  neither the cache nor the files if the statement does not fit the schema or the ids are used up,
  and otherwise one more row, the one specified by \<open>inserted_row\<close>.
\<close>

definition can_insert :: "table_runtime \<Rightarrow> insert_statement \<Rightarrow> bool" where
  "can_insert table stmt \<longleftrightarrow> insert_accepts (rt_schema table) stmt \<and> (has_id_column table \<longrightarrow> next_id table \<noteq> 0)"

definition inserted ::
  "execution_context \<Rightarrow> fs \<Rightarrow> nat \<Rightarrow> insert_statement \<Rightarrow> exec_result \<Rightarrow> execution_context \<Rightarrow> fs \<Rightarrow> bool" where
  "inserted ctx fs i stmt r ctx' fs' \<longleftrightarrow>
     (let table = tables ctx ! i; row = stored_row (inserted_row (rt_schema table) stmt (generated_id r)) in
      \<exists>rs off table'.
        table_inv fs (ctx_db_dir ctx) table rs \<and> table_inv fs' (ctx_db_dir ctx) table' (rs @ [(row, off)]) \<and>
        ctx' = ctx\<lparr>tables := (tables ctx)[i := table']\<rparr> \<and>
        rt_table_name table' = rt_table_name table \<and> rt_schema table' = rt_schema table \<and>
        (\<forall>p. p \<noteq> data_path (ctx_db_dir ctx) (rt_table_name table) \<longrightarrow> fs' p = fs p) \<and>
        res_type r = RESULT_INSERT \<and> affected_rows r = 1 \<and> has_generated_id r = has_id_column table \<and>
        (has_id_column table \<longrightarrow>
           generated_id r = next_id table \<and> generated_id r \<noteq> 0 \<and>
           row_id (id_column_index table) row = Some (generated_id r) \<and>
           generated_id r \<notin> set (id_keys (id_column_index table) rs) \<and>
           next_id table' = next_id table + 1))"

lemma insert_outcome_auto:
  assumes g: "get_or_load_table_runtime ctx (ins_table_name stmt) fs = (Inr i, ctx1, fs1)"
    and nm: "rt_table_name (tables ctx1 ! i) = ins_table_name stmt" and ok: "stmt_ok stmt"
    and rs: "table_inv fs1 (ctx_db_dir ctx1) (tables ctx1 ! i) rs" and has: "has_id_column (tables ctx1 ! i)"
    and can: "can_insert (tables ctx1 ! i) stmt"
  shows "\<exists>r ctx' fs'. execute_insert ctx stmt fs = (Inr r, ctx', fs') \<and> inserted ctx1 fs1 i stmt r ctx' fs'"
proof -
  let ?t = "tables ctx1 ! i" and ?db = "ctx_db_dir ctx1"
  let ?k = "next_id ?t"
  let ?row = "inserted_row (rt_schema ?t) stmt ?k"
  have T: "distinct (columns (rt_schema ?t))" "''id'' \<in> set (columns (rt_schema ?t))"
    "id_column_index ?t = schema_find_column_index (rt_schema ?t) ''id''"
    using rs has by (simp_all add: table_inv_def)
  have nz: "?k \<noteq> 0" and acc: "insert_accepts (rt_schema ?t) stmt" using can has by (simp_all add: can_insert_def)
  from insert_auto_id [OF rs has nz ok refl] obtain off tree fs' where
    A: "append_row_to_table_with_offset ?db (ins_table_name stmt) ?row fs1 = (Inr off, fs')"
      "bptree_insert (id_index ?t) ?k off = (Inr (), tree)"
    and I: "table_inv fs' ?db (?t\<lparr>id_index := tree, next_id := ?k + 1, id_index_ready := True\<rparr>) (rs @ [(stored_row ?row, off)])"
      "row_id (id_column_index ?t) (stored_row ?row) = Some ?k"
      "\<forall>p. p \<noteq> data_path ?db (ins_table_name stmt) \<longrightarrow> fs' p = fs1 p"
    unfolding nm by blast
  let ?r = "zero_result\<lparr>res_type := RESULT_INSERT, affected_rows := 1, has_generated_id := True, generated_id := ?k\<rparr>"
    and ?t' = "?t\<lparr>id_index := tree, next_id := ?k + 1, id_index_ready := True\<rparr>"
  have "execute_insert ctx stmt fs = (Inr ?r, ctx1\<lparr>tables := (tables ctx1)[i := ?t']\<rparr>, fs')"
    using has nz A auto_id_row [OF T(1,2) has T(3) acc] auto_id_accepts [OF T(1,2) has T(3), of stmt "()"] acc
    by (simp add: execute_insert_def g Let_def)
  moreover have "?k \<notin> set (id_keys (id_column_index ?t) rs)" using rs has nz unfolding table_inv_def by blast
  then have "inserted ctx1 fs1 i stmt ?r (ctx1\<lparr>tables := (tables ctx1)[i := ?t']\<rparr>) fs'"
    unfolding inserted_def Let_def
    by (intro exI [of _ rs] exI [of _ off] exI [of _ ?t']) (use rs I nm has nz in simp)
  ultimately show ?thesis by blast
qed

lemma insert_outcome_plain:
  assumes g: "get_or_load_table_runtime ctx (ins_table_name stmt) fs = (Inr i, ctx1, fs1)"
    and i: "i < length (tables ctx1)" "rt_table_name (tables ctx1 ! i) = ins_table_name stmt" and ok: "stmt_ok stmt"
    and rs: "table_inv fs1 (ctx_db_dir ctx1) (tables ctx1 ! i) rs" and has: "\<not> has_id_column (tables ctx1 ! i)"
    and can: "can_insert (tables ctx1 ! i) stmt"
  shows "\<exists>r ctx' fs'. execute_insert ctx stmt fs = (Inr r, ctx', fs') \<and> inserted ctx1 fs1 i stmt r ctx' fs'"
proof -
  let ?t = "tables ctx1 ! i" and ?db = "ctx_db_dir ctx1"
  let ?row = "inserted_row (rt_schema ?t) stmt 0"
  have T: "distinct (columns (rt_schema ?t))" "''id'' \<notin> set (columns (rt_schema ?t))"
    using rs has by (simp_all add: table_inv_def)
  from insert_plain [OF rs has ok refl, of 0] obtain off fs' where
    A: "append_row_to_table ?db (ins_table_name stmt) ?row fs1 = (Inr (), fs')"
    and I: "table_inv fs' ?db ?t (rs @ [(stored_row ?row, off)])"
      "\<forall>p. p \<noteq> data_path ?db (ins_table_name stmt) \<longrightarrow> fs' p = fs1 p"
    unfolding i(2) by blast
  let ?r = "zero_result\<lparr>res_type := RESULT_INSERT, affected_rows := 1\<rparr>"
  have "execute_insert ctx stmt fs = (Inr ?r, ctx1, fs')"
    using has A plain_row [OF T, of stmt ?row 0] can by (simp add: execute_insert_def g Let_def can_insert_def)
  moreover have "inserted ctx1 fs1 i stmt ?r ctx1 fs'"
    unfolding inserted_def Let_def
    by (intro exI [of _ rs] exI [of _ off] exI [of _ ?t]) (use rs I i has in \<open>simp add: zero_result_def\<close>)
  ultimately show ?thesis by blast
qed

lemma insert_outcome_error:
  assumes g: "get_or_load_table_runtime ctx (ins_table_name stmt) fs = (Inr i, ctx1, fs1)"
    and rs: "table_inv fs1 (ctx_db_dir ctx1) (tables ctx1 ! i) rs" and no: "\<not> can_insert (tables ctx1 ! i) stmt"
  shows "\<exists>e. execute_insert ctx stmt fs = (Inl e, ctx1, fs1)"
proof (cases "has_id_column (tables ctx1 ! i)")
  case True
  with rs have "validate_insert_columns_for_auto_id (tables ctx1 ! i) stmt = Inr () \<longleftrightarrow>
      insert_accepts (rt_schema (tables ctx1 ! i)) stmt"
    by (intro auto_id_accepts) (simp_all add: table_inv_def)
  with True no show ?thesis
    by (cases "validate_insert_columns_for_auto_id (tables ctx1 ! i) stmt")
      (simp_all add: execute_insert_def g Let_def can_insert_def exec_error_def fail_def)
next
  case False
  with rs no plain_row [of "rt_schema (tables ctx1 ! i)" stmt _ 0]
  have "build_insert_row_existing_behavior (rt_schema (tables ctx1 ! i)) stmt \<noteq> Inr row" for row
    by (simp add: table_inv_def can_insert_def)
  then obtain e where "build_insert_row_existing_behavior (rt_schema (tables ctx1 ! i)) stmt = Inl e"
    by (cases "build_insert_row_existing_behavior (rt_schema (tables ctx1 ! i)) stmt") auto
  with False show ?thesis by (simp add: execute_insert_def g Let_def)
qed

lemma execute_insert_outcome:
  assumes inv: "ctx_inv fs ctx" and dok: "data_file_ok fs (ctx_db_dir ctx) (ins_table_name stmt)"
    and ok: "stmt_ok stmt"
    and g: "get_or_load_table_runtime ctx (ins_table_name stmt) fs = (Inr i, ctx1, fs1)"
  shows "\<not> can_insert (tables ctx1 ! i) stmt \<and> (\<exists>e. execute_insert ctx stmt fs = (Inl e, ctx1, fs1)) \<or>
         can_insert (tables ctx1 ! i) stmt \<and>
           (\<exists>r ctx' fs'. execute_insert ctx stmt fs = (Inr r, ctx', fs') \<and> inserted ctx1 fs1 i stmt r ctx' fs')"
proof -
  note L = get_or_load_inv [OF inv dok g]
  have i: "i < length (tables ctx1)" "rt_table_name (tables ctx1 ! i) = ins_table_name stmt" using L(3) by auto
  obtain rs where rs: "table_inv fs1 (ctx_db_dir ctx1) (tables ctx1 ! i) rs"
    using L(1) nth_mem [OF i(1)] unfolding ctx_inv_def by blast
  show ?thesis
    using insert_outcome_auto [OF g i(2) ok rs] insert_outcome_plain [OF g i ok rs] insert_outcome_error [OF g rs] by blast
qed

lemma inserted_inv:
  assumes "ctx_inv fs ctx" "i < length (tables ctx)" "inserted ctx fs i stmt r ctx' fs'"
  shows "ctx_inv fs' ctx'" "ctx_db_dir ctx' = ctx_db_dir ctx"
  using assms ctx_inv_update [OF assms(1,2)] unfolding inserted_def Let_def by auto

lemma execute_insert_inv:
  assumes inv: "ctx_inv fs ctx" and dok: "data_file_ok fs (ctx_db_dir ctx) (ins_table_name stmt)"
    and ok: "stmt_ok stmt" and e: "execute_insert ctx stmt fs = (res, ctx', fs')"
  shows "ctx_inv fs' ctx'" "ctx_db_dir ctx' = ctx_db_dir ctx"
proof -
  obtain g ctx1 fs1 where gl: "get_or_load_table_runtime ctx (ins_table_name stmt) fs = (g, ctx1, fs1)"
    by (cases "get_or_load_table_runtime ctx (ins_table_name stmt) fs") auto
  note L = get_or_load_inv [OF inv dok gl]
  have "ctx_inv fs' ctx' \<and> ctx_db_dir ctx' = ctx_db_dir ctx"
  proof (cases g)
    case (Inl e')
    with e gl L show ?thesis by (simp add: execute_insert_def)
  next
    case (Inr i)
    with execute_insert_outcome [OF inv dok ok gl [unfolded Inr]] e L(1,2,3) inserted_inv [OF L(1)]
    show ?thesis by auto
  qed
  then show "ctx_inv fs' ctx'" "ctx_db_dir ctx' = ctx_db_dir ctx" by blast+
qed

section \<open>SELECT on the context\<close>

lemma execute_select_outcome:
  assumes inv: "ctx_inv fs ctx" and dok: "data_file_ok fs (ctx_db_dir ctx) (sel_table_name stmt)"
    and g: "get_or_load_table_runtime ctx (sel_table_name stmt) fs = (Inr i, ctx1, fs1)"
    and t: "table_inv fs1 (ctx_db_dir ctx1) (tables ctx1 ! i) rs"
  shows "execute_select ctx stmt fs =
    (case validate_select_columns (rt_schema (tables ctx1 ! i)) stmt of
       Inl e \<Rightarrow> (Inl e, ctx1, fs1)
     | Inr u \<Rightarrow>
         (Inr ((select_result (rt_schema (tables ctx1 ! i)) stmt
                  (select_rows (rt_schema (tables ctx1 ! i)) stmt (map fst rs))
                  (can_use_id_index (tables ctx1 ! i) stmt \<noteq> None))
               \<lparr>res_type := RESULT_SELECT,
                affected_rows := length (select_rows (rt_schema (tables ctx1 ! i)) stmt (map fst rs))\<rparr>),
          ctx1, fs1))"
  unfolding execute_select_def g Let_def prod.case sum.case select_table [OF t]
  by (auto simp: select_result_def split: sum.splits)

lemma execute_select_inv:
  assumes inv: "ctx_inv fs ctx" and dok: "data_file_ok fs (ctx_db_dir ctx) (sel_table_name stmt)"
    and e: "execute_select ctx stmt fs = (res, ctx', fs')"
  shows "ctx_inv fs' ctx'" "ctx_db_dir ctx' = ctx_db_dir ctx"
proof -
  obtain g ctx1 fs1 where gl: "get_or_load_table_runtime ctx (sel_table_name stmt) fs = (g, ctx1, fs1)"
    by (cases "get_or_load_table_runtime ctx (sel_table_name stmt) fs") auto
  note L = get_or_load_inv [OF inv dok gl]
  have "ctx' = ctx1 \<and> fs' = fs1"
    using e gl by (auto simp: execute_select_def Let_def split: sum.splits option.splits)
  with L(1,2) show "ctx_inv fs' ctx'" "ctx_db_dir ctx' = ctx_db_dir ctx" by auto
qed

section \<open>Runs of statements\<close>

text \<open>Every data file of the directory is well formed (or missing).\<close>

definition db_ok :: "fs \<Rightarrow> string \<Rightarrow> bool" where
  "db_ok fs db_dir \<longleftrightarrow> (\<forall>t. data_file_ok fs db_dir t)"

lemma db_ok_update:
  assumes "db_ok fs db_dir" "\<forall>p. p \<noteq> data_path db_dir t \<longrightarrow> fs' p = fs p" "data_file_ok fs' db_dir t"
  shows "db_ok fs' db_dir"
  unfolding db_ok_def
proof
  fix t'
  show "data_file_ok fs' db_dir t'"
    using assms by (cases "t' = t") (auto simp: db_ok_def data_file_ok_def data_path_inj)
qed

lemma load_db_ok:
  assumes "db_ok fs db_dir" "load_table_runtime fs db_dir t = (r, fs')"
  shows "db_ok fs' db_dir"
proof -
  have ok: "data_file_ok fs db_dir t" using assms(1) by (simp add: db_ok_def)
  then obtain rs where "table_rows fs db_dir t 0 rs" using data_file_ok_rows by blast
  from ensure_table [OF this] obtain fs1 where e: "ensure_table_data_file db_dir t fs = (Inr (), fs1)"
    "table_rows fs1 db_dir t 0 rs" "\<forall>p. p \<noteq> data_path db_dir t \<longrightarrow> fs1 p = fs p" by blast
  have ok1: "data_file_ok fs1 db_dir t" using e(2) data_file_ok_rows by blast
  have "fs' = fs \<or> fs' = fs1"
    using assms(2) e(1) by (auto simp: load_table_runtime_def Let_def split: sum.splits if_splits prod.splits)
  then show ?thesis using assms(1) db_ok_update [OF assms(1) e(3) ok1] by auto
qed

lemma get_or_load_db_ok:
  assumes "db_ok fs (ctx_db_dir ctx)" "get_or_load_table_runtime ctx t fs = (r, ctx', fs')"
  shows "db_ok fs' (ctx_db_dir ctx)"
  using assms load_db_ok [OF assms(1)]
  by (auto simp: get_or_load_table_runtime_def split: option.splits prod.splits sum.splits)

lemma inserted_db_ok:
  assumes "db_ok fs (ctx_db_dir ctx)" "inserted ctx fs i stmt r ctx' fs'"
  shows "db_ok fs' (ctx_db_dir ctx)"
proof -
  let ?t = "tables ctx ! i"
  obtain rs row off table' where
    t: "table_inv fs' (ctx_db_dir ctx) table' (rs @ [(row, off)])" "rt_table_name table' = rt_table_name ?t"
    and fr: "\<forall>p. p \<noteq> data_path (ctx_db_dir ctx) (rt_table_name ?t) \<longrightarrow> fs' p = fs p"
    using assms(2) unfolding inserted_def Let_def by blast
  have "data_file_ok fs' (ctx_db_dir ctx) (rt_table_name ?t)"
    using t data_file_ok_rows unfolding table_inv_def by metis
  then show ?thesis using db_ok_update [OF assms(1) fr] by blast
qed

definition statement_ok :: "statement \<Rightarrow> bool" where
  "statement_ok stmt = (case stmt of STMT_INSERT s \<Rightarrow> stmt_ok s | STMT_SELECT s \<Rightarrow> True)"

lemma execute_statement_inv:
  assumes inv: "ctx_inv fs ctx" and db: "db_ok fs (ctx_db_dir ctx)" and ok: "statement_ok stmt"
    and e: "execute_statement ctx stmt fs = (res, ctx', fs')"
  shows "ctx_inv fs' ctx'" "ctx_db_dir ctx' = ctx_db_dir ctx" "db_ok fs' (ctx_db_dir ctx)"
proof -
  have dok: "data_file_ok fs (ctx_db_dir ctx) t" for t using db by (simp add: db_ok_def)
  have "ctx_inv fs' ctx' \<and> ctx_db_dir ctx' = ctx_db_dir ctx \<and> db_ok fs' (ctx_db_dir ctx)"
  proof (cases stmt)
    case (STMT_SELECT s)
    obtain g ctx1 fs1 where gl: "get_or_load_table_runtime ctx (sel_table_name s) fs = (g, ctx1, fs1)"
      by (cases "get_or_load_table_runtime ctx (sel_table_name s) fs") auto
    have ex: "execute_select ctx s fs = (res, ctx', fs')" using e STMT_SELECT by (simp add: execute_statement_def)
    then have "fs' = fs1"
      using gl by (auto simp: execute_select_def Let_def split: sum.splits option.splits)
    with execute_select_inv [OF inv dok ex] get_or_load_db_ok [OF db gl] show ?thesis by simp
  next
    case (STMT_INSERT s)
    have sok: "stmt_ok s" using ok STMT_INSERT by (simp add: statement_ok_def)
    have ex: "execute_insert ctx s fs = (res, ctx', fs')" using e STMT_INSERT by (simp add: execute_statement_def)
    obtain g ctx1 fs1 where gl: "get_or_load_table_runtime ctx (ins_table_name s) fs = (g, ctx1, fs1)"
      by (cases "get_or_load_table_runtime ctx (ins_table_name s) fs") auto
    note L = get_or_load_inv [OF inv dok gl]
    have db1: "db_ok fs1 (ctx_db_dir ctx1)" using get_or_load_db_ok [OF db gl] L(2) by simp
    have "db_ok fs' (ctx_db_dir ctx)"
    proof (cases g)
      case (Inl e')
      with ex gl db1 L(2) show ?thesis by (simp add: execute_insert_def)
    next
      case (Inr i)
      from execute_insert_outcome [OF inv dok sok gl [unfolded Inr]] ex
      have "fs' = fs1 \<or> (\<exists>r. inserted ctx1 fs1 i s r ctx' fs')" by auto
      with db1 L(2) inserted_db_ok [OF db1] show ?thesis by auto
    qed
    with execute_insert_inv [OF inv dok sok ex] show ?thesis by simp
  qed
  then show "ctx_inv fs' ctx'" "ctx_db_dir ctx' = ctx_db_dir ctx" "db_ok fs' (ctx_db_dir ctx)" by blast+
qed

text \<open>The states that an engine opened on a directory can reach by executing statements.\<close>

inductive reachable :: "string \<Rightarrow> fs \<Rightarrow> execution_context \<Rightarrow> fs \<Rightarrow> bool" for db_dir fs0 where
  reach_init: "reachable db_dir fs0 (init_execution_context db_dir) fs0"
| reach_step: "reachable db_dir fs0 ctx fs \<Longrightarrow> statement_ok stmt \<Longrightarrow>
     execute_statement ctx stmt fs = (res, ctx', fs') \<Longrightarrow> reachable db_dir fs0 ctx' fs'"

lemma reachable_inv:
  assumes "reachable db_dir fs0 ctx fs" "db_ok fs0 db_dir"
  shows "ctx_inv fs ctx \<and> ctx_db_dir ctx = db_dir \<and> db_ok fs db_dir"
  using assms
proof (induction rule: reachable.induct)
  case reach_init
  then show ?case by (simp add: init_ctx_inv) (simp add: init_execution_context_def)
next
  case (reach_step ctx fs stmt res ctx' fs')
  then show ?case using execute_statement_inv [of fs ctx stmt res ctx' fs'] by auto
qed

section \<open>Statements and the rows that can be read\<close>

lemma get_or_load_rows:
  assumes db: "db_ok fs (ctx_db_dir ctx)" and g: "get_or_load_table_runtime ctx name fs = (r, ctx', fs')"
    and tr: "table_rows fs (ctx_db_dir ctx) t n rs"
  shows "table_rows fs' (ctx_db_dir ctx) t n rs"
proof (cases "table_position (tables ctx) name")
  case (Some i)
  with g tr show ?thesis by (auto simp: get_or_load_table_runtime_def)
next
  case None
  obtain l fs1 where l: "load_table_runtime fs (ctx_db_dir ctx) name = (l, fs1)" by fastforce
  have fs': "fs' = fs1" using g None l by (auto simp: get_or_load_table_runtime_def split: sum.splits)
  have ok: "data_file_ok fs (ctx_db_dir ctx) name" using db by (simp add: db_ok_def)
  obtain rs0 where "table_rows fs (ctx_db_dir ctx) name 0 rs0" using ok data_file_ok_rows by blast
  from ensure_table [OF this] obtain fs2 where
    e: "ensure_table_data_file (ctx_db_dir ctx) name fs = (Inr (), fs2)"
      "\<forall>p. p \<noteq> data_path (ctx_db_dir ctx) name \<longrightarrow> fs2 p = fs p" by blast
  have "fs1 = fs \<or> fs1 = fs2"
    using l e(1) by (auto simp: load_table_runtime_def Let_def split: sum.splits if_splits prod.splits)
  moreover have "table_rows fs2 (ctx_db_dir ctx) t n rs"
  proof (cases "t = name")
    case True
    with ensure_table [OF tr] e(1) show ?thesis by auto
  next
    case False
    then have "fs2 (data_path (ctx_db_dir ctx) t) = fs (data_path (ctx_db_dir ctx) t)"
      using e(2) by (simp add: data_path_inj)
    with tr table_rows_cong show ?thesis by blast
  qed
  ultimately show ?thesis using fs' tr by auto
qed

lemma read_all_rows_iff:
  assumes "db_ok fs db_dir"
  shows "\<exists>rs. table_rows fs db_dir t n rs \<and> read_all_rows_from_table fs db_dir t n = Inr (map fst rs)"
  using assms data_file_ok_rows [of fs db_dir t n] read_all_table unfolding db_ok_def by blast

text \<open>The value of the id column of a row with a canonical id.\<close>

lemma row_value_id: "row_id i row = Some k \<Longrightarrow> row_value row i = print_u64 k"
  by (simp add: row_id_iff row_value_def)

lemma id_values:
  "ids_valid i rs \<Longrightarrow> map (\<lambda>r. row_value r i) (map fst rs) = map print_u64 (id_keys i rs)"
proof (induction rs)
  case (Cons x rs)
  then show ?case by (cases x) (auto simp: id_keys_def row_value_id)
qed (simp add: id_keys_def)

lemma file_rows_lengths: "file_rows n bs off = Some rs \<Longrightarrow> \<forall>(r, o') \<in> set rs. length r = n"
proof (induction n bs off arbitrary: rs rule: file_rows.induct)
  case (1 n bs off)
  from "1.prems" show ?case
  proof (cases rule: file_rows_cases)
    case (Line line rest row rs')
    then have "length row = n"
      by (auto simp: parse_line_into_row_def normalize_field_count_def split: option.splits)
    with "1.IH" [OF Line(1) refl Line(3,5)] Line(4) show ?thesis by auto
  qed simp
qed

lemma table_rows_lengths: "table_rows fs db_dir t n rs \<Longrightarrow> (r, off) \<in> set rs \<Longrightarrow> length r = n"
  using file_rows_lengths by (fastforce simp: table_rows_def split: fs_entry.splits)

text \<open>What a successful INSERT did, seen from the files before and the cache after it.\<close>

lemma insert_successE:
  assumes inv: "ctx_inv fs ctx" and db: "db_ok fs (ctx_db_dir ctx)" and ok: "stmt_ok stmt"
    and ex: "execute_insert ctx stmt fs = (Inr r, ctx', fs')"
  obtains rs row off t where
    "row = stored_row (inserted_row (rt_schema t) stmt (generated_id r))" "insert_accepts (rt_schema t) stmt"
    "t \<in> set (tables ctx')" "rt_table_name t = ins_table_name stmt" "ctx_inv fs' ctx'"
    "ctx_db_dir ctx' = ctx_db_dir ctx" "db_ok fs' (ctx_db_dir ctx)"
    "table_rows fs (ctx_db_dir ctx) (ins_table_name stmt) (column_count (rt_schema t)) rs"
    "table_inv fs' (ctx_db_dir ctx) t (rs @ [(row, off)])"
    "affected_rows r = 1" "has_generated_id r = has_id_column t"
    "has_id_column t \<Longrightarrow> row_id (id_column_index t) row = Some (generated_id r)"
    "has_id_column t \<Longrightarrow> generated_id r \<notin> set (id_keys (id_column_index t) rs)"
proof -
  obtain g ctx1 fs1 where gl: "get_or_load_table_runtime ctx (ins_table_name stmt) fs = (g, ctx1, fs1)"
    by (cases "get_or_load_table_runtime ctx (ins_table_name stmt) fs") auto
  have dok: "data_file_ok fs (ctx_db_dir ctx) (ins_table_name stmt)" using db by (simp add: db_ok_def)
  note L = get_or_load_inv [OF inv dok gl]
  obtain i where g: "g = Inr i" using ex gl by (cases g) (auto simp: execute_insert_def)
  have i: "i < length (tables ctx1)" "rt_table_name (tables ctx1 ! i) = ins_table_name stmt"
    using L(3) g by auto
  from execute_insert_outcome [OF inv dok ok gl [unfolded g]] ex
  have "inserted ctx1 fs1 i stmt r ctx' fs'" and acc: "insert_accepts (rt_schema (tables ctx1 ! i)) stmt"
    by (auto simp: can_insert_def)
  then obtain rs row off t where
    row: "row = stored_row (inserted_row (rt_schema (tables ctx1 ! i)) stmt (generated_id r))"
    and t: "table_inv fs1 (ctx_db_dir ctx1) (tables ctx1 ! i) rs" "table_inv fs' (ctx_db_dir ctx1) t (rs @ [(row, off)])"
    and c: "ctx' = ctx1\<lparr>tables := (tables ctx1)[i := t]\<rparr>" "rt_table_name t = ins_table_name stmt"
      "rt_schema t = rt_schema (tables ctx1 ! i)"
    and r: "affected_rows r = 1" "has_generated_id r = has_id_column (tables ctx1 ! i)"
    and gid: "has_id_column (tables ctx1 ! i) \<Longrightarrow>
        row_id (id_column_index (tables ctx1 ! i)) row = Some (generated_id r) \<and>
        generated_id r \<notin> set (id_keys (id_column_index (tables ctx1 ! i)) rs)"
    unfolding inserted_def Let_def i(2) by blast
  have same: "has_id_column t = has_id_column (tables ctx1 ! i)"
    "id_column_index t = id_column_index (tables ctx1 ! i)"
    using t c(3) by (simp_all add: table_inv_def)
  have tr1: "table_rows fs1 (ctx_db_dir ctx) (ins_table_name stmt) (column_count (rt_schema t)) rs"
    using t(1) c i(2) L(2) by (simp add: table_inv_def)
  obtain rs0 where rs0: "table_rows fs (ctx_db_dir ctx) (ins_table_name stmt) (column_count (rt_schema t)) rs0"
    using dok data_file_ok_rows by blast
  have "rs0 = rs" using table_rows_unique [OF get_or_load_rows [OF db gl rs0] tr1] .
  moreover have "t \<in> set (tables ctx')" using c(1) i(1) by (simp add: set_update_memI)
  moreover have "db_ok fs' (ctx_db_dir ctx)"
    using execute_statement_inv(3) [OF inv db, of "STMT_INSERT stmt"] ok ex
    by (simp add: statement_ok_def execute_statement_def)
  ultimately show thesis
    using c(2,3) execute_insert_inv [OF inv dok ok ex] rs0 t(2) L(2) r gid same row acc
    by (intro that [of row t rs off]) simp_all
qed

lemma insert_reads:
  assumes inv: "ctx_inv fs ctx" and db: "db_ok fs (ctx_db_dir ctx)" and ok: "stmt_ok stmt"
    and ex: "execute_insert ctx stmt fs = (Inr r, ctx', fs')"
  shows "\<exists>table \<in> set (tables ctx'). rt_table_name table = ins_table_name stmt \<and>
    (\<exists>rows row. let n = column_count (rt_schema table) in
      read_all_rows_from_table fs (ctx_db_dir ctx) (ins_table_name stmt) n = Inr rows \<and>
      read_all_rows_from_table fs' (ctx_db_dir ctx) (ins_table_name stmt) n = Inr (rows @ [row]) \<and>
      insert_accepts (rt_schema table) stmt \<and>
      row = stored_row (inserted_row (rt_schema table) stmt (generated_id r)) \<and>
      affected_rows r = 1 \<and> has_generated_id r = has_id_column table \<and>
      (has_id_column table \<longrightarrow> row_value row (id_column_index table) = print_u64 (generated_id r) \<and>
         print_u64 (generated_id r) \<notin> (\<lambda>r. row_value r (id_column_index table)) ` set rows))"
proof -
  obtain rs row off t where mem: "t \<in> set (tables ctx')" and nm: "rt_table_name t = ins_table_name stmt"
    and spec: "insert_accepts (rt_schema t) stmt" "row = stored_row (inserted_row (rt_schema t) stmt (generated_id r))"
    and tr: "table_rows fs (ctx_db_dir ctx) (ins_table_name stmt) (column_count (rt_schema t)) rs"
    and t: "table_inv fs' (ctx_db_dir ctx) t (rs @ [(row, off)])"
    and r: "affected_rows r = 1" "has_generated_id r = has_id_column t"
      "has_id_column t \<Longrightarrow> row_id (id_column_index t) row = Some (generated_id r)"
      "has_id_column t \<Longrightarrow> generated_id r \<notin> set (id_keys (id_column_index t) rs)"
    by (rule insert_successE [OF inv db ok ex]) blast
  let ?n = "column_count (rt_schema t)" and ?i = "id_column_index t"
  have tr': "table_rows fs' (ctx_db_dir ctx) (ins_table_name stmt) ?n (rs @ [(row, off)])"
    using t nm by (simp add: table_inv_def)
  have nin: "print_u64 (generated_id r) \<notin> (\<lambda>r. row_value r ?i) ` set (map fst rs)" if "has_id_column t"
  proof -
    have "ids_valid ?i rs" using table_inv_ids(1) [OF t that] by simp
    then have "(\<lambda>r. row_value r ?i) ` set (map fst rs) = print_u64 ` set (id_keys ?i rs)"
      using id_values by (metis list.set_map)
    with r(4) that show ?thesis by (auto simp: print_u64_inj)
  qed
  have val: "row_value row ?i = print_u64 (generated_id r)" if "has_id_column t"
    using r(3) that row_value_id by auto
  have rb: "read_all_rows_from_table fs' (ctx_db_dir ctx) (ins_table_name stmt) ?n = Inr (map fst rs @ [row])"
    using read_all_table [OF tr'] by simp
  show ?thesis
    unfolding Let_def
    by (intro bexI [OF _ mem] conjI exI [of _ "map fst rs"] exI [of _ row] impI nm
        read_all_table [OF tr] rb spec val nin r(1,2)) simp_all
qed

lemma select_reads:
  assumes inv: "ctx_inv fs ctx" and db: "db_ok fs (ctx_db_dir ctx)"
    and ex: "execute_select ctx stmt fs = (Inr r, ctx', fs')"
  shows "\<exists>table \<in> set (tables ctx'). rt_table_name table = sel_table_name stmt \<and>
    (\<exists>rows. read_all_rows_from_table fs' (ctx_db_dir ctx) (sel_table_name stmt)
              (column_count (rt_schema table)) = Inr rows \<and>
       query_result r = \<lparr>qr_columns = (if select_all stmt then columns (rt_schema table) else sel_columns stmt),
                          qr_rows = select_rows (rt_schema table) stmt rows\<rparr> \<and>
       affected_rows r = length (select_rows (rt_schema table) stmt rows) \<and>
       used_index r = (can_use_id_index table stmt \<noteq> None))"
proof -
  obtain g ctx1 fs1 where gl: "get_or_load_table_runtime ctx (sel_table_name stmt) fs = (g, ctx1, fs1)"
    by (cases "get_or_load_table_runtime ctx (sel_table_name stmt) fs") auto
  have dok: "data_file_ok fs (ctx_db_dir ctx) (sel_table_name stmt)" using db by (simp add: db_ok_def)
  note L = get_or_load_inv [OF inv dok gl]
  obtain i where g: "g = Inr i" using ex gl by (cases g) (auto simp: execute_select_def)
  let ?t = "tables ctx1 ! i"
  have i: "i < length (tables ctx1)" "rt_table_name ?t = sel_table_name stmt" using L(3) g by auto
  obtain rs where t: "table_inv fs1 (ctx_db_dir ctx1) ?t rs"
    using L(1) nth_mem [OF i(1)] unfolding ctx_inv_def by blast
  have ra: "read_all_rows_from_table fs1 (ctx_db_dir ctx) (sel_table_name stmt) (column_count (rt_schema ?t))
      = Inr (map fst rs)"
    using t i(2) L(2) read_all_table by (simp add: table_inv_def)
  from execute_select_outcome [OF inv dok gl [unfolded g] t] ex
  have r: "r = (select_result (rt_schema ?t) stmt (select_rows (rt_schema ?t) stmt (map fst rs))
        (can_use_id_index ?t stmt \<noteq> None))
      \<lparr>res_type := RESULT_SELECT, affected_rows := length (select_rows (rt_schema ?t) stmt (map fst rs))\<rparr>"
    and c: "ctx' = ctx1" "fs' = fs1"
    by (auto split: sum.splits)
  have "?t \<in> set (tables ctx')" using c i(1) by simp
  then show ?thesis
    by (rule bexI [rotated]) (use i(2) ra r c in \<open>auto simp: select_result_def\<close>)
qed

lemma failed_insert_reads:
  assumes inv: "ctx_inv fs ctx" and db: "db_ok fs (ctx_db_dir ctx)" and ok: "stmt_ok stmt"
    and ex: "execute_insert ctx stmt fs = (Inl e, ctx', fs')"
  shows "read_all_rows_from_table fs' (ctx_db_dir ctx) t n = read_all_rows_from_table fs (ctx_db_dir ctx) t n"
proof -
  obtain g ctx1 fs1 where gl: "get_or_load_table_runtime ctx (ins_table_name stmt) fs = (g, ctx1, fs1)"
    by (cases "get_or_load_table_runtime ctx (ins_table_name stmt) fs") auto
  have dok: "data_file_ok fs (ctx_db_dir ctx) (ins_table_name stmt)" using db by (simp add: db_ok_def)
  have "fs' = fs1"
  proof (cases g)
    case (Inl e')
    with ex gl show ?thesis by (simp add: execute_insert_def)
  next
    case (Inr i)
    from execute_insert_outcome [OF inv dok ok gl [unfolded Inr]] ex show ?thesis by auto
  qed
  moreover obtain rs where rs: "table_rows fs (ctx_db_dir ctx) t n rs"
    using db data_file_ok_rows unfolding db_ok_def by blast
  ultimately show ?thesis
    using read_all_table [OF rs] read_all_table [OF get_or_load_rows [OF db gl rs]] by simp
qed

text \<open>Why an INSERT fails: its table cannot be loaded, or it does not fit the table.\<close>

lemma failed_insert_reason:
  assumes inv: "ctx_inv fs ctx" and db: "db_ok fs (ctx_db_dir ctx)" and ok: "stmt_ok stmt"
    and ex: "execute_insert ctx stmt fs = (Inl e, ctx', fs')"
  shows "(\<exists>e'. fst (get_or_load_table_runtime ctx (ins_table_name stmt) fs) = Inl e') \<or>
    (\<exists>table \<in> set (tables ctx'). rt_table_name table = ins_table_name stmt \<and> \<not> can_insert table stmt)"
proof -
  obtain g ctx1 fs1 where gl: "get_or_load_table_runtime ctx (ins_table_name stmt) fs = (g, ctx1, fs1)"
    by (cases "get_or_load_table_runtime ctx (ins_table_name stmt) fs") auto
  have dok: "data_file_ok fs (ctx_db_dir ctx) (ins_table_name stmt)" using db by (simp add: db_ok_def)
  show ?thesis
  proof (cases g)
    case (Inr i)
    note L = get_or_load_inv [OF inv dok gl]
    from Inr L(3) have "i < length (tables ctx1)" "rt_table_name (tables ctx1 ! i) = ins_table_name stmt" by auto
    with execute_insert_outcome [OF inv dok ok gl [unfolded Inr]] ex show ?thesis by auto
  qed (use gl in simp)
qed

lemma cached_table_untouched:
  assumes "sel_table_name stmt \<in> rt_table_name ` set (tables ctx)"
  shows "snd (execute_select ctx stmt fs) = (ctx, fs)"
proof -
  obtain i where "table_position (tables ctx) (sel_table_name stmt) = Some i"
    using assms table_position_None by (metis not_None_eq)
  then show ?thesis
    by (auto simp: execute_select_def get_or_load_table_runtime_def Let_def split: sum.splits option.splits)
qed

lemma preload_caches:
  assumes "runtime_preload_table ctx name fs = (Inr (), ctx1, fs1)"
  shows "name \<in> rt_table_name ` set (tables ctx1)"
proof (cases "table_position (tables ctx) name")
  case (Some i)
  with assms table_position_Some [OF Some] show ?thesis
    by (auto simp: runtime_preload_table_def get_or_load_table_runtime_def)
next
  case None
  obtain table where l: "load_table_runtime fs (ctx_db_dir ctx) name = (Inr table, fs1)"
    and c: "tables ctx1 = tables ctx @ [table]"
    using assms None
    by (auto simp: runtime_preload_table_def get_or_load_table_runtime_def split: sum.splits prod.splits)
  have "rt_table_name table = name"
    using l by (auto simp: load_table_runtime_def Let_def split: sum.splits prod.splits if_splits)
  with c show ?thesis by auto
qed

text \<open>The SELECT that asks for one generated id.\<close>

definition select_by_id :: "string \<Rightarrow> u64 \<Rightarrow> select_statement" where
  "select_by_id table_name k =
     \<lparr>sel_table_name = table_name, select_all = True, sel_columns = [],
      sel_where = \<lparr>has_condition = True, where_column = ''id'',
        where_value = \<lparr>lit_type = VALUE_NUMBER, lit_text = print_u64 k\<rparr>\<rparr>\<rparr>"

lemma project_all: "select_all stmt \<Longrightarrow> length row = column_count schema \<Longrightarrow> project_single_row schema stmt row = row"
  by (intro nth_equalityI) (auto simp: project_single_row_def row_value_def)

lemma cached_position:
  assumes "ctx_inv fs ctx" "t \<in> set (tables ctx)"
  obtains i where "get_or_load_table_runtime ctx (rt_table_name t) fs = (Inr i, ctx, fs)" "tables ctx ! i = t"
proof -
  obtain i where i: "table_position (tables ctx) (rt_table_name t) = Some i"
    using assms(2) table_position_None by (metis image_eqI not_None_eq)
  note P = table_position_Some [OF i]
  have "distinct (map rt_table_name (tables ctx))" using assms(1) by (simp add: ctx_inv_def)
  then have "tables ctx ! i = t"
    using P assms(2) by (metis distinct_map inj_on_eq_iff nth_mem)
  with i that show thesis by (simp add: get_or_load_table_runtime_def)
qed

lemma select_by_id_rows:
  assumes t: "table_inv fs db_dir t (rs @ [(row, off)])" and has: "has_id_column t"
    and id: "row_id (id_column_index t) row = Some k" and new: "k \<notin> set (id_keys (id_column_index t) rs)"
  shows "can_use_id_index t (select_by_id name k) = Some k"
    "validate_select_columns (rt_schema t) (select_by_id name k) = Inr ()"
    "select_rows (rt_schema t) (select_by_id name k) (map fst (rs @ [(row, off)])) = [row]"
proof -
  let ?i = "id_column_index t" and ?s = "select_by_id name k"
  have k: "k \<noteq> 0" using id by (simp add: row_id_iff)
  have T: "ids_valid ?i rs" "id_index_ready t" "''id'' \<in> set (columns (rt_schema t))"
    "?i = schema_find_column_index (rt_schema t) ''id''"
    using table_inv_ids(1) [OF t has] t has by (simp_all add: table_inv_def)
  show c: "can_use_id_index t ?s = Some k"
    using has T(2) k by (simp add: can_use_id_index_def select_by_id_def try_parse_indexable_id_literal_def
        parse_canonical_iff)
  show "validate_select_columns (rt_schema t) ?s = Inr ()"
    using T(3) column_position_neg_iff by (simp add: validate_select_columns_def select_by_id_def schema_find_column_index_def)
  have w: "where_position (rt_schema t) ?s = ?i" using T(4) by (simp add: where_position_def select_by_id_def)
  have "map_of (key_entries (row_id ?i) rs) k = None" using new by (simp add: map_of_eq_None_iff set_id_keys id_entries_key)
  from key_miss [OF this T(1) [unfolded ids_valid_def]] have "filter (row_matches_where_clause ?s ?i) (map fst rs) = []"
    using matches_id [OF c] by (simp add: filter_empty_conv)
  moreover have "length row = column_count (rt_schema t)"
    using table_rows_lengths [OF table_inv_rows [OF t], of row off] by simp
  then have "project_single_row (rt_schema t) ?s row = row" by (intro project_all) (simp add: select_by_id_def)
  ultimately show "select_rows (rt_schema t) ?s (map fst (rs @ [(row, off)])) = [row]"
    using matches_id [OF c] id by (simp add: select_rows_def w)
qed

lemma insert_then_select_by_id:
  assumes inv: "ctx_inv fs ctx" and db: "db_ok fs (ctx_db_dir ctx)" and ok: "stmt_ok stmt"
    and ex: "execute_insert ctx stmt fs = (Inr r, ctx', fs')" and gen: "has_generated_id r"
  shows "\<exists>q row n rows. execute_select ctx' (select_by_id (ins_table_name stmt) (generated_id r)) fs' = (Inr q, ctx', fs') \<and>
     used_index q \<and> affected_rows q = 1 \<and> qr_rows (query_result q) = [row] \<and> length row = n \<and>
     read_all_rows_from_table fs' (ctx_db_dir ctx) (ins_table_name stmt) n = Inr (rows @ [row])"
proof -
  let ?sel = "select_by_id (ins_table_name stmt) (generated_id r)"
  obtain rs row off t where mem: "t \<in> set (tables ctx')" and nm: "rt_table_name t = ins_table_name stmt"
    and inv': "ctx_inv fs' ctx'" and db': "ctx_db_dir ctx' = ctx_db_dir ctx" "db_ok fs' (ctx_db_dir ctx)"
    and t: "table_inv fs' (ctx_db_dir ctx) t (rs @ [(row, off)])"
    and r: "has_generated_id r = has_id_column t"
      "has_id_column t \<Longrightarrow> row_id (id_column_index t) row = Some (generated_id r)"
      "has_id_column t \<Longrightarrow> generated_id r \<notin> set (id_keys (id_column_index t) rs)"
    by (rule insert_successE [OF inv db ok ex]) blast
  have has: "has_id_column t" using r(1) gen by simp
  note S = select_by_id_rows [OF t has r(2) [OF has] r(3) [OF has], of "ins_table_name stmt"]
  obtain i where i: "get_or_load_table_runtime ctx' (sel_table_name ?sel) fs' = (Inr i, ctx', fs')"
    "tables ctx' ! i = t"
    using cached_position [OF inv' mem] nm by (auto simp: select_by_id_def)
  have dok: "data_file_ok fs' (ctx_db_dir ctx') (sel_table_name ?sel)" using db' by (simp add: db_ok_def)
  have "table_inv fs' (ctx_db_dir ctx') (tables ctx' ! i) (rs @ [(row, off)])" using t i(2) db' by simp
  note O = execute_select_outcome [OF inv' dok i(1) this, unfolded i(2) S]
  have tr: "table_rows fs' (ctx_db_dir ctx) (ins_table_name stmt) (column_count (rt_schema t)) (rs @ [(row, off)])"
    using t nm by (simp add: table_inv_def)
  have len: "length row = column_count (rt_schema t)" using table_rows_lengths [OF tr, of row off] by simp
  have ra: "read_all_rows_from_table fs' (ctx_db_dir ctx) (ins_table_name stmt) (column_count (rt_schema t))
      = Inr (map fst rs @ [row])" using read_all_table [OF tr] by simp
  let ?q = "(select_result (rt_schema t) ?sel [row] True)\<lparr>res_type := RESULT_SELECT, affected_rows := 1\<rparr>"
  have "execute_select ctx' ?sel fs' = (Inr ?q, ctx', fs')" using O by simp
  then show ?thesis
    by (intro exI [of _ row] exI [of _ "column_count (rt_schema t)"] exI [of _ "map fst rs"] exI [of _ ?q])
      (simp add: ra len select_result_def)
qed

end
