(* ===== verification/Demo.thy ===== *)
theory Demo
  imports Executor_Correct
begin

text \<open>
  A concrete database on which the theorems about the engine are applied: one directory with one
  table, and two INSERT statements, one accepted and one refused.
\<close>

section \<open>A concrete database\<close>

text \<open>A directory with one table of two rows, used to evaluate the definitions on a concrete input.\<close>

definition demo_fs :: fs where
  "demo_fs = (\<lambda>_. Absent)
     (''db/users.schema'' := File (''id'' @ [LF] @ ''name'' @ [LF]),
      ''db/users.data'' := File (''1|kim'' @ [LF] @ ''7|lee'' @ [LF]))"

definition demo_insert :: insert_statement where
  "demo_insert = \<lparr>ins_table_name = ''users'', ins_columns = [],
     ins_values = [\<lparr>lit_type = VALUE_STRING, lit_text = ''park''\<rparr>]\<rparr>"

definition demo_bad_insert :: insert_statement where
  "demo_bad_insert = demo_insert\<lparr>ins_columns := [''id'']\<rparr>"

definition demo_ctx :: execution_context where
  "demo_ctx = init_execution_context ''db''"

lemma demo_data_path: "data_path ''db'' t = ''db/users.data'' \<longleftrightarrow> t = ''users''"
  using data_path_inj [of "''db''" t "''users''"] by (simp add: data_path_def build_table_path_def)

lemma demo_db_ok: "db_ok demo_fs ''db''"
  unfolding db_ok_def
proof
  fix t
  have s: "data_path ''db'' t \<noteq> ''db/users.schema''"
    using schema_data_paths [of "''db''" "''users''" t] by (simp add: schema_path_def build_table_path_def)
  show "data_file_ok demo_fs ''db'' t"
  proof (cases "t = ''users''")
    case True
    have "data_file_ok demo_fs ''db'' ''users''" by code_simp
    with True show ?thesis by simp
  next
    case False
    with s demo_data_path have "demo_fs (data_path ''db'' t) = Absent" by (simp add: demo_fs_def)
    then show ?thesis by (simp add: data_file_ok_def)
  qed
qed

lemma demo_reachable: "reachable ''db'' demo_fs demo_ctx demo_fs"
  unfolding demo_ctx_def by (rule reach_init)

lemma demo_stmt_ok: "stmt_ok demo_insert" "stmt_ok demo_bad_insert"
  by code_simp+

lemma demo_insert_runs:
  "\<exists>ctx' fs'. execute_insert demo_ctx demo_insert demo_fs =
     (Inr (zero_result\<lparr>affected_rows := 1, has_generated_id := True, generated_id := 8\<rparr>), ctx', fs')"
proof -
  have "fst (execute_insert demo_ctx demo_insert demo_fs) =
      Inr (zero_result\<lparr>affected_rows := 1, has_generated_id := True, generated_id := 8\<rparr>)"
    by code_simp
  then show ?thesis by (metis prod.collapse)
qed

end
