(* ===== verification/Db_Api.thy ===== *)
theory Db_Api
  imports Parser Demo Json_Writer
begin

text \<open>
  The database API of \<^verbatim>\<open>src/db_api.c\<close>: one SQL text in, a JSON response and an HTTP
  status out.  Shown: the response bodies are the JSON texts of their values, every request on a
  reachable engine is answered, what it does to the engine is what the parsed statement does, and
  the HTTP status follows the kind of the error.  The lock around the engine is the subject of
  \<open>Db_Lock\<close>.
\<close>

section \<open>Response bodies\<close>

definition append_size_value :: "json_buffer \<Rightarrow> nat \<Rightarrow> json_buffer" where
  "append_size_value buf n = json_append buf (print_nat n)"

definition append_u64_value :: "json_buffer \<Rightarrow> u64 \<Rightarrow> json_buffer" where
  "append_u64_value buf v = json_append buf (print_u64 v)"

definition append_bool_value :: "json_buffer \<Rightarrow> bool \<Rightarrow> json_buffer" where
  "append_bool_value buf b = json_append buf (if b then ''true'' else ''false'')"

text \<open>The loops over columns and rows: a comma before every element but the first.\<close>

fun append_items :: "(json_buffer \<Rightarrow> 'a \<Rightarrow> json_buffer) \<Rightarrow> bool \<Rightarrow> json_buffer \<Rightarrow> 'a list \<Rightarrow> json_buffer" where
  "append_items item first buf [] = buf"
| "append_items item first buf (x # xs) =
     append_items item False (item (if first then buf else json_append_char buf (CHR '','')) x) xs"

definition append_columns_json :: "json_buffer \<Rightarrow> query_result \<Rightarrow> json_buffer" where
  "append_columns_json buf qr =
     json_append_char
       (append_items json_append_escaped_string True (json_append_char buf (CHR ''['')) (qr_columns qr)) (CHR '']'')"

text \<open>A row has as many values as there are columns; each is printed in turn.\<close>

definition append_row_json :: "nat \<Rightarrow> json_buffer \<Rightarrow> row \<Rightarrow> json_buffer" where
  "append_row_json n buf row =
     json_append_char
       (append_items json_append_escaped_string True (json_append_char buf (CHR ''['')) (take n row)) (CHR '']'')"

definition append_rows_json :: "json_buffer \<Rightarrow> query_result \<Rightarrow> json_buffer" where
  "append_rows_json buf qr =
     json_append_char
       (append_items (append_row_json (length (qr_columns qr))) True (json_append_char buf (CHR ''['')) (qr_rows qr))
       (CHR '']'')"

definition json_key :: "string \<Rightarrow> string" where
  "json_key k = [DQUOTE] @ k @ [DQUOTE] @ '':''"

definition make_success_json :: "exec_result \<Rightarrow> string" where
  "make_success_json r =
     (if res_type r = RESULT_SELECT then
        (let buf = json_append json_buffer_init
               (''{'' @ json_key ''success'' @ ''true,'' @ json_key ''type'' @ [DQUOTE] @ ''select'' @ [DQUOTE] @ '','' @
                json_key ''used_index'');
             buf = append_bool_value buf (used_index r);
             buf = json_append buf ('','' @ json_key ''row_count'');
             buf = append_size_value buf (length (qr_rows (query_result r)));
             buf = json_append buf ('','' @ json_key ''columns'');
             buf = append_columns_json buf (query_result r);
             buf = json_append buf ('','' @ json_key ''rows'');
             buf = append_rows_json buf (query_result r)
         in json_buffer_take (json_append_char buf (CHR ''}'')))
      else
        (let buf = json_append json_buffer_init
               (''{'' @ json_key ''success'' @ ''true,'' @ json_key ''type'' @ [DQUOTE] @ ''insert'' @ [DQUOTE] @ '','' @
                json_key ''affected_rows'');
             buf = append_size_value buf (affected_rows r);
             buf = (if has_generated_id r
                    then append_u64_value (json_append buf ('','' @ json_key ''generated_id'')) (generated_id r)
                    else buf)
         in json_buffer_take (json_append_char buf (CHR ''}''))))"

definition make_error_json :: "string \<Rightarrow> string \<Rightarrow> string" where
  "make_error_json error_code msg =
     (let buf = json_append json_buffer_init (''{'' @ json_key ''success'' @ ''false,'' @ json_key ''error_code'');
          buf = json_append_escaped_string buf error_code;
          buf = json_append buf ('','' @ json_key ''message'');
          buf = json_append_escaped_string buf msg
      in json_buffer_take (json_append_char buf (CHR ''}'')))"

section \<open>Executing one SQL text\<close>

definition map_engine_status :: "status \<Rightarrow> nat \<times> string" where
  "map_engine_status st = (case st of
       STATUS_LEX_ERROR \<Rightarrow> (400, ''SQL_PARSE_ERROR'')
     | STATUS_PARSE_ERROR \<Rightarrow> (400, ''SQL_PARSE_ERROR'')
     | STATUS_SCHEMA_ERROR \<Rightarrow> (400, ''SCHEMA_ERROR'')
     | STATUS_EXEC_ERROR \<Rightarrow> (400, ''EXECUTION_ERROR'')
     | STATUS_STORAGE_ERROR \<Rightarrow> (500, ''STORAGE_ERROR'')
     | STATUS_INDEX_ERROR \<Rightarrow> (500, ''INDEX_ERROR'')
     | _ \<Rightarrow> (500, ''INTERNAL_ERROR''))"

record api_response =
  resp_status :: status
  resp_http :: nat
  resp_json :: string

definition error_response :: "status \<Rightarrow> nat \<Rightarrow> string \<Rightarrow> string \<Rightarrow> api_response" where
  "error_response st http error_code msg =
     \<lparr>resp_status = st, resp_http = http, resp_json = make_error_json error_code msg\<rparr>"

text \<open>\<^verbatim>\<open>trim_whitespace\<close> of \<^verbatim>\<open>src/utils.c\<close>.\<close>

definition trim_whitespace :: "string \<Rightarrow> string" where
  "trim_whitespace s =
     (case dropWhile isspace (cstr s) of
        [] \<Rightarrow> []
      | c # cs \<Rightarrow> c # rev (dropWhile isspace (rev cs)))"

text \<open>The message of a failing module, or a default when it left none.\<close>

definition message_or :: "string \<Rightarrow> string \<Rightarrow> string" where
  "message_or errbuf default_msg = (if errbuf \<noteq> [] then errbuf else default_msg)"

definition empty_query :: api_response where
  "empty_query = error_response STATUS_INVALID_ARGS 400 ''EMPTY_QUERY'' ''sql query is empty''"

text \<open>
  Everything before the first lock: the statement, or the response that refuses the text.  A parser
  failure always carries a status and a message.
\<close>

fun parse_failure :: "string \<Rightarrow> failure \<Rightarrow> api_response" where
  "parse_failure default_msg (Failure st m) = error_response st 400 ''SQL_PARSE_ERROR'' (message_or m default_msg)"
| "parse_failure default_msg Diverges = error_response STATUS_EXEC_ERROR 400 ''SQL_PARSE_ERROR'' default_msg"

definition db_api_parse :: "string \<Rightarrow> api_response + statement" where
  "db_api_parse sql =
     (let trimmed_sql = trim_whitespace sql in
      if trimmed_sql = [] then Inl empty_query
      else case tokenize_sql trimmed_sql of
        Inl e \<Rightarrow> Inl (parse_failure ''failed to tokenize sql'' e)
      | Inr toks \<Rightarrow>
          (let cursor = skip_semicolon_tokens toks 0 in
           if cursor \<ge> length toks \<or> tok_type (toks ! cursor) = TOKEN_EOF then Inl empty_query
           else if tok_type (toks ! cursor) \<noteq> TOKEN_SELECT \<and> tok_type (toks ! cursor) \<noteq> TOKEN_INSERT then
             Inl (error_response STATUS_INVALID_ARGS 400 ''UNSUPPORTED_QUERY'' ''only SELECT and INSERT are supported'')
           else case parse_next_statement toks cursor of
             (Inl e, _) \<Rightarrow> Inl (parse_failure ''failed to parse sql statement'' e)
           | (Inr stmt, cursor) \<Rightarrow>
               (let cursor = skip_semicolon_tokens toks cursor in
                if cursor \<ge> length toks \<or> tok_type (toks ! cursor) \<noteq> TOKEN_EOF then
                  Inl (error_response STATUS_INVALID_ARGS 400 ''MULTI_STATEMENT_NOT_ALLOWED''
                        ''only one SQL statement is allowed'')
                else Inr stmt)))"

text \<open>The response to a failure of the engine; a diverging engine gives none.\<close>

fun engine_failure :: "string \<Rightarrow> failure \<Rightarrow> api_response option" where
  "engine_failure default_msg (Failure st m) =
     (let (http, error_code) = map_engine_status st
      in Some (error_response st http error_code (message_or m default_msg)))"
| "engine_failure default_msg Diverges = None"

definition engine_response :: "exec_result result \<Rightarrow> api_response option" where
  "engine_response res =
     (case res of
        Inl e \<Rightarrow> engine_failure ''sql execution failed'' e
      | Inr r \<Rightarrow> Some \<lparr>resp_status = STATUS_OK, resp_http = 200, resp_json = make_success_json r\<rparr>)"

definition make_lock_error :: api_response where
  "make_lock_error = error_response STATUS_EXEC_ERROR 500 ''INTERNAL_ERROR'' ''failed to acquire database lock''"

text \<open>
  \<^verbatim>\<open>db_api_execute_sql\<close> without interference by other threads.  The two flags say whether
  the first and the second acquisition of the lock succeed.
\<close>

definition db_api_execute_sql ::
  "bool \<Rightarrow> bool \<Rightarrow> execution_context \<Rightarrow> string \<Rightarrow> fs \<Rightarrow> api_response option \<times> execution_context \<times> fs" where
  "db_api_execute_sql lock1 lock2 ctx sql fs =
     (case db_api_parse sql of
        Inl resp \<Rightarrow> (Some resp, ctx, fs)
      | Inr (STMT_SELECT s) \<Rightarrow>
          if \<not> lock1 then (Some make_lock_error, ctx, fs)
          else (case runtime_preload_table ctx (sel_table_name s) fs of
                  (Inl e, ctx1, fs1) \<Rightarrow> (engine_failure ''failed to preload table runtime'' e, ctx1, fs1)
                | (Inr _, ctx1, fs1) \<Rightarrow>
                    if \<not> lock2 then (Some make_lock_error, ctx1, fs1)
                    else (case execute_statement ctx1 (STMT_SELECT s) fs1 of
                            (res, ctx2, fs2) \<Rightarrow> (engine_response res, ctx2, fs2)))
      | Inr (STMT_INSERT s) \<Rightarrow>
          if \<not> lock1 then (Some make_lock_error, ctx, fs)
          else (case execute_statement ctx (STMT_INSERT s) fs of
                  (res, ctx1, fs1) \<Rightarrow> (engine_response res, ctx1, fs1)))"

text \<open>
  The engine of the API, absent before \<^verbatim>\<open>db_api_init\<close>, which fails if the lock cannot be
  initialised, and after \<^verbatim>\<open>db_api_destroy\<close>, which returns the freed nodes of the indexes.
\<close>

definition db_api_init :: "bool \<Rightarrow> string \<Rightarrow> execution_context option" where
  "db_api_init lock_init db_dir = (if lock_init then Some (init_execution_context db_dir) else None)"

fun db_api_destroy :: "execution_context option \<Rightarrow> (addr list list \<times> execution_context option) result" where
  "db_api_destroy None = Inr ([], None)"
| "db_api_destroy (Some ctx) =
     (case free_execution_context ctx of Inl e \<Rightarrow> Inl e | Inr (freed, _) \<Rightarrow> Inr (freed, None))"

section \<open>Response bodies are JSON texts\<close>

datatype json =
    Jstring string
  | Jnumber nat
  | Jbool bool
  | Jarray "json list"
  | Jobject "(string \<times> json) list"

definition separated :: "string list \<Rightarrow> string" where
  "separated xs = (case xs of [] \<Rightarrow> [] | y # ys \<Rightarrow> y @ concat (map (\<lambda>z. '','' @ z) ys))"

fun json_text :: "json \<Rightarrow> string" where
  "json_text (Jstring s) = json_string_text s"
| "json_text (Jnumber n) = print_nat n"
| "json_text (Jbool b) = (if b then ''true'' else ''false'')"
| "json_text (Jarray vs) = ''['' @ separated (map json_text vs) @ '']''"
| "json_text (Jobject kvs) =
     ''{'' @ separated (map (\<lambda>(k, v). json_string_text k @ '':'' @ json_text v) kvs) @ ''}''"

definition string_array :: "string list \<Rightarrow> json" where
  "string_array xs = Jarray (map (\<lambda>x. Jstring (cstr x)) xs)"

text \<open>The value of a successful response.\<close>

definition success_value :: "exec_result \<Rightarrow> json" where
  "success_value r =
     (if res_type r = RESULT_SELECT then
        Jobject [(''success'', Jbool True), (''type'', Jstring ''select''), (''used_index'', Jbool (used_index r)),
          (''row_count'', Jnumber (length (qr_rows (query_result r)))),
          (''columns'', string_array (qr_columns (query_result r))),
          (''rows'', Jarray (map (\<lambda>row. string_array (take (length (qr_columns (query_result r))) row))
                              (qr_rows (query_result r))))]
      else
        Jobject ([(''success'', Jbool True), (''type'', Jstring ''insert''), (''affected_rows'', Jnumber (affected_rows r))] @
          (if has_generated_id r then [(''generated_id'', Jnumber (unat (generated_id r)))] else [])))"

definition error_value :: "string \<Rightarrow> string \<Rightarrow> json" where
  "error_value error_code msg =
     Jobject [(''success'', Jbool False), (''error_code'', Jstring (cstr error_code)), (''message'', Jstring (cstr msg))]"

text \<open>A text without quotes, backslashes and control characters stands for itself.\<close>

definition plain :: "string \<Rightarrow> bool" where
  "plain s \<longleftrightarrow> list_all (\<lambda>c. 32 \<le> code c \<and> c \<noteq> DQUOTE \<and> c \<noteq> BSLASH) s"

lemma plain_text:
  assumes "plain s"
  shows "json_string_text s = [DQUOTE] @ s @ [DQUOTE]"
proof -
  have ctl: "code LF = 10" "code CR = 13" "code TAB = 9" by (simp_all add: code_def LF_def CR_def TAB_def)
  have "escape_json_char c = [c]" if "32 \<le> code c" "c \<noteq> DQUOTE" "c \<noteq> BSLASH" for c
  proof -
    have "c \<noteq> LF" "c \<noteq> CR" "c \<noteq> TAB" using that(1) ctl by auto
    with that show ?thesis by (simp add: escape_json_char_def)
  qed
  with assms have "escape_json s = s"
    unfolding plain_def by (induction s) (simp_all add: escape_json_def)
  then show ?thesis by (simp add: json_string_text_def)
qed

lemma plain_names:
  "plain ''success''" "plain ''type''" "plain ''select''" "plain ''insert''" "plain ''used_index''" "plain ''row_count''"
  "plain ''columns''" "plain ''rows''" "plain ''affected_rows''" "plain ''generated_id''" "plain ''error_code''" "plain ''message''"
  by (simp_all add: plain_def DQUOTE_def BSLASH_def code_def)

lemmas name_texts = plain_names [THEN plain_text]

lemma plain_no_nul: "no_nul s \<Longrightarrow> cstr (json_key s @ t) = json_key s @ cstr t"
  by (simp add: json_key_def cstr_def DQUOTE_def NUL_def no_nul_def takeWhile_append)

lemma append_items_data:
  assumes "\<And>buf x. jb_data (item buf x) = jb_data buf @ f x"
  shows "jb_data (append_items item first buf xs) =
    jb_data buf @ (if first then separated (map f xs) else concat (map (\<lambda>z. '','' @ f z) xs))"
proof (induction xs arbitrary: first buf)
  case (Cons x xs)
  then show ?case by (cases first) (simp_all add: assms separated_def o_def)
qed (simp add: separated_def)

lemma columns_data: "jb_data (append_columns_json buf qr) = jb_data buf @ json_text (string_array (qr_columns qr))"
  by (simp add: append_columns_json_def append_items_data [where f = "\<lambda>x. json_string_text (cstr x)"] string_array_def o_def)

lemma row_data: "jb_data (append_row_json n buf row) = jb_data buf @ json_text (string_array (take n row))"
  by (simp add: append_row_json_def append_items_data [where f = "\<lambda>x. json_string_text (cstr x)"] string_array_def o_def)

lemma rows_data:
  "jb_data (append_rows_json buf qr) =
     jb_data buf @ json_text (Jarray (map (\<lambda>row. string_array (take (length (qr_columns qr)) row)) (qr_rows qr)))"
  by (simp add: append_rows_json_def o_def
      append_items_data [where f = "\<lambda>row. json_text (string_array (take (length (qr_columns qr)) row))", OF row_data])

lemma no_nul_json_key: "no_nul k \<Longrightarrow> no_nul (json_key k)"
  by (simp add: json_key_def DQUOTE_def NUL_def)

lemma value_data:
  "jb_data (append_size_value buf n) = jb_data buf @ print_nat n"
  "jb_data (append_u64_value buf v) = jb_data buf @ print_nat (unat v)"
  "jb_data (append_bool_value buf b) = jb_data buf @ json_text (Jbool b)"
  using digits_no_nul [of v]
  by (simp_all add: append_size_value_def append_u64_value_def append_bool_value_def no_nul_print_nat print_u64_def NUL_def)

lemma error_json: "make_error_json error_code msg = json_text (error_value error_code msg)"
proof -
  have "no_nul (''{'' @ json_key ''success'' @ ''false,'' @ json_key ''error_code'')" "no_nul ('','' @ json_key ''message'')"
    by (simp_all add: json_key_def DQUOTE_def NUL_def)
  then show ?thesis
    by (simp add: make_error_json_def error_value_def json_buffer_take_def name_texts separated_def json_key_def)
qed

lemma success_json: "make_success_json r = json_text (success_value r)"
proof -
  have "no_nul (''{'' @ json_key ''success'' @ ''true,'' @ json_key ''type'' @ [DQUOTE] @ ''select'' @ [DQUOTE] @ '','' @ json_key ''used_index'')"
    "no_nul (''{'' @ json_key ''success'' @ ''true,'' @ json_key ''type'' @ [DQUOTE] @ ''insert'' @ [DQUOTE] @ '','' @ json_key ''affected_rows'')"
    "no_nul ('','' @ json_key ''row_count'')" "no_nul ('','' @ json_key ''columns'')" "no_nul ('','' @ json_key ''rows'')"
    "no_nul ('','' @ json_key ''generated_id'')"
    by (simp_all add: json_key_def DQUOTE_def NUL_def)
  then show ?thesis
    by (simp add: make_success_json_def success_value_def json_buffer_take_def name_texts separated_def json_key_def
        columns_data rows_data value_data Let_def)
qed

section \<open>Accepted texts\<close>

lemma skip_idem:
  "parser_skip_semicolons \<lparr>tokens = toks, current = skip_semicolon_tokens toks c\<rparr> =
   parser_skip_semicolons \<lparr>tokens = toks, current = c\<rparr>"
proof -
  let ?q = "parser_skip_semicolons \<lparr>tokens = toks, current = c\<rparr>"
  obtain m where m: "reads \<lparr>tokens = toks, current = c\<rparr> (semis m) ?q" "\<not> looks ?q TOKEN_SEMICOLON"
    using skip_exists by blast
  then have "tokens ?q = toks" by (simp add: reads_def)
  then have "\<lparr>tokens = toks, current = skip_semicolon_tokens toks c\<rparr> = ?q" unfolding skip_tokens by (cases ?q) simp
  with m(2) show ?thesis by (simp add: skip_stop)
qed

lemma parse_next_from_skip:
  assumes "skip_semicolon_tokens toks c < length toks" "c < length toks"
  shows "parse_next_statement toks (skip_semicolon_tokens toks c) = (Inr st, c') \<longleftrightarrow>
    parse_next_statement toks c = (Inr st, c')"
  using assms
  by (auto simp: parse_next_statement_def skip_idem Let_def parse_error_def split: sum.splits)

lemma parse_next_keyword:
  assumes "parse_next_statement toks c = (Inr st, c')"
  shows "skip_semicolon_tokens toks c < length toks \<and>
    tok_type (toks ! skip_semicolon_tokens toks c) \<in> {TOKEN_SELECT, TOKEN_INSERT}"
proof -
  let ?q = "parser_skip_semicolons \<lparr>tokens = toks, current = c\<rparr>"
  obtain q where "reads ?q (statement_symbols st) q"
    using assms unfolding next_statement_iff reads_append
    by (metis reads_statement_looks skip_reads)
  then have l: "looks ?q TOKEN_SELECT \<or> looks ?q TOKEN_INSERT"
    using symbols_start [of st] reads_looks [of ?q _ _ q] by (cases st) force+
  have "tokens ?q = toks" using skip_exists [of "\<lparr>tokens = toks, current = c\<rparr>"] by (auto simp: reads_def)
  with l show ?thesis
    by (auto simp: looks_def parser_peek_def token_at_def skip_tokens EOF_TOKEN_def split: if_splits)
qed

lemma empty_not_parsed: "parse_statement [EOF_TOKEN] \<noteq> Inr st"
  using statement_iff [of "[]" st] symbols_start [of st] by (auto simp: no_eof_def)

lemma api_parse_iff:
  "db_api_parse sql = Inr st \<longleftrightarrow>
     (\<exists>toks. tokenize_sql (trim_whitespace sql) = Inr toks \<and> parse_statement toks = Inr st)"
proof (cases "trim_whitespace sql = []")
  case True
  then show ?thesis using empty_not_parsed
    by (auto simp: db_api_parse_def tokenize_sql_def cstr_def Let_def)
next
  case False
  show ?thesis
  proof (cases "tokenize_sql (trim_whitespace sql)")
    case (Inr toks)
    then have ne: "0 < length toks"
      using tokenize_loop_ok [of "cstr (trim_whitespace sql)" "[]" toks] by (auto simp: tokenize_sql_def)
    let ?c = "skip_semicolon_tokens toks 0"
    have "db_api_parse sql = Inr st \<longleftrightarrow>
        (?c < length toks \<and> tok_type (toks ! ?c) \<in> {TOKEN_SELECT, TOKEN_INSERT} \<and>
         (\<exists>c'. parse_next_statement toks ?c = (Inr st, c') \<and>
            (let c = skip_semicolon_tokens toks c' in c < length toks \<and> tok_type (toks ! c) = TOKEN_EOF)))"
      using False Inr
      by (auto simp: db_api_parse_def Let_def split: sum.splits prod.splits)
    also have "\<dots> \<longleftrightarrow> (\<exists>c'. parse_next_statement toks 0 = (Inr st, c') \<and>
            (let c = skip_semicolon_tokens toks c' in c < length toks \<and> tok_type (toks ! c) = TOKEN_EOF))"
      using parse_next_from_skip [of toks 0 st] parse_next_keyword [of toks 0 st] ne by blast
    also have "\<dots> \<longleftrightarrow> parse_statement toks = Inr st"
      by (auto simp: parse_statement_def Let_def parse_error_def not_le split: prod.splits sum.splits)
    finally show ?thesis using Inr by simp
  qed (use False in \<open>simp add: db_api_parse_def Let_def\<close>)
qed

text \<open>The one statement that a text is, with white space and semicolons around it.\<close>

definition sql_statement :: "string \<Rightarrow> statement option" where
  "sql_statement sql =
     (case tokenize_sql (trim_whitespace sql) of
        Inl _ \<Rightarrow> None
      | Inr toks \<Rightarrow> (case parse_statement toks of Inl _ \<Rightarrow> None | Inr st \<Rightarrow> Some st))"

lemma sql_statement_parse:
  "sql_statement sql = (case db_api_parse sql of Inl _ \<Rightarrow> None | Inr st \<Rightarrow> Some st)"
proof (cases "db_api_parse sql")
  case (Inl r)
  then have "\<not> (\<exists>st. db_api_parse sql = Inr st)" by simp
  then show ?thesis using Inl unfolding api_parse_iff by (auto simp: sql_statement_def split: sum.splits)
next
  case (Inr st)
  then show ?thesis using api_parse_iff [of sql st] by (auto simp: sql_statement_def)
qed

section \<open>Parsed statements satisfy what the executor expects\<close>

lemma set_comma_list: "set xs \<subseteq> set (comma_list xs)"
  by (induction xs rule: comma_list.induct) auto

lemma token_ok_lit: "token_ok (lit v) \<Longrightarrow> no_nul (lit_text v)"
  by (auto simp: token_ok_def lit_def no_nul_number split: value_type.splits)

lemma sql_ok_statement_ok:
  assumes "sql_ok st"
  shows "statement_ok st"
proof (cases st)
  case (STMT_INSERT i)
  have "token_ok (lit v)" if "v \<in> set (ins_values i)" for v
  proof -
    have "lit v \<in> set (comma_list (map lit (ins_values i)))" using that set_comma_list by fastforce
    then have "lit v \<in> set (statement_symbols st)" by (simp add: STMT_INSERT value_symbols_def)
    moreover have "has_text (tok_type (lit v))" by (simp add: lit_def has_text_def split: value_type.split)
    ultimately show ?thesis using assms by (auto simp: sql_ok_def list_all_iff)
  qed
  then show ?thesis by (simp add: STMT_INSERT statement_ok_def stmt_ok_def list_all_iff token_ok_lit)
qed (simp add: statement_ok_def)

lemma parsed_ok:
  assumes "tokenize_sql sql = Inr toks" "parse_statement toks = Inr st"
  shows "sql_ok st"
proof -
  obtain ts where ts: "toks = ts @ [EOF_TOKEN]" "list_all token_ok ts"
    using tokenize_loop_ok [of "cstr sql" "[]" toks] assms(1) by (auto simp: tokenize_sql_def)
  from assms(2) obtain c where "parse_next_statement toks 0 = (Inr st, c)"
    by (auto simp: parse_statement_def Let_def parse_error_def split: prod.splits sum.splits if_splits)
  with lexed_statement_ok [OF ts(2)] ts(1) show ?thesis by blast
qed

section \<open>Failures of the engine\<close>

text \<open>A result that is a value or a failure with one of the given statuses.\<close>

definition failure_in :: "status set \<Rightarrow> failure \<Rightarrow> bool" where
  "failure_in S e \<longleftrightarrow> (\<exists>st m. e = Failure st m \<and> st \<in> S)"

definition fails_with :: "status set \<Rightarrow> 'a result \<Rightarrow> bool" where
  "fails_with S r \<longleftrightarrow> (\<forall>e. r = Inl e \<longrightarrow> failure_in S e)"

lemma fails_with_simps [simp]: "fails_with S (Inr x)" "fails_with S (fail st m) \<longleftrightarrow> st \<in> S"
  "fails_with S (Inl e) \<longleftrightarrow> failure_in S e" "failure_in S (Failure st m) \<longleftrightarrow> st \<in> S"
  "fails_with {STATUS_EXEC_ERROR} (exec_error m)"
  by (auto simp: fails_with_def failure_in_def fail_def exec_error_def)

lemma load_fails: "fails_with {STATUS_SCHEMA_ERROR, STATUS_STORAGE_ERROR, STATUS_INDEX_ERROR} (fst (get_or_load_table_runtime ctx name fs))"
  by (auto simp: get_or_load_table_runtime_def load_table_runtime_def Let_def split: option.split sum.split prod.split)

lemma translate_load: "\<exists>m'. translate_load_status (Failure st m) = Failure st m'"
  by (cases st) (simp_all add: translate_load_status_def)

lemma place_values_fails: "fails_with {STATUS_EXEC_ERROR} (place_values schema cs vs seen row)"
  by (induction schema cs vs seen row rule: place_values.induct) (simp_all add: Let_def)

lemma check_columns_fails: "fails_with {STATUS_EXEC_ERROR} (check_columns schema idc cs seen)"
  by (induction schema idc cs seen rule: check_columns.induct) (simp_all add: Let_def)

lemma assign_columns_fails: "fails_with {STATUS_EXEC_ERROR} (assign_columns schema idc cs vs row)"
  by (induction schema idc cs vs row rule: assign_columns.induct) (simp_all add: Let_def)

lemma executor_fails:
  "fails_with {STATUS_EXEC_ERROR} (validate_select_columns schema s)"
  "fails_with {STATUS_EXEC_ERROR} (validate_insert_columns_for_auto_id table i)"
  "fails_with {STATUS_EXEC_ERROR} (build_insert_row_existing_behavior schema i)"
  "fails_with {STATUS_EXEC_ERROR} (build_insert_row_with_generated_id table i k)"
  by (simp_all add: validate_select_columns_def validate_insert_columns_for_auto_id_def
      build_insert_row_existing_behavior_def build_insert_row_with_generated_id_def Let_def
      place_values_fails check_columns_fails assign_columns_fails split: option.split)

definition engine_errors :: "status set" where
  "engine_errors = {STATUS_SCHEMA_ERROR, STATUS_STORAGE_ERROR, STATUS_INDEX_ERROR, STATUS_EXEC_ERROR}"

lemma exec_in_engine_errors: "failure_in {STATUS_EXEC_ERROR} e \<Longrightarrow> failure_in engine_errors e"
  by (auto simp: failure_in_def engine_errors_def)

lemma load_failure:
  assumes "get_or_load_table_runtime ctx name fs = (Inl e, ctx1, fs1)"
  obtains st m m' where "e = Failure st m" "translate_load_status e = Failure st m'" "st \<in> engine_errors"
proof -
  from load_fails [of ctx name fs] assms obtain st m where "e = Failure st m" "st \<in> engine_errors"
    by (auto simp: failure_in_def engine_errors_def)
  moreover obtain m' where "translate_load_status (Failure st m) = Failure st m'" using translate_load by blast
  ultimately show thesis using that by blast
qed

lemma cached_table_inv:
  assumes "ctx_inv fs ctx" "data_file_ok fs (ctx_db_dir ctx) name"
    and "get_or_load_table_runtime ctx name fs = (Inr i, ctx1, fs1)"
  obtains rs where "table_inv fs1 (ctx_db_dir ctx1) (tables ctx1 ! i) rs" "rt_table_name (tables ctx1 ! i) = name"
  using get_or_load_inv [OF assms] nth_mem [of i "tables ctx1"] that unfolding ctx_inv_def by blast

lemma execute_select_fails:
  assumes "ctx_inv fs ctx" "data_file_ok fs (ctx_db_dir ctx) (sel_table_name s)"
  shows "fails_with engine_errors (fst (execute_select ctx s fs))"
proof -
  obtain g ctx1 fs1 where gl: "get_or_load_table_runtime ctx (sel_table_name s) fs = (g, ctx1, fs1)"
    by (metis prod_cases3)
  show ?thesis
  proof (cases g)
    case (Inl e)
    with gl show ?thesis by (auto simp: execute_select_def elim: load_failure)
  next
    case (Inr i)
    note g = gl [unfolded Inr]
    from cached_table_inv [OF assms g] obtain rs where "table_inv fs1 (ctx_db_dir ctx1) (tables ctx1 ! i) rs" .
    from execute_select_outcome [OF assms g this] executor_fails(1) [of "rt_schema (tables ctx1 ! i)" s] show ?thesis
      by (auto simp: exec_in_engine_errors split: sum.split)
  qed
qed

lemma execute_insert_fails:
  assumes "ctx_inv fs ctx" "data_file_ok fs (ctx_db_dir ctx) (ins_table_name s)" and ok: "stmt_ok s"
  shows "fails_with engine_errors (fst (execute_insert ctx s fs))"
proof -
  obtain g ctx1 fs1 where gl: "get_or_load_table_runtime ctx (ins_table_name s) fs = (g, ctx1, fs1)"
    by (metis prod_cases3)
  show ?thesis
  proof (cases g)
    case (Inl e)
    with gl show ?thesis by (auto simp: execute_insert_def elim: load_failure)
  next
    case (Inr i)
    let ?t = "tables ctx1 ! i"
    note g = gl [unfolded Inr]
    from cached_table_inv [OF assms(1,2) g] obtain rs where
      t: "table_inv fs1 (ctx_db_dir ctx1) ?t rs" and n: "rt_table_name ?t = ins_table_name s" .
    note D = execute_insert_def g Let_def
    have x: "failure_in engine_errors e" if "r = Inl e" "fails_with {STATUS_EXEC_ERROR} r" for r :: "'b result" and e
      using that by (auto simp: exec_in_engine_errors)
    show ?thesis
    proof (cases "can_insert ?t s")
      case True
      with execute_insert_outcome [OF assms(1,2) ok g] show ?thesis by auto
    next
      case no: False
      show ?thesis
      proof (cases "has_id_column ?t")
        case True
        show ?thesis
        proof (cases "validate_insert_columns_for_auto_id ?t s")
          case (Inl e)
          with True x [OF Inl executor_fails(2)] show ?thesis by (simp add: D)
        next
          case (Inr u)
          with True no t auto_id_accepts [of ?t s u] have "next_id ?t = 0" by (auto simp: table_inv_def can_insert_def)
          with True Inr show ?thesis by (simp add: D exec_error_def engine_errors_def)
        qed
      next
        case False
        with t no plain_row [of "rt_schema ?t" s _ 0] obtain e where
          b: "build_insert_row_existing_behavior (rt_schema ?t) s = Inl e"
          by (cases "build_insert_row_existing_behavior (rt_schema ?t) s") (auto simp: table_inv_def can_insert_def)
        with False x [OF b executor_fails(3)] show ?thesis by (simp add: D)
      qed
    qed
  qed
qed

lemma execute_statement_fails:
  assumes "ctx_inv fs ctx" "db_ok fs (ctx_db_dir ctx)" "statement_ok st"
  shows "fails_with engine_errors (fst (execute_statement ctx st fs))"
  using assms execute_select_fails execute_insert_fails
  by (cases st) (auto simp: execute_statement_def statement_ok_def db_ok_def)

section \<open>Preloading does not change what a SELECT does\<close>

lemma table_position_append:
  "table_position ts name = None \<Longrightarrow> rt_table_name t = name \<Longrightarrow> table_position (ts @ [t]) name = Some (length ts)"
  by (induction ts) (auto split: if_splits)

lemma load_table_name: "load_table_runtime fs db_dir name = (Inr table, fs1) \<Longrightarrow> rt_table_name table = name"
  by (auto simp: load_table_runtime_def Let_def split: sum.splits prod.splits if_splits)

lemma get_or_load_again:
  assumes "get_or_load_table_runtime ctx name fs = (Inr i, ctx1, fs1)"
  shows "get_or_load_table_runtime ctx1 name fs1 = (Inr i, ctx1, fs1)"
proof (cases "table_position (tables ctx) name")
  case None
  then obtain table where "load_table_runtime fs (ctx_db_dir ctx) name = (Inr table, fs1)"
    and t: "tables ctx1 = tables ctx @ [table]" "i = length (tables ctx)"
    using assms by (auto simp: get_or_load_table_runtime_def split: sum.splits prod.splits)
  with table_position_append [OF None load_table_name] show ?thesis
    by (simp add: get_or_load_table_runtime_def)
qed (use assms in \<open>auto simp: get_or_load_table_runtime_def\<close>)

lemma preload_cases:
  "runtime_preload_table ctx name fs =
     (case get_or_load_table_runtime ctx name fs of
        (Inl e, ctx1, fs1) \<Rightarrow> (Inl e, ctx1, fs1) | (Inr i, ctx1, fs1) \<Rightarrow> (Inr (), ctx1, fs1))"
  by (simp add: runtime_preload_table_def split: prod.split sum.split)

lemma preload_execute:
  assumes "runtime_preload_table ctx (sel_table_name s) fs = (Inr (), ctx1, fs1)"
  shows "execute_select ctx1 s fs1 = execute_select ctx s fs"
proof -
  obtain i where "get_or_load_table_runtime ctx (sel_table_name s) fs = (Inr i, ctx1, fs1)"
    using assms by (auto simp: preload_cases split: prod.splits sum.splits)
  with get_or_load_again [OF this] show ?thesis by (simp add: execute_select_def)
qed

lemma preload_fails:
  assumes "runtime_preload_table ctx (sel_table_name s) fs = (Inl e, ctx1, fs1)"
  obtains st m m' where "e = Failure st m" "st \<in> engine_errors" "execute_select ctx s fs = (Inl (Failure st m'), ctx1, fs1)"
proof -
  have g: "get_or_load_table_runtime ctx (sel_table_name s) fs = (Inl e, ctx1, fs1)"
    using assms by (auto simp: preload_cases split: prod.splits sum.splits)
  from load_failure [OF this] obtain st m m' where
    "e = Failure st m" "translate_load_status e = Failure st m'" "st \<in> engine_errors" .
  with g that show thesis by (simp add: execute_select_def)
qed


lemma api_parse_ok: "db_api_parse sql = Inr st \<Longrightarrow> statement_ok st"
  by (auto simp: api_parse_iff dest!: parsed_ok sql_ok_statement_ok)

lemma parse_failure_http: "resp_http (parse_failure m e) = 400"
  by (cases e) (simp_all add: error_response_def)

lemma api_refusal_http: "db_api_parse sql = Inl resp \<Longrightarrow> resp_http resp = 400"
  by (auto simp: db_api_parse_def empty_query_def error_response_def parse_failure_http Let_def
      split: sum.splits if_splits prod.splits)

lemma engine_failure_response:
  "k \<in> engine_errors \<Longrightarrow> engine_failure d (Failure k m) =
     Some (error_response k (fst (map_engine_status k)) (snd (map_engine_status k)) (message_or m d))"
  by (simp split: prod.split)

text \<open>The response to a statement: what the specification allows for a result of the engine.\<close>

definition answers :: "exec_result result \<Rightarrow> api_response option \<Rightarrow> bool" where
  "answers res resp \<longleftrightarrow>
     (case res of
        Inr r \<Rightarrow> resp = Some \<lparr>resp_status = STATUS_OK, resp_http = 200, resp_json = json_text (success_value r)\<rparr>
      | Inl e \<Rightarrow> \<exists>k m msg. e = Failure k m \<and> k \<in> engine_errors \<and>
          resp = Some \<lparr>resp_status = k, resp_http = fst (map_engine_status k),
                       resp_json = json_text (error_value (snd (map_engine_status k)) msg)\<rparr>)"

lemma answers_response: "fails_with engine_errors res \<Longrightarrow> answers res (engine_response res)"
  by (auto simp: answers_def engine_response_def fails_with_def failure_in_def error_response_def error_json success_json
      split: prod.splits sum.splits failure.splits) blast

lemma execute_sql_select:
  assumes "db_api_parse sql = Inr (STMT_SELECT s)" "fails_with engine_errors (fst (execute_select ctx s fs))"
    and "db_api_execute_sql True True ctx sql fs = (resp, ctx', fs')"
  shows "\<exists>res. execute_select ctx s fs = (res, ctx', fs') \<and> answers res resp"
proof -
  obtain p ctx1 fs1 where p: "runtime_preload_table ctx (sel_table_name s) fs = (p, ctx1, fs1)" by (metis prod_cases3)
  show ?thesis
  proof (cases p)
    case (Inl e)
    from preload_fails [OF p [unfolded Inl]] obtain k m m' where
      "e = Failure k m" "k \<in> engine_errors" "execute_select ctx s fs = (Inl (Failure k m'), ctx1, fs1)" .
    with assms(1,3) p Inl show ?thesis
      by (auto simp: db_api_execute_sql_def answers_def error_response_def error_json split: prod.splits)
  next
    case (Inr u)
    have "execute_select ctx1 s fs1 = execute_select ctx s fs" using preload_execute p Inr by simp
    with assms p Inr answers_response show ?thesis
      by (auto simp: db_api_execute_sql_def execute_statement_def split: prod.splits)
  qed
qed

lemma execute_sql_insert:
  assumes "db_api_parse sql = Inr (STMT_INSERT s)" "fails_with engine_errors (fst (execute_insert ctx s fs))"
    and "db_api_execute_sql True True ctx sql fs = (resp, ctx', fs')"
  shows "\<exists>res. execute_insert ctx s fs = (res, ctx', fs') \<and> answers res resp"
  using assms answers_response by (auto simp: db_api_execute_sql_def execute_statement_def split: prod.splits)

lemma execute_sql_answers:
  assumes "reachable db_dir fs0 ctx fs" "db_ok fs0 db_dir" "db_api_parse sql = Inr st"
    and "db_api_execute_sql True True ctx sql fs = (resp, ctx', fs')"
  shows "\<exists>res. execute_statement ctx st fs = (res, ctx', fs') \<and> answers res resp"
proof -
  have "fails_with engine_errors (fst (execute_statement ctx st fs))"
    using execute_statement_fails reachable_inv [OF assms(1,2)] api_parse_ok [OF assms(3)] by blast
  with assms(3,4) execute_sql_select execute_sql_insert show ?thesis
    by (cases st) (auto simp: execute_statement_def)
qed

lemma execute_sql_spec:
  assumes "reachable db_dir fs0 ctx fs" "db_ok fs0 db_dir"
    and "db_api_execute_sql True True ctx sql fs = (resp, ctx', fs')"
  shows "case db_api_parse sql of
      Inl r \<Rightarrow> resp = Some r \<and> resp_http r = 400 \<and> ctx' = ctx \<and> fs' = fs
    | Inr st \<Rightarrow> \<exists>res. execute_statement ctx st fs = (res, ctx', fs') \<and> answers res resp"
proof (cases "db_api_parse sql")
  case (Inl r)
  with assms(3) api_refusal_http show ?thesis by (auto simp: db_api_execute_sql_def)
qed (use execute_sql_answers [OF assms(1,2) _ assms(3)] in auto)

section \<open>Properties of the database API\<close>

text \<open>
  C27. The bodies that the API builds piece by piece in its growing buffer are exactly the JSON texts
  of the values they stand for, whatever characters the column names, values and messages contain:
  a SELECT result with its columns and rows, an INSERT result, and an error.
\<close>

theorem response_bodies_are_json:
  "make_success_json r = json_text (success_value r) \<and> make_error_json error_code msg = json_text (error_value error_code msg)"
  by (simp add: success_json error_json)

text \<open>
  C28. On every reachable engine state and for every text, the API answers.  A text it cannot parse
  as exactly one statement is refused with HTTP status 400 and changes nothing.  Otherwise the engine
  ends in the state that executing the statement gives, and the response is 200 with the JSON text of
  the result, or the HTTP status and error code that belong to the failure; the engine never fails in
  another way than with a schema, storage, index or execution error.
\<close>

theorem execute_sql_correct:
  assumes "reachable db_dir fs0 ctx fs" "db_ok fs0 db_dir"
    and "db_api_execute_sql True True ctx sql fs = (resp, ctx', fs')"
  shows "case sql_statement sql of
      None \<Rightarrow> \<exists>r. resp = Some r \<and> resp_http r = 400 \<and> ctx' = ctx \<and> fs' = fs
    | Some st \<Rightarrow> \<exists>res. execute_statement ctx st fs = (res, ctx', fs') \<and> answers res resp"
  using execute_sql_spec [OF assms] unfolding sql_statement_parse by (auto split: sum.splits)

theorem execute_sql_correct_witness:
  "\<exists>ctx' fs'. db_api_execute_sql True True demo_ctx ''SELECT name FROM users WHERE id = 7;'' demo_fs =
     (Some \<lparr>resp_status = STATUS_OK, resp_http = 200,
            resp_json = json_text (Jobject [(''success'', Jbool True), (''type'', Jstring ''select''),
              (''used_index'', Jbool True), (''row_count'', Jnumber 1), (''columns'', Jarray [Jstring ''name'']),
              (''rows'', Jarray [Jarray [Jstring ''lee'']])])\<rparr>, ctx', fs') \<and>
     (\<exists>st res. sql_statement ''SELECT name FROM users WHERE id = 7;'' = Some st \<and>
        execute_statement demo_ctx st demo_fs = (Inr res, ctx', fs'))"
proof -
  let ?q = "''SELECT name FROM users WHERE id = 7;''"
  let ?r = "\<lparr>resp_status = STATUS_OK, resp_http = 200,
            resp_json = json_text (Jobject [(''success'', Jbool True), (''type'', Jstring ''select''),
              (''used_index'', Jbool True), (''row_count'', Jnumber 1), (''columns'', Jarray [Jstring ''name'']),
              (''rows'', Jarray [Jarray [Jstring ''lee'']])])\<rparr>"
  have "fst (db_api_execute_sql True True demo_ctx ?q demo_fs) = Some ?r" by code_simp
  then obtain ctx' fs' where e: "db_api_execute_sql True True demo_ctx ?q demo_fs = (Some ?r, ctx', fs')"
    by (metis prod.collapse)
  from execute_sql_correct [OF demo_reachable demo_db_ok e] obtain st res where
    st: "sql_statement ?q = Some st" "execute_statement demo_ctx st demo_fs = (res, ctx', fs')" "answers res (Some ?r)"
    by (auto split: option.splits)
  then have "\<exists>r. res = Inr r"
    by (cases res) (auto simp: answers_def engine_errors_def)
  with e st show ?thesis by blast
qed

end
