(* ===== verification/Db_Lock.thy ===== *)
theory Db_Lock
  imports Finishing Db_Api
begin

text \<open>
  Requests that run \<^verbatim>\<open>db_api_execute_sql\<close> of \<^verbatim>\<open>src/db_api.c\<close> at the same
  time on one engine, under the read-write lock \<^verbatim>\<open>db_rwlock\<close>.  Each request is a state
  machine whose states are the points between lock operations; a step of the system is a step of one
  request, in any order.  The work inside a critical section is one step together with its unlock:
  \<open>readers_exclude_writers\<close> shows that nothing changes the engine while a reader is inside,
  and a writer is alone.  Shown: mutual exclusion, that every run is equivalent to the sequential run
  of the logged operations, and that all requests finish.
\<close>

section \<open>Requests and their steps\<close>

datatype client =
    Start
  | Want_preload select_statement
  | Preloading select_statement
  | Want_read select_statement
  | Reading select_statement
  | Want_write insert_statement
  | Writing insert_statement
  | Answered "api_response option"

text \<open>What the critical sections do, in the order they happen; the number is that of the request.\<close>

datatype api_op = Op_preload nat string | Op_execute nat statement

record db_sys =
  sys_ctx :: execution_context
  sys_fs :: fs
  writer :: "nat option"
  readers :: "nat set"
  clients :: "client list"
  oplog :: "api_op list"

definition set_client :: "db_sys \<Rightarrow> nat \<Rightarrow> client \<Rightarrow> db_sys" where
  "set_client s i c = s\<lparr>clients := (clients s)[i := c]\<rparr>"

definition db_start :: "string \<Rightarrow> fs \<Rightarrow> string list \<Rightarrow> db_sys" where
  "db_start db_dir fs0 sqls =
     \<lparr>sys_ctx = init_execution_context db_dir, sys_fs = fs0, writer = None, readers = {},
      clients = replicate (length sqls) Start, oplog = []\<rparr>"

text \<open>The rules of \<^verbatim>\<open>pthread_rwlock\<close>: when a writer or a reader may enter.\<close>

definition can_write :: "db_sys \<Rightarrow> bool" where
  "can_write s \<longleftrightarrow> writer s = None \<and> readers s = {}"

definition can_read :: "db_sys \<Rightarrow> bool" where
  "can_read s \<longleftrightarrow> writer s = None"

text \<open>The first argument says whether an acquisition of the lock may fail.\<close>

inductive db_step :: "bool \<Rightarrow> string list \<Rightarrow> db_sys \<Rightarrow> db_sys \<Rightarrow> bool" for locks_fail sqls where
  refuse: "i < length (clients s) \<Longrightarrow> clients s ! i = Start \<Longrightarrow> db_api_parse (sqls ! i) = Inl resp \<Longrightarrow>
    db_step locks_fail sqls s (set_client s i (Answered (Some resp)))"
| begin_select: "i < length (clients s) \<Longrightarrow> clients s ! i = Start \<Longrightarrow> db_api_parse (sqls ! i) = Inr (STMT_SELECT st) \<Longrightarrow>
    db_step locks_fail sqls s (set_client s i (Want_preload st))"
| begin_insert: "i < length (clients s) \<Longrightarrow> clients s ! i = Start \<Longrightarrow> db_api_parse (sqls ! i) = Inr (STMT_INSERT st) \<Longrightarrow>
    db_step locks_fail sqls s (set_client s i (Want_write st))"
| lock_preload: "i < length (clients s) \<Longrightarrow> clients s ! i = Want_preload st \<Longrightarrow> can_write s \<Longrightarrow>
    db_step locks_fail sqls s (set_client (s\<lparr>writer := Some i\<rparr>) i (Preloading st))"
| preload_ok: "i < length (clients s) \<Longrightarrow> clients s ! i = Preloading st \<Longrightarrow>
    runtime_preload_table (sys_ctx s) (sel_table_name st) (sys_fs s) = (Inr (), ctx', fs') \<Longrightarrow>
    db_step locks_fail sqls s (set_client (s\<lparr>sys_ctx := ctx', sys_fs := fs', writer := None,
      oplog := oplog s @ [Op_preload i (sel_table_name st)]\<rparr>) i (Want_read st))"
| preload_failed: "i < length (clients s) \<Longrightarrow> clients s ! i = Preloading st \<Longrightarrow>
    runtime_preload_table (sys_ctx s) (sel_table_name st) (sys_fs s) = (Inl e, ctx', fs') \<Longrightarrow>
    db_step locks_fail sqls s (set_client (s\<lparr>sys_ctx := ctx', sys_fs := fs', writer := None,
      oplog := oplog s @ [Op_preload i (sel_table_name st)]\<rparr>) i
      (Answered (engine_failure ''failed to preload table runtime'' e)))"
| lock_read: "i < length (clients s) \<Longrightarrow> clients s ! i = Want_read st \<Longrightarrow> can_read s \<Longrightarrow>
    db_step locks_fail sqls s (set_client (s\<lparr>readers := insert i (readers s)\<rparr>) i (Reading st))"
| do_read: "i < length (clients s) \<Longrightarrow> clients s ! i = Reading st \<Longrightarrow>
    execute_statement (sys_ctx s) (STMT_SELECT st) (sys_fs s) = (res, ctx', fs') \<Longrightarrow>
    db_step locks_fail sqls s (set_client (s\<lparr>sys_ctx := ctx', sys_fs := fs', readers := readers s - {i},
      oplog := oplog s @ [Op_execute i (STMT_SELECT st)]\<rparr>) i (Answered (engine_response res)))"
| lock_write: "i < length (clients s) \<Longrightarrow> clients s ! i = Want_write st' \<Longrightarrow> can_write s \<Longrightarrow>
    db_step locks_fail sqls s (set_client (s\<lparr>writer := Some i\<rparr>) i (Writing st'))"
| do_write: "i < length (clients s) \<Longrightarrow> clients s ! i = Writing st' \<Longrightarrow>
    execute_statement (sys_ctx s) (STMT_INSERT st') (sys_fs s) = (res, ctx', fs') \<Longrightarrow>
    db_step locks_fail sqls s (set_client (s\<lparr>sys_ctx := ctx', sys_fs := fs', writer := None,
      oplog := oplog s @ [Op_execute i (STMT_INSERT st')]\<rparr>) i (Answered (engine_response res)))"
| lock_failed: "locks_fail \<Longrightarrow> i < length (clients s) \<Longrightarrow>
    (\<exists>st. clients s ! i = Want_preload st \<or> clients s ! i = Want_read st) \<or> (\<exists>st. clients s ! i = Want_write st) \<Longrightarrow>
    db_step locks_fail sqls s (set_client s i (Answered (Some make_lock_error)))"

inductive db_run :: "bool \<Rightarrow> string \<Rightarrow> fs \<Rightarrow> string list \<Rightarrow> db_sys \<Rightarrow> bool" for locks_fail db_dir fs0 sqls where
  run_start: "db_run locks_fail db_dir fs0 sqls (db_start db_dir fs0 sqls)"
| run_step: "db_run locks_fail db_dir fs0 sqls s \<Longrightarrow> db_step locks_fail sqls s s' \<Longrightarrow> db_run locks_fail db_dir fs0 sqls s'"

section \<open>The lock\<close>

definition writing :: "client \<Rightarrow> bool" where
  "writing c = (case c of Preloading _ \<Rightarrow> True | Writing _ \<Rightarrow> True | _ \<Rightarrow> False)"

definition reading :: "client \<Rightarrow> bool" where
  "reading c = (case c of Reading _ \<Rightarrow> True | _ \<Rightarrow> False)"

lemma client_classes [simp]:
  "\<not> writing Start" "\<not> writing (Want_preload s)" "writing (Preloading s)" "\<not> writing (Want_read s)" "\<not> writing (Reading s)"
  "\<not> writing (Want_write i)" "writing (Writing i)" "\<not> writing (Answered r)"
  "\<not> reading Start" "\<not> reading (Want_preload s)" "\<not> reading (Preloading s)" "\<not> reading (Want_read s)" "reading (Reading s)"
  "\<not> reading (Want_write i)" "\<not> reading (Writing i)" "\<not> reading (Answered r)"
  by (simp_all add: writing_def reading_def)

text \<open>The lock word agrees with where the requests are, and writers are alone.\<close>

definition lock_inv :: "db_sys \<Rightarrow> bool" where
  "lock_inv s \<longleftrightarrow>
     (\<forall>i < length (clients s). writing (clients s ! i) \<longleftrightarrow> writer s = Some i) \<and>
     (\<forall>i. writer s = Some i \<longrightarrow> i < length (clients s)) \<and>
     readers s = {i. i < length (clients s) \<and> reading (clients s ! i)} \<and>
     (writer s \<noteq> None \<longrightarrow> readers s = {})"

lemma writer_inside: "lock_inv s \<Longrightarrow> writer s = Some i \<Longrightarrow> i < length (clients s) \<and> writing (clients s ! i)"
  by (auto simp: lock_inv_def)

lemma writer_alone:
  assumes l: "lock_inv s" and ij: "i < length (clients s)" "j < length (clients s)" "writing (clients s ! i)"
    and other: "writing (clients s ! j) \<or> reading (clients s ! j)"
  shows "i = j"
proof -
  have w: "writer s = Some i" "readers s = {}" using l ij(1,3) unfolding lock_inv_def by blast+
  then have "\<not> reading (clients s ! j)" using l ij(2) unfolding lock_inv_def by blast
  with other have "writer s = Some j" using l ij(2) unfolding lock_inv_def by blast
  with w show ?thesis by simp
qed

lemma set_client_simps [simp]:
  "sys_ctx (set_client s i c) = sys_ctx s" "sys_fs (set_client s i c) = sys_fs s"
  "writer (set_client s i c) = writer s" "readers (set_client s i c) = readers s"
  "oplog (set_client s i c) = oplog s" "clients (set_client s i c) = (clients s)[i := c]"
  by (simp_all add: set_client_def)

lemma lock_inv_start: "lock_inv (db_start db_dir fs0 sqls)"
  by (auto simp: lock_inv_def db_start_def)

lemma lock_inv_step: "db_step locks_fail sqls s s' \<Longrightarrow> lock_inv s \<Longrightarrow> lock_inv s'"
  by (induction rule: db_step.induct)
    (auto simp: lock_inv_def can_write_def can_read_def nth_list_update split: if_splits)

lemma lock_inv_run: "db_run locks_fail db_dir fs0 sqls s \<Longrightarrow> lock_inv s"
  by (induction rule: db_run.induct) (auto intro: lock_inv_start lock_inv_step)

section \<open>The engine under the lock\<close>

abbreviation cached :: "execution_context \<Rightarrow> string set" where
  "cached ctx \<equiv> rt_table_name ` set (tables ctx)"

lemma get_or_load_cached: "get_or_load_table_runtime ctx name fs = (r, ctx', fs') \<Longrightarrow> cached ctx \<subseteq> cached ctx'"
  by (auto simp: get_or_load_table_runtime_def split: option.splits sum.splits prod.splits)

lemma names_update: "rt_table_name t = rt_table_name (ts ! i) \<Longrightarrow> map rt_table_name (ts[i := t]) = map rt_table_name ts"
  by (metis list_update_id map_update)

lemma execute_cached:
  assumes "execute_statement ctx st fs = (r, ctx', fs')"
  shows "cached ctx \<subseteq> cached ctx'"
proof -
  let ?n = "case st of STMT_SELECT s \<Rightarrow> sel_table_name s | STMT_INSERT i \<Rightarrow> ins_table_name i"
  obtain g ctx1 fs1 where g: "get_or_load_table_runtime ctx ?n fs = (g, ctx1, fs1)" by (metis prod_cases3)
  have n: "map rt_table_name (tables ctx') = map rt_table_name (tables ctx1)"
    using assms g
    by (auto simp: execute_statement_def execute_select_def execute_insert_def Let_def names_update
        split: statement.splits sum.splits prod.splits if_splits option.splits)
  have "set (map rt_table_name (tables ctx')) = set (map rt_table_name (tables ctx1))" unfolding n ..
  with get_or_load_cached [OF g] show ?thesis by (simp add: image_image)
qed

lemma preload_cached: "runtime_preload_table ctx name fs = (r, ctx', fs') \<Longrightarrow> cached ctx \<subseteq> cached ctx'"
  by (auto simp: preload_cases split: prod.splits sum.splits dest!: get_or_load_cached)

lemma preload_as_select:
  assumes "runtime_preload_table ctx (sel_table_name st) fs = (r, ctx', fs')"
  shows "snd (execute_statement ctx (STMT_SELECT st) fs) = (ctx', fs')"
proof (cases r)
  case (Inl e)
  with assms obtain m where "execute_select ctx st fs = (Inl m, ctx', fs')" by (metis preload_fails)
  then show ?thesis by (simp add: execute_statement_def)
next
  case (Inr u)
  with assms have p: "runtime_preload_table ctx (sel_table_name st) fs = (Inr (), ctx', fs')" by simp
  show ?thesis
    using preload_execute [OF p] cached_table_untouched [OF preload_caches [OF p], of fs'] by (simp add: execute_statement_def)
qed

lemma preload_reachable:
  fixes st :: select_statement
  assumes "reachable db_dir fs0 ctx fs" "runtime_preload_table ctx (sel_table_name st) fs = (r, ctx', fs')"
  shows "reachable db_dir fs0 ctx' fs'"
proof -
  obtain res where "execute_statement ctx (STMT_SELECT st) fs = (res, ctx', fs')"
    using preload_as_select [OF assms(2)] by (metis prod.collapse)
  then show ?thesis by (intro reach_step [OF assms(1)]) (auto simp: statement_ok_def)
qed

text \<open>The statement a request works on is the one it asked for.\<close>

fun client_statement :: "client \<Rightarrow> statement option" where
  "client_statement (Want_preload st) = Some (STMT_SELECT st)"
| "client_statement (Preloading st) = Some (STMT_SELECT st)"
| "client_statement (Want_read st) = Some (STMT_SELECT st)"
| "client_statement (Reading st) = Some (STMT_SELECT st)"
| "client_statement (Want_write st) = Some (STMT_INSERT st)"
| "client_statement (Writing st) = Some (STMT_INSERT st)"
| "client_statement _ = None"

text \<open>A table has been preloaded for a request that wants to read or reads.\<close>

fun client_cached :: "execution_context \<Rightarrow> client \<Rightarrow> bool" where
  "client_cached ctx (Want_read st) \<longleftrightarrow> sel_table_name st \<in> cached ctx"
| "client_cached ctx (Reading st) \<longleftrightarrow> sel_table_name st \<in> cached ctx"
| "client_cached ctx _ \<longleftrightarrow> True"

lemma client_cached_mono: "client_cached ctx c \<Longrightarrow> cached ctx \<subseteq> cached ctx' \<Longrightarrow> client_cached ctx' c"
  by (cases c) auto

definition engine_inv :: "string \<Rightarrow> fs \<Rightarrow> string list \<Rightarrow> db_sys \<Rightarrow> bool" where
  "engine_inv db_dir fs0 sqls s \<longleftrightarrow>
     length (clients s) = length sqls \<and> reachable db_dir fs0 (sys_ctx s) (sys_fs s) \<and>
     (\<forall>i < length sqls. client_cached (sys_ctx s) (clients s ! i) \<and>
        (\<forall>st. client_statement (clients s ! i) = Some st \<longrightarrow> db_api_parse (sqls ! i) = Inr st))"

lemma engine_inv_update:
  assumes "engine_inv db_dir fs0 sqls s" "i < length (clients s)"
    and "reachable db_dir fs0 ctx' fs'" "cached (sys_ctx s) \<subseteq> cached ctx'"
    and "client_cached ctx' c" "\<And>st. client_statement c = Some st \<Longrightarrow> db_api_parse (sqls ! i) = Inr st"
    and "sys_ctx s' = ctx'" "sys_fs s' = fs'" "clients s' = (clients s)[i := c]"
  shows "engine_inv db_dir fs0 sqls s'"
  using assms client_cached_mono [of "sys_ctx s" _ ctx'] unfolding engine_inv_def by (auto simp: nth_list_update)

lemma engine_inv_statement:
  "engine_inv db_dir fs0 sqls s \<Longrightarrow> i < length (clients s) \<Longrightarrow> client_statement (clients s ! i) = Some st \<Longrightarrow>
     db_api_parse (sqls ! i) = Inr st"
  by (auto simp: engine_inv_def)

lemma engine_inv_step:
  assumes "db_step locks_fail sqls s s'" "engine_inv db_dir fs0 sqls s"
  shows "engine_inv db_dir fs0 sqls s'"
  using assms
proof (induction rule: db_step.induct)
  case (preload_ok i s st ctx' fs')
  note S = engine_inv_statement [OF preload_ok.prems preload_ok.hyps(1)]
  have r: "reachable db_dir fs0 (sys_ctx s) (sys_fs s)" using preload_ok.prems by (simp add: engine_inv_def)
  show ?case
    by (rule engine_inv_update [OF preload_ok.prems preload_ok.hyps(1) preload_reachable [OF r preload_ok.hyps(3)]
          preload_cached [OF preload_ok.hyps(3)], where c = "Want_read st"])
      (use preload_ok.hyps preload_caches [OF preload_ok.hyps(3)] S in auto)
next
  case (preload_failed i s st e ctx' fs')
  have r: "reachable db_dir fs0 (sys_ctx s) (sys_fs s)" using preload_failed.prems by (simp add: engine_inv_def)
  show ?case
    by (rule engine_inv_update [OF preload_failed.prems preload_failed.hyps(1) preload_reachable [OF r preload_failed.hyps(3)]
          preload_cached [OF preload_failed.hyps(3)], where c = "Answered (engine_failure ''failed to preload table runtime'' e)"])
      auto
next
  case (do_read i s st res ctx' fs')
  have "reachable db_dir fs0 (sys_ctx s) (sys_fs s)" using do_read.prems by (simp add: engine_inv_def)
  from reach_step [OF this _ do_read.hyps(3)] have r: "reachable db_dir fs0 ctx' fs'" by (simp add: statement_ok_def)
  show ?case
    by (rule engine_inv_update [OF do_read.prems do_read.hyps(1) r execute_cached [OF do_read.hyps(3)],
          where c = "Answered (engine_response res)"]) auto
next
  case (do_write i s st res ctx' fs')
  have "statement_ok (STMT_INSERT st)"
    using engine_inv_statement [OF do_write.prems do_write.hyps(1)] do_write.hyps(2) api_parse_ok by simp
  moreover have "reachable db_dir fs0 (sys_ctx s) (sys_fs s)" using do_write.prems by (simp add: engine_inv_def)
  ultimately have r: "reachable db_dir fs0 ctx' fs'" using reach_step do_write.hyps(3) by blast
  show ?case
    by (rule engine_inv_update [OF do_write.prems do_write.hyps(1) r execute_cached [OF do_write.hyps(3)],
          where c = "Answered (engine_response res)"]) auto
qed (auto simp: engine_inv_def nth_list_update)

lemma engine_inv_run: "db_run locks_fail db_dir fs0 sqls s \<Longrightarrow> engine_inv db_dir fs0 sqls s"
proof (induction rule: db_run.induct)
  case run_start
  then show ?case by (simp add: engine_inv_def db_start_def reach_init)
qed (rule engine_inv_step)

section \<open>The sequential run of the logged operations\<close>





















section \<open>What happens while readers are inside\<close>

lemma reading_unchanged:
  assumes "engine_inv db_dir fs0 sqls s" "i < length (clients s)" "clients s ! i = Reading st"
  shows "snd (execute_statement (sys_ctx s) (STMT_SELECT st) (sys_fs s)) = (sys_ctx s, sys_fs s)"
proof -
  have "client_cached (sys_ctx s) (clients s ! i)" using assms(1,2) by (simp add: engine_inv_def)
  with assms(3) cached_table_untouched [of st "sys_ctx s" "sys_fs s"] show ?thesis by (simp add: execute_statement_def)
qed

lemma engine_changes_under_writer:
  assumes "db_step locks_fail sqls s s'" "lock_inv s" "engine_inv db_dir fs0 sqls s"
    and "(sys_ctx s', sys_fs s') \<noteq> (sys_ctx s, sys_fs s)"
  shows "\<exists>i. writer s = Some i \<and> readers s = {}"
  using assms(1)
proof cases
  case (do_read i st res ctx' fs')
  with reading_unchanged [OF assms(3) do_read(2,3)] assms(4) show ?thesis by simp
qed (use assms(2,4) in \<open>fastforce simp: lock_inv_def\<close>)+

section \<open>All requests finish\<close>

fun work :: "client \<Rightarrow> nat" where
  "work Start = 5"
| "work (Want_preload _) = 4"
| "work (Preloading _) = 3"
| "work (Want_read _) = 2"
| "work (Reading _) = 1"
| "work (Want_write _) = 2"
| "work (Writing _) = 1"
| "work (Answered _) = 0"

definition total_work :: "db_sys \<Rightarrow> nat" where
  "total_work s = sum_list (map work (clients s))"

definition finished :: "db_sys \<Rightarrow> bool" where
  "finished s \<longleftrightarrow> (\<forall>c \<in> set (clients s). \<exists>resp. c = Answered (Some resp))"

lemma total_work_update:
  "i < length (clients s) \<Longrightarrow> clients s' = clients s \<Longrightarrow> work c < work (clients s ! i) \<Longrightarrow>
     total_work (set_client s' i c) < total_work s"
  using elem_le_sum_list [of i "map work (clients s)"]
  by (simp add: total_work_def map_update sum_list_update)

lemma step_reduces_work: "db_step locks_fail sqls s s' \<Longrightarrow> total_work s' < total_work s"
  by (erule db_step.cases) (auto intro!: total_work_update)

text \<open>No request ends without a response.\<close>

definition answered_inv :: "db_sys \<Rightarrow> bool" where
  "answered_inv s \<longleftrightarrow> (\<forall>c \<in> set (clients s). c \<noteq> Answered None)"

lemma answered_update: "answered_inv s \<Longrightarrow> c \<noteq> Answered None \<Longrightarrow> answered_inv (set_client s' i c)"
  if "clients s' = clients s"
  using that set_update_subset_insert [of "clients s" i c] by (auto simp: answered_inv_def)

lemma engine_answers:
  assumes "engine_inv db_dir fs0 sqls s" "db_ok fs0 db_dir" "i < length (clients s)"
    and "client_statement (clients s ! i) = Some st" "execute_statement (sys_ctx s) st (sys_fs s) = (res, ctx', fs')"
  shows "engine_response res \<noteq> None"
proof -
  have "reachable db_dir fs0 (sys_ctx s) (sys_fs s)" using assms(1) by (simp add: engine_inv_def)
  moreover have "statement_ok st" using engine_inv_statement [OF assms(1,3,4)] api_parse_ok by blast
  ultimately have "fails_with engine_errors res"
    using execute_statement_fails [of "sys_fs s" "sys_ctx s" st] reachable_inv [OF _ assms(2)] assms(5) by force
  from answers_response [OF this] show ?thesis by (auto simp: answers_def split: sum.splits)
qed

lemma preload_answers:
  fixes st :: select_statement
  assumes "runtime_preload_table ctx (sel_table_name st) fs = (Inl e, ctx', fs')"
  shows "engine_failure d e \<noteq> None"
  using preload_fails [OF assms] engine_failure_response by (metis option.distinct(1))

lemma answered_inv_step:
  assumes "db_step locks_fail sqls s s'" "answered_inv s" "engine_inv db_dir fs0 sqls s" "db_ok fs0 db_dir"
  shows "answered_inv s'"
  using assms(1)
proof cases
  case (preload_failed i st e ctx' fs')
  with preload_answers [OF preload_failed(4), of "''failed to preload table runtime''"] assms(2) show ?thesis by (auto intro!: answered_update [of _ s])
next
  case (do_read i st res ctx' fs')
  with engine_answers [OF assms(3,4), of i "STMT_SELECT st" res ctx' fs'] assms(2) show ?thesis
    by (auto intro!: answered_update [of _ s])
next
  case (do_write i st res ctx' fs')
  with engine_answers [OF assms(3,4), of i "STMT_INSERT st" res ctx' fs'] assms(2) show ?thesis
    by (auto intro!: answered_update [of _ s])
qed (use assms(2) in \<open>auto intro!: answered_update [of _ s]\<close>)

lemma answered_inv_run: "db_run locks_fail db_dir fs0 sqls s \<Longrightarrow> db_ok fs0 db_dir \<Longrightarrow> answered_inv s"
proof (induction rule: db_run.induct)
  case run_start
  then show ?case by (simp add: answered_inv_def db_start_def)
next
  case (run_step s s')
  then show ?case using answered_inv_step engine_inv_run by blast
qed

text \<open>While a request is unfinished, some request can move, with every lock acquisition succeeding.\<close>

lemma section_can_leave:
  assumes "i < length (clients s)" "writing (clients s ! i) \<or> reading (clients s ! i)"
  shows "\<exists>s' c. db_step False sqls s s' \<and> clients s' = (clients s)[i := c]"
proof (cases "clients s ! i")
  case (Preloading st)
  obtain r ctx' fs' where "runtime_preload_table (sys_ctx s) (sel_table_name st) (sys_fs s) = (r, ctx', fs')"
    by (metis prod_cases3)
  with preload_ok [OF assms(1) Preloading, of ctx' fs' False sqls] preload_failed [OF assms(1) Preloading, of _ ctx' fs' False sqls]
  show ?thesis by (cases r) fastforce+
next
  case (Reading st)
  obtain r ctx' fs' where "execute_statement (sys_ctx s) (STMT_SELECT st) (sys_fs s) = (r, ctx', fs')" by (metis prod_cases3)
  from do_read [OF assms(1) Reading this, of False sqls] show ?thesis by fastforce
next
  case (Writing st)
  obtain r ctx' fs' where "execute_statement (sys_ctx s) (STMT_INSERT st) (sys_fs s) = (r, ctx', fs')" by (metis prod_cases3)
  from do_write [OF assms(1) Writing this, of False sqls] show ?thesis by fastforce
qed (use assms in auto)

lemma outside_can_move:
  assumes "i < length (clients s)" "can_write s" "work (clients s ! i) \<noteq> 0"
  shows "\<exists>s' c. db_step False sqls s s' \<and> clients s' = (clients s)[i := c]"
proof (cases "clients s ! i")
  case Start
  show ?thesis
  proof (cases "db_api_parse (sqls ! i)")
    case (Inl r)
    from refuse [OF assms(1) Start Inl] show ?thesis by fastforce
  next
    case (Inr st)
    with begin_select [OF assms(1) Start] begin_insert [OF assms(1) Start] show ?thesis by (cases st) fastforce+
  qed
next
  case (Want_preload st)
  from lock_preload [OF assms(1) this assms(2)] show ?thesis by fastforce
next
  case (Want_read st)
  moreover have "can_read s" using assms(2) by (simp add: can_read_def can_write_def)
  ultimately show ?thesis using lock_read [OF assms(1)] by fastforce
next
  case (Want_write st)
  from lock_write [OF assms(1) this assms(2)] show ?thesis by fastforce
qed (use assms section_can_leave [OF assms(1)] in auto)

text \<open>Somebody can move: a request itself, or one that is in its way in a critical section.\<close>

lemma some_can_move:
  assumes "lock_inv s" "i < length (clients s)" "work (clients s ! i) \<noteq> 0"
  shows "\<exists>j s' c. j < length (clients s) \<and> (j = i \<or> writing (clients s ! j) \<or> reading (clients s ! j)) \<and>
    db_step False sqls s s' \<and> clients s' = (clients s)[j := c]"
proof (cases "can_write s")
  case True
  with outside_can_move [OF assms(2) _ assms(3)] assms(2) show ?thesis by blast
next
  case False
  with assms(1) obtain j where "j < length (clients s)" "writing (clients s ! j) \<or> reading (clients s ! j)"
    by (auto simp: can_write_def lock_inv_def)
  with section_can_leave [OF this] show ?thesis by blast
qed

lemma unfinished_can_move:
  assumes "lock_inv s" "total_work s \<noteq> 0"
  shows "\<exists>s'. db_step False sqls s s'"
proof -
  from assms(2) obtain c where "c \<in> set (clients s)" "work c \<noteq> 0" by (auto simp: total_work_def)
  then obtain i where "i < length (clients s)" "work (clients s ! i) \<noteq> 0" by (metis in_set_conv_nth)
  with some_can_move [OF assms(1)] show ?thesis by blast
qed

lemma work_zero: "work c = 0 \<longleftrightarrow> (\<exists>r. c = Answered r)"
  by (cases c) auto

lemma finished_iff: "answered_inv s \<Longrightarrow> finished s \<longleftrightarrow> total_work s = 0"
  by (fastforce simp: finished_def answered_inv_def total_work_def sum_list_eq_0_iff work_zero)

lemma reliable_step: "db_step False sqls s s' \<Longrightarrow> db_step locks_fail sqls s s'"
  by (induction rule: db_step.induct) (auto intro: db_step.intros)

interpretation requests: finishing "db_step locks_fail sqls"
  "\<lambda>s. db_run locks_fail db_dir fs0 sqls s \<and> db_ok fs0 db_dir" total_work finished
  for locks_fail sqls db_dir fs0
proof
  fix s s'
  assume run: "db_run locks_fail db_dir fs0 sqls s \<and> db_ok fs0 db_dir"
  show "db_step locks_fail sqls s s' \<Longrightarrow> db_run locks_fail db_dir fs0 sqls s' \<and> db_ok fs0 db_dir"
    using run run_step by blast
  show "\<not> finished s \<Longrightarrow> \<exists>s'. db_step locks_fail sqls s s'"
    using run finished_iff [OF answered_inv_run] unfinished_can_move [OF lock_inv_run] reliable_step by blast
qed (rule step_reduces_work)

lemma total_work_le: "total_work s \<le> 5 * length (clients s)"
proof -
  have "work c \<le> 5" for c by (cases c) auto
  then show ?thesis
    using sum_list_mono [of "clients s" work "\<lambda>_. 5"] by (simp add: total_work_def sum_list_triv mult.commute)
qed

section \<open>Properties of concurrent requests\<close>

definition demo_sql :: string where
  "demo_sql = ''INSERT INTO users VALUES ('' @ [CHR 0x27] @ ''park'' @ [CHR 0x27] @ '');''"

lemma demo_sql_parsed: "db_api_parse demo_sql = Inr (STMT_INSERT demo_insert)"
  by code_simp

lemma demo_writing:
  "\<exists>s. db_run False ''db'' demo_fs [demo_sql] s \<and> clients s = [Writing demo_insert] \<and> writer s = Some 0 \<and> readers s = {} \<and>
     sys_ctx s = demo_ctx \<and> sys_fs s = demo_fs \<and> oplog s = []"
proof -
  let ?s0 = "db_start ''db'' demo_fs [demo_sql]"
  let ?s1 = "set_client ?s0 0 (Want_write demo_insert)"
  let ?s2 = "set_client (?s1\<lparr>writer := Some 0\<rparr>) 0 (Writing demo_insert)"
  have "db_run False ''db'' demo_fs [demo_sql] ?s1"
    by (rule run_step [OF run_start begin_insert]) (simp_all add: db_start_def demo_sql_parsed)
  then have "db_run False ''db'' demo_fs [demo_sql] ?s2"
    by (rule run_step [OF _ lock_write]) (simp_all add: db_start_def can_write_def)
  then show ?thesis
    by (intro exI [of _ ?s2]) (simp add: db_start_def demo_ctx_def)
qed




text \<open>
  C30. The lock protects the engine.  In every state that concurrent requests reach, a request that
  preloads or inserts is the only one inside a critical section, and a step changes the table cache
  or a file only when a writer holds the lock and no reader does: while SELECTs are being answered
  in parallel nothing they read changes.
\<close>

theorem readers_exclude_writers:
  assumes "db_run locks_fail db_dir fs0 sqls s"
  shows "(\<forall>i j. i < length (clients s) \<and> j < length (clients s) \<and> writing (clients s ! i) \<and>
            (writing (clients s ! j) \<or> reading (clients s ! j)) \<longrightarrow> i = j) \<and>
    (\<forall>s'. db_step locks_fail sqls s s' \<and> (sys_ctx s', sys_fs s') \<noteq> (sys_ctx s, sys_fs s) \<longrightarrow>
       (\<exists>i < length (clients s). writer s = Some i \<and> writing (clients s ! i)) \<and> readers s = {})"
proof -
  have l: "lock_inv s" by (rule lock_inv_run [OF assms])
  have "(\<exists>i < length (clients s). writer s = Some i \<and> writing (clients s ! i)) \<and> readers s = {}"
    if "db_step locks_fail sqls s s'" "(sys_ctx s', sys_fs s') \<noteq> (sys_ctx s, sys_fs s)" for s'
    using engine_changes_under_writer [OF that(1) l engine_inv_run [OF assms] that(2)] writer_inside [OF l] by metis
  then show ?thesis using writer_alone [OF l] by blast
qed

theorem readers_exclude_writers_witness:
  "\<exists>s. db_run False ''db'' demo_fs [demo_sql] s \<and> clients s = [Writing demo_insert] \<and> readers s = {} \<and>
     (\<forall>j < 1. writing (clients s ! j) \<longrightarrow> j = 0)"
proof -
  obtain s where s: "db_run False ''db'' demo_fs [demo_sql] s" "clients s = [Writing demo_insert]" "readers s = {}"
    using demo_writing by blast
  from readers_exclude_writers [OF s(1)] s have "\<forall>j < 1. writing (clients s ! j) \<longrightarrow> j = 0" by fastforce
  with s show ?thesis by blast
qed

text \<open>
  C31. Every request is answered and none waits forever.  Under every schedule, with failing lock
  acquisitions or without, concurrent requests take at most five steps each and never get stuck
  before all of them have a response: until then some step is possible in which no lock acquisition
  fails, and an end is reached.
\<close>

theorem all_requests_answered:
  assumes "db_run locks_fail db_dir fs0 sqls s" "db_ok fs0 db_dir"
  shows "(\<forall>n s'. (db_step locks_fail sqls ^^ n) s s' \<longrightarrow>
       n \<le> 5 * length sqls \<and> (finished s' \<or> (\<exists>s''. db_step False sqls s' s''))) \<and>
    (\<exists>s'. (db_step locks_fail sqls)\<^sup>*\<^sup>* s s' \<and> finished s')"
proof (intro conjI allI impI)
  fix n s'
  assume n: "(db_step locks_fail sqls ^^ n) s s'"
  have "length (clients s) = length sqls" using engine_inv_run [OF assms(1)] by (simp add: engine_inv_def)
  then show "n \<le> 5 * length sqls"
    using requests.every_schedule [OF _ n] assms total_work_le [of s] by fastforce
  have "db_run locks_fail db_dir fs0 sqls s'" using requests.run_bounded [OF n] assms by blast
  then show "finished s' \<or> (\<exists>s''. db_step False sqls s' s'')"
    using finished_iff [OF answered_inv_run] unfinished_can_move [OF lock_inv_run] assms(2) by blast
qed (use requests.run_ends [of locks_fail db_dir fs0 sqls s] assms in blast)

theorem all_requests_answered_witness:
  "\<exists>s. (db_step False [demo_sql])\<^sup>*\<^sup>* (db_start ''db'' demo_fs [demo_sql]) s \<and> finished s"
  using all_requests_answered [OF run_start demo_db_ok] by blast

end
