(* ===== verification/Task_Queue.thy ===== *)
theory Task_Queue
  imports Prelude
begin

text \<open>
  The bounded ring buffer of \<^verbatim>\<open>src/task_queue.c\<close>.  Every operation runs between
  \<^verbatim>\<open>pthread_mutex_lock\<close> and \<^verbatim>\<open>pthread_mutex_unlock\<close>, so it is one atomic
  step on the state; a wait on a condition variable releases the mutex with the state unchanged
  and is the outcome \<open>Wait\<close>.  The ring buffer refines a bounded FIFO list
  (\<open>bounded_fifo\<close>).
\<close>

section \<open>State and operations\<close>

record task =
  client_fd :: int

record task_queue =
  tq_items :: "task list"
  tq_capacity :: nat
  tq_head :: nat
  tq_tail :: nat
  tq_count :: nat
  tq_shutdown :: bool

datatype 'a blocking = Wait | Done 'a

definition zero_task :: task where
  "zero_task = \<lparr>client_fd = 0\<rparr>"

definition task_queue_init :: "nat \<Rightarrow> task_queue option" where
  "task_queue_init capacity =
     (if capacity = 0 then None
      else Some \<lparr>tq_items = replicate capacity zero_task, tq_capacity = capacity,
                 tq_head = 0, tq_tail = 0, tq_count = 0, tq_shutdown = False\<rparr>)"

definition enqueue_slot :: "task_queue \<Rightarrow> task \<Rightarrow> task_queue" where
  "enqueue_slot q t =
     q\<lparr>tq_items := (tq_items q)[tq_tail q := t],
       tq_tail := (tq_tail q + 1) mod tq_capacity q,
       tq_count := tq_count q + 1\<rparr>"

definition task_queue_try_push :: "task_queue \<Rightarrow> task \<Rightarrow> int \<times> task_queue" where
  "task_queue_try_push q t =
     (if tq_shutdown q then (-1, q)
      else if tq_count q = tq_capacity q then (1, q)
      else (0, enqueue_slot q t))"

definition task_queue_push :: "task_queue \<Rightarrow> task \<Rightarrow> (int \<times> task_queue) blocking" where
  "task_queue_push q t =
     (if \<not> tq_shutdown q \<and> tq_count q = tq_capacity q then Wait
      else if tq_shutdown q then Done (-1, q)
      else Done (0, enqueue_slot q t))"

definition task_queue_pop :: "task_queue \<Rightarrow> (task option \<times> task_queue) blocking" where
  "task_queue_pop q =
     (if tq_count q = 0 \<and> \<not> tq_shutdown q then Wait
      else if tq_shutdown q \<and> tq_count q = 0 then Done (None, q)
      else Done (Some (tq_items q ! tq_head q),
                 q\<lparr>tq_head := (tq_head q + 1) mod tq_capacity q,
                   tq_count := tq_count q - 1\<rparr>))"

definition task_queue_shutdown :: "task_queue \<Rightarrow> task_queue" where
  "task_queue_shutdown q = q\<lparr>tq_shutdown := True\<rparr>"

definition task_queue_size :: "task_queue \<Rightarrow> nat" where
  "task_queue_size q = tq_count q"

lemmas task_queue_defs = task_queue_init_def enqueue_slot_def task_queue_try_push_def
  task_queue_push_def task_queue_pop_def task_queue_shutdown_def task_queue_size_def

section \<open>Invariant and abstraction to a list\<close>

definition tq_inv :: "task_queue \<Rightarrow> bool" where
  "tq_inv q \<longleftrightarrow>
     0 < tq_capacity q \<and> length (tq_items q) = tq_capacity q \<and>
     tq_head q < tq_capacity q \<and> tq_count q \<le> tq_capacity q \<and>
     tq_tail q = (tq_head q + tq_count q) mod tq_capacity q"

definition tq_list :: "task_queue \<Rightarrow> task list" where
  "tq_list q = map (\<lambda>i. tq_items q ! ((tq_head q + i) mod tq_capacity q)) [0..<tq_count q]"

lemma length_tq_list [simp]: "length (tq_list q) = tq_count q"
  by (simp add: tq_list_def)

lemma mod_add_neq:
  fixes h i n c :: nat
  assumes "i < n" "n < c"
  shows "(h + i) mod c \<noteq> (h + n) mod c"
proof
  assume "(h + i) mod c = (h + n) mod c"
  then have "(n - i) mod c = 0"
    using assms by (metis add_diff_cancel_left le_add1 add_mono_thms_linordered_semiring(2)
        less_imp_le mod_eq_dvd_iff_nat mod_eq_0_iff_dvd add_left_mono)
  with assms show False by simp
qed

lemma enqueue_slot_inv:
  assumes "tq_inv q" "tq_count q < tq_capacity q"
  shows "tq_inv (enqueue_slot q t)"
  using assms by (auto simp: tq_inv_def enqueue_slot_def mod_Suc_eq)

lemma enqueue_slot_list:
  assumes inv: "tq_inv q" and room: "tq_count q < tq_capacity q"
  shows "tq_list (enqueue_slot q t) = tq_list q @ [t]"
proof -
  let ?c = "tq_capacity q" and ?h = "tq_head q" and ?n = "tq_count q"
  have tl: "tq_tail q = (?h + ?n) mod ?c" "tq_tail q < length (tq_items q)"
    using inv by (simp_all add: tq_inv_def)
  have "\<And>i. i < ?n \<Longrightarrow> (tq_items q)[tq_tail q := t] ! ((?h + i) mod ?c) = tq_items q ! ((?h + i) mod ?c)"
    using mod_add_neq [OF _ room, of _ ?h] tl by (metis nth_list_update_neq)
  then show ?thesis
    using tl by (simp add: tq_list_def enqueue_slot_def)
qed

lemma pop_list:
  assumes inv: "tq_inv q" and ne: "0 < tq_count q"
  shows "tq_list q = tq_items q ! tq_head q #
           tq_list (q\<lparr>tq_head := (tq_head q + 1) mod tq_capacity q, tq_count := tq_count q - 1\<rparr>)"
proof -
  have "[0..<tq_count q] = 0 # map Suc [0..<tq_count q - 1]"
    using ne by (metis One_nat_def Suc_pred' map_Suc_upt upt_conv_Cons)
  moreover have "tq_head q mod tq_capacity q = tq_head q"
    using inv by (simp add: tq_inv_def)
  ultimately show ?thesis
    by (simp add: tq_list_def mod_simps)
qed

lemma pop_inv:
  assumes inv: "tq_inv q" and ne: "0 < tq_count q"
  shows "tq_inv (q\<lparr>tq_head := (tq_head q + 1) mod tq_capacity q, tq_count := tq_count q - 1\<rparr>)"
proof -
  obtain n where n: "tq_count q = Suc n" using ne gr0_conv_Suc by auto
  have "(Suc (tq_head q) mod tq_capacity q + n) mod tq_capacity q
      = (tq_head q + Suc n) mod tq_capacity q"
    by (simp add: mod_simps)
  with inv n show ?thesis by (simp add: tq_inv_def)
qed

section \<open>The bounded FIFO interface\<close>

text \<open>What the thread pool relies on: pushes and pops act on a FIFO list of bounded length.\<close>

datatype 'a queue_op = Push_Op 'a | Pop_Op | Close_Op

text \<open>
  A sequence of operations on a queue: the values that were accepted and the values that were
  popped, in order, and the final queue.
\<close>

fun run_ops :: "('q \<Rightarrow> 'a \<Rightarrow> int \<times> 'q) \<Rightarrow> ('q \<Rightarrow> ('a option \<times> 'q) blocking) \<Rightarrow> ('q \<Rightarrow> 'q) \<Rightarrow>
  'a queue_op list \<Rightarrow> 'q \<Rightarrow> 'a list \<times> 'a list \<times> 'q" where
  "run_ops try_push pop close [] q = ([], [], q)"
| "run_ops try_push pop close (Push_Op x # ops) q =
     (let (st, q') = try_push q x; (acc, out, q'') = run_ops try_push pop close ops q'
      in (if st = 0 then x # acc else acc, out, q''))"
| "run_ops try_push pop close (Pop_Op # ops) q =
     (case pop q of
        Wait \<Rightarrow> run_ops try_push pop close ops q
      | Done (r, q') \<Rightarrow>
          (let (acc, out, q'') = run_ops try_push pop close ops q'
           in (acc, (case r of None \<Rightarrow> out | Some x \<Rightarrow> x # out), q'')))"
| "run_ops try_push pop close (Close_Op # ops) q = run_ops try_push pop close ops (close q)"

locale bounded_fifo =
  fixes invar :: "'q \<Rightarrow> bool"
    and contents :: "'q \<Rightarrow> 'a list"
    and cap :: "'q \<Rightarrow> nat"
    and closed :: "'q \<Rightarrow> bool"
    and try_push :: "'q \<Rightarrow> 'a \<Rightarrow> int \<times> 'q"
    and pop :: "'q \<Rightarrow> ('a option \<times> 'q) blocking"
    and close :: "'q \<Rightarrow> 'q"
  assumes bounded: "invar q \<Longrightarrow> length (contents q) \<le> cap q"
    and push_closed: "closed q \<Longrightarrow> try_push q x = (-1, q)"
    and push_full: "invar q \<Longrightarrow> \<not> closed q \<Longrightarrow> length (contents q) = cap q \<Longrightarrow> try_push q x = (1, q)"
    and push_room: "invar q \<Longrightarrow> \<not> closed q \<Longrightarrow> length (contents q) < cap q \<Longrightarrow>
      \<exists>q'. try_push q x = (0, q') \<and> invar q' \<and> contents q' = contents q @ [x] \<and>
           cap q' = cap q \<and> \<not> closed q'"
    and pop_wait: "invar q \<Longrightarrow> contents q = [] \<Longrightarrow> \<not> closed q \<Longrightarrow> pop q = Wait"
    and pop_end: "invar q \<Longrightarrow> contents q = [] \<Longrightarrow> closed q \<Longrightarrow> pop q = Done (None, q)"
    and pop_item: "invar q \<Longrightarrow> contents q = x # xs \<Longrightarrow>
      \<exists>q'. pop q = Done (Some x, q') \<and> invar q' \<and> contents q' = xs \<and>
           cap q' = cap q \<and> closed q' = closed q"
    and close_props: "invar q \<Longrightarrow> invar (close q)" "contents (close q) = contents q"
      "closed (close q)" "cap (close q) = cap q"
begin

lemma try_push_cases:
  assumes "invar q"
  obtains (Closed) "closed q" "try_push q x = (-1, q)"
  | (Full) "\<not> closed q" "length (contents q) = cap q" "try_push q x = (1, q)"
  | (Pushed) q' where "\<not> closed q" "try_push q x = (0, q')" "invar q'"
      "contents q' = contents q @ [x]" "cap q' = cap q" "\<not> closed q'"
  using assms bounded push_closed push_full push_room by (metis le_neq_implies_less)

lemma invar_try_push: "invar q \<Longrightarrow> invar (snd (try_push q x))"
  by (cases rule: try_push_cases [of q x]) auto

text \<open>Nothing is lost, duplicated or reordered, and the bound is kept.\<close>

lemma run_fifo:
  "invar q \<Longrightarrow> run_ops try_push pop close ops q = (acc, out, q') \<Longrightarrow>
   invar q' \<and> contents q @ acc = out @ contents q' \<and> cap q' = cap q"
proof (induction ops arbitrary: q acc out)
  case (Cons op ops)
  show ?case
  proof (cases op)
    case (Push_Op x)
    obtain acc1 where run: "run_ops try_push pop close ops (snd (try_push q x)) = (acc1, out, q')"
      and acc: "acc = (if fst (try_push q x) = 0 then x # acc1 else acc1)"
      using Cons.prems(2) Push_Op by (auto split: prod.splits)
    from Cons.prems(1) show ?thesis
    proof (cases rule: try_push_cases [of q x])
      case (Pushed q1)
      with Cons.IH [of q1 acc1 out] run acc show ?thesis by simp
    qed (use Cons.IH [of q acc1 out] Cons.prems(1) run acc in auto)
  next
    case Pop_Op
    show ?thesis
    proof (cases "contents q")
      case Nil
      have "run_ops try_push pop close ops q = (acc, out, q')"
        using Cons.prems Pop_Op Nil by (cases "closed q") (auto simp: pop_wait pop_end split: prod.splits)
      from Cons.IH [OF Cons.prems(1) this] show ?thesis .
    next
      case (Cons y ys)
      obtain q1 where p: "pop q = Done (Some y, q1)" "invar q1" "contents q1 = ys" "cap q1 = cap q"
        using pop_item [OF Cons.prems(1) Cons] by blast
      then obtain out1 where "run_ops try_push pop close ops q1 = (acc, out1, q')" "out = y # out1"
        using Cons.prems(2) Pop_Op by (auto split: prod.splits)
      with Cons.IH [OF p(2)] p Cons show ?thesis by simp
    qed
  next
    case Close_Op
    with Cons.IH [of "close q" acc out] Cons.prems close_props show ?thesis by simp
  qed
qed simp

lemma try_push_status: "invar q \<Longrightarrow> fst (try_push q x) \<in> {-1, 0, 1}"
  by (cases rule: try_push_cases [of q x]) auto

end

interpretation tq: bounded_fifo tq_inv tq_list tq_capacity tq_shutdown
  task_queue_try_push task_queue_pop task_queue_shutdown
proof (unfold_locales, goal_cases)
  case (1 q) then show ?case by (simp add: tq_inv_def)
next
  case (2 q x) then show ?case by (simp add: task_queue_try_push_def)
next
  case (3 q x) then show ?case by (simp add: task_queue_try_push_def)
next
  case (4 q x) then show ?case
    using enqueue_slot_inv [of q x] enqueue_slot_list [of q x]
    by (simp add: task_queue_try_push_def) (simp add: enqueue_slot_def)
next
  case (5 q) then show ?case by (auto simp: task_queue_pop_def tq_list_def)
next
  case (6 q) then show ?case by (auto simp: task_queue_pop_def tq_list_def)
next
  case (7 q x xs)
  then have ne: "0 < tq_count q" by (metis length_greater_0_conv length_tq_list list.discI)
  with 7 have "x = tq_items q ! tq_head q"
    and "xs = tq_list (q\<lparr>tq_head := (tq_head q + 1) mod tq_capacity q, tq_count := tq_count q - 1\<rparr>)"
    using pop_list by auto
  with 7 ne show ?case
    using pop_inv [OF _ ne] by (auto simp: task_queue_pop_def)
next
  case (8 q) then show ?case by (simp add: tq_inv_def task_queue_shutdown_def)
next
  case (9 q) then show ?case by (simp add: tq_list_def task_queue_shutdown_def)
next
  case (10 q) then show ?case by (simp add: task_queue_shutdown_def)
next
  case (11 q) then show ?case by (simp add: task_queue_shutdown_def)
qed

section \<open>Properties\<close>

lemma init_inv_list:
  "task_queue_init capacity = Some q \<Longrightarrow> tq_inv q \<and> tq_list q = [] \<and> tq_capacity q = capacity"
  by (auto simp: task_queue_init_def tq_inv_def tq_list_def split: if_splits)

text \<open>
  C18. For any sequence of pushes, pops and a shutdown on a fresh queue of any capacity, the tasks
  that were popped followed by those still queued are exactly the tasks that were accepted, in
  order (none lost, duplicated or reordered while the indices wrap around), and the queue never
  holds more tasks than its capacity.
\<close>

theorem task_queue_fifo:
  assumes "task_queue_init capacity = Some q"
    and "run_ops task_queue_try_push task_queue_pop task_queue_shutdown ops q = (accepted, popped, q')"
  shows "accepted = popped @ tq_list q' \<and> task_queue_size q' = length (tq_list q') \<and>
    task_queue_size q' \<le> capacity \<and> tq_inv q'"
  using tq.run_fifo [OF _ assms(2)] init_inv_list [OF assms(1)] tq.bounded [of q']
  by (auto simp: task_queue_size_def)

theorem task_queue_fifo_witness:
  "\<exists>q q'. task_queue_init 2 = Some q \<and>
     run_ops task_queue_try_push task_queue_pop task_queue_shutdown
       [Push_Op \<lparr>client_fd = 4\<rparr>, Push_Op \<lparr>client_fd = 5\<rparr>, Push_Op \<lparr>client_fd = 6\<rparr>, Pop_Op,
        Push_Op \<lparr>client_fd = 7\<rparr>, Pop_Op] q =
       ([\<lparr>client_fd = 4\<rparr>, \<lparr>client_fd = 5\<rparr>, \<lparr>client_fd = 7\<rparr>], [\<lparr>client_fd = 4\<rparr>, \<lparr>client_fd = 5\<rparr>], q') \<and>
     tq_list q' = [\<lparr>client_fd = 7\<rparr>]"
proof -
  let ?ops = "[Push_Op \<lparr>client_fd = 4\<rparr>, Push_Op \<lparr>client_fd = 5\<rparr>, Push_Op \<lparr>client_fd = 6\<rparr>, Pop_Op,
        Push_Op \<lparr>client_fd = 7\<rparr>, Pop_Op]"
  obtain q where q: "task_queue_init 2 = Some q" by (simp add: task_queue_init_def)
  let ?q = "the (task_queue_init 2)"
  have "fst (run_ops task_queue_try_push task_queue_pop task_queue_shutdown ?ops ?q) =
      [\<lparr>client_fd = 4\<rparr>, \<lparr>client_fd = 5\<rparr>, \<lparr>client_fd = 7\<rparr>] \<and>
    fst (snd (run_ops task_queue_try_push task_queue_pop task_queue_shutdown ?ops ?q)) =
      [\<lparr>client_fd = 4\<rparr>, \<lparr>client_fd = 5\<rparr>]" by code_simp
  then obtain q' where r: "run_ops task_queue_try_push task_queue_pop task_queue_shutdown ?ops q =
      ([\<lparr>client_fd = 4\<rparr>, \<lparr>client_fd = 5\<rparr>, \<lparr>client_fd = 7\<rparr>], [\<lparr>client_fd = 4\<rparr>, \<lparr>client_fd = 5\<rparr>], q')"
    using q by (metis option.sel prod.collapse)
  from task_queue_fifo [OF q r] q r show ?thesis by auto
qed

end
