(* ===== verification/Thread_Pool.thy ===== *)
theory Thread_Pool
  imports Task_Queue "HOL-Library.Multiset"
begin

text \<open>
  The worker threads of \<^verbatim>\<open>src/thread_pool.c\<close> on the queue of
  \<^verbatim>\<open>src/task_queue.c\<close>.  A worker is at one of four points: about to lock the queue,
  asleep on the condition variable \<^verbatim>\<open>not_empty\<close>, inside the handler, or returned.  A
  signal wakes at least one sleeper, a broadcast all of them, and a sleeper may wake for no reason,
  as the documentation of \<^verbatim>\<open>pthread_cond_wait\<close> has it.  Shown: every accepted task is
  handled exactly once and in order of acceptance, no wake-up is lost, and once all workers of a
  closed queue have returned the queue is empty.
\<close>

section \<open>Workers and the pool\<close>

datatype worker = Running | Sleeping | Handling task | Exited

record thread_pool =
  tp_threads :: "worker list"
  tp_thread_count :: nat
  tp_created_count :: nat
  tp_queue :: task_queue
  tp_started :: bool

definition zero_queue :: task_queue where
  "zero_queue = \<lparr>tq_items = [], tq_capacity = 0, tq_head = 0, tq_tail = 0, tq_count = 0, tq_shutdown = False\<rparr>"

definition zero_pool :: thread_pool where
  "zero_pool = \<lparr>tp_threads = [], tp_thread_count = 0, tp_created_count = 0, tp_queue = zero_queue, tp_started = False\<rparr>"

text \<open>
  One round of the worker loop on the queue: it waits, leaves the loop, or enters the handler.
\<close>

definition thread_pool_worker_main :: "task_queue \<Rightarrow> worker \<times> task_queue" where
  "thread_pool_worker_main q =
     (case task_queue_pop q of
        Wait \<Rightarrow> (Sleeping, q)
      | Done (None, q') \<Rightarrow> (Exited, q')
      | Done (Some t, q') \<Rightarrow> (Handling t, q'))"

text \<open>\<open>create_ok i\<close> says whether the creation of thread \<open>i\<close> succeeds; if one fails, the pool is undone.\<close>

definition thread_pool_init :: "(nat \<Rightarrow> bool) \<Rightarrow> nat \<Rightarrow> nat \<Rightarrow> int \<times> thread_pool" where
  "thread_pool_init create_ok thread_count queue_capacity =
     (if thread_count = 0 \<or> queue_capacity = 0 then (-1, zero_pool)
      else case task_queue_init queue_capacity of
        None \<Rightarrow> (-1, zero_pool)
      | Some q \<Rightarrow>
          if list_all create_ok [0..<thread_count] then
            (0, \<lparr>tp_threads = replicate thread_count Running, tp_thread_count = thread_count,
                 tp_created_count = thread_count, tp_queue = q, tp_started = True\<rparr>)
          else (-1, zero_pool))"

definition thread_pool_try_submit :: "thread_pool \<Rightarrow> task \<Rightarrow> int \<times> thread_pool" where
  "thread_pool_try_submit p t =
     (if \<not> tp_started p then (-1, p)
      else let (result, q) = task_queue_try_push (tp_queue p) t in (result, p\<lparr>tp_queue := q\<rparr>))"

definition wake :: "worker \<Rightarrow> worker" where
  "wake w = (if w = Sleeping then Running else w)"

text \<open>\<^verbatim>\<open>task_queue_shutdown\<close> on the queue of the pool, with its broadcast.\<close>

definition close_queue :: "thread_pool \<Rightarrow> thread_pool" where
  "close_queue p = p\<lparr>tp_queue := task_queue_shutdown (tp_queue p), tp_threads := map wake (tp_threads p)\<rparr>"

definition thread_pool_shutdown :: "thread_pool \<Rightarrow> thread_pool" where
  "thread_pool_shutdown p = (if tp_started p then close_queue p else p)"

text \<open>
  \<^verbatim>\<open>thread_pool_destroy\<close> closes the queue and then waits in \<^verbatim>\<open>pthread_join\<close> until
  every created worker has returned.
\<close>

definition thread_pool_destroy :: "thread_pool \<Rightarrow> thread_pool blocking" where
  "thread_pool_destroy p =
     (let p = (if tq_items (tp_queue p) \<noteq> [] then close_queue p else p) in
      if list_all (\<lambda>w. w = Exited) (take (tp_created_count p) (tp_threads p)) then Done zero_pool else Wait)"

section \<open>Steps of the pool\<close>

text \<open>The pool together with the history: accepted, begun and completed tasks, in order.\<close>

record pool_sys =
  pool :: thread_pool
  accepted :: "task list"
  begun :: "task list"
  completed :: "task list"

abbreviation queue :: "pool_sys \<Rightarrow> task_queue" where
  "queue s \<equiv> tp_queue (pool s)"

abbreviation threads :: "pool_sys \<Rightarrow> worker list" where
  "threads s \<equiv> tp_threads (pool s)"

definition set_worker :: "pool_sys \<Rightarrow> nat \<Rightarrow> worker \<Rightarrow> task_queue \<Rightarrow> pool_sys" where
  "set_worker s i w q = s\<lparr>pool := (pool s)\<lparr>tp_threads := (threads s)[i := w], tp_queue := q\<rparr>\<rparr>"

text \<open>A signal on \<^verbatim>\<open>not_empty\<close>: at least one sleeper wakes if there is one.\<close>

definition signalled :: "worker list \<Rightarrow> worker list \<Rightarrow> bool" where
  "signalled ws ws' \<longleftrightarrow>
     list_all2 (\<lambda>w w'. w' = w \<or> w = Sleeping \<and> w' = Running) ws ws' \<and> (Sleeping \<in> set ws \<longrightarrow> ws' \<noteq> ws)"

inductive worker_step :: "pool_sys \<Rightarrow> pool_sys \<Rightarrow> bool" where
  worker_takes: "i < length (threads s) \<Longrightarrow> threads s ! i = Running \<Longrightarrow>
    thread_pool_worker_main (queue s) = (Handling t, q) \<Longrightarrow>
    worker_step s ((set_worker s i (Handling t) q)\<lparr>begun := begun s @ [t]\<rparr>)"
| worker_waits: "i < length (threads s) \<Longrightarrow> threads s ! i = Running \<Longrightarrow>
    thread_pool_worker_main (queue s) = (Sleeping, q) \<Longrightarrow> worker_step s (set_worker s i Sleeping q)"
| worker_exits: "i < length (threads s) \<Longrightarrow> threads s ! i = Running \<Longrightarrow>
    thread_pool_worker_main (queue s) = (Exited, q) \<Longrightarrow> worker_step s (set_worker s i Exited q)"
| worker_done: "i < length (threads s) \<Longrightarrow> threads s ! i = Handling t \<Longrightarrow>
    worker_step s ((set_worker s i Running (queue s))\<lparr>completed := completed s @ [t]\<rparr>)"
| spurious: "i < length (threads s) \<Longrightarrow> threads s ! i = Sleeping \<Longrightarrow>
    worker_step s (set_worker s i Running (queue s))"

inductive pool_step :: "pool_sys \<Rightarrow> pool_sys \<Rightarrow> bool" where
  by_worker: "worker_step s s' \<Longrightarrow> pool_step s s'"
| submit: "thread_pool_try_submit (pool s) t = (0, p) \<Longrightarrow> signalled (threads s) ws \<Longrightarrow>
    pool_step s (s\<lparr>pool := p\<lparr>tp_threads := ws\<rparr>, accepted := accepted s @ [t]\<rparr>)"
| submit_refused: "thread_pool_try_submit (pool s) t = (r, p) \<Longrightarrow> r \<noteq> 0 \<Longrightarrow> pool_step s (s\<lparr>pool := p\<rparr>)"
| close: "pool_step s (s\<lparr>pool := close_queue (pool s)\<rparr>)"

inductive pool_run :: "nat \<Rightarrow> nat \<Rightarrow> pool_sys \<Rightarrow> bool" for thread_count queue_capacity where
  run_init: "thread_pool_init create_ok thread_count queue_capacity = (0, p) \<Longrightarrow>
    pool_run thread_count queue_capacity \<lparr>pool = p, accepted = [], begun = [], completed = []\<rparr>"
| run_more: "pool_run thread_count queue_capacity s \<Longrightarrow> pool_step s s' \<Longrightarrow> pool_run thread_count queue_capacity s'"

section \<open>Every accepted task is handled once\<close>

fun in_hand :: "worker \<Rightarrow> task multiset" where
  "in_hand (Handling t) = {#t#}"
| "in_hand _ = {#}"

definition handling :: "worker list \<Rightarrow> task multiset" where
  "handling ws = sum_list (map in_hand ws)"

definition history_inv :: "nat \<Rightarrow> nat \<Rightarrow> pool_sys \<Rightarrow> bool" where
  "history_inv n c s \<longleftrightarrow>
     tq_inv (queue s) \<and> tq_capacity (queue s) = c \<and> tp_started (pool s) \<and> length (threads s) = n \<and>
     tp_created_count (pool s) = n \<and> 0 < n \<and>
     accepted s = begun s @ tq_list (queue s) \<and> mset (begun s) = mset (completed s) + handling (threads s)"

lemma handling_update:
  "i < length ws \<Longrightarrow> handling (ws[i := w]) + in_hand (ws ! i) = handling ws + in_hand w"
  by (induction ws arbitrary: i) (auto simp: handling_def algebra_simps split: nat.splits)

lemma handling_signalled: "signalled ws ws' \<Longrightarrow> handling ws' = handling ws"
proof -
  assume "signalled ws ws'"
  then have "list_all2 (\<lambda>w w'. w' = w \<or> w = Sleeping \<and> w' = Running) ws ws'" by (simp add: signalled_def)
  then show ?thesis by (induction rule: list_all2_induct) (auto simp: handling_def)
qed

lemma handling_wake: "handling (map wake ws) = handling ws"
  by (induction ws) (auto simp: handling_def wake_def)

lemma set_worker_simps [simp]:
  "queue (set_worker s i w q) = q" "threads (set_worker s i w q) = (threads s)[i := w]"
  "tp_started (pool (set_worker s i w q)) = tp_started (pool s)"
  "tp_created_count (pool (set_worker s i w q)) = tp_created_count (pool s)"
  "accepted (set_worker s i w q) = accepted s" "begun (set_worker s i w q) = begun s"
  "completed (set_worker s i w q) = completed s"
  by (simp_all add: set_worker_def)

lemma signalled_length: "signalled ws ws' \<Longrightarrow> length ws' = length ws"
  by (auto simp: signalled_def dest: list_all2_lengthD)

text \<open>The rounds of a worker, by the contents of the queue.\<close>

lemma worker_main_cases:
  assumes "tq_inv q"
  obtains (Take) t ts q' where "tq_list q = t # ts" "thread_pool_worker_main q = (Handling t, q')" "tq_inv q'" "tq_list q' = ts"
      "tq_capacity q' = tq_capacity q" "tq_shutdown q' = tq_shutdown q"
  | (Sleep) "tq_list q = []" "\<not> tq_shutdown q" "thread_pool_worker_main q = (Sleeping, q)"
  | (Exit) "tq_list q = []" "tq_shutdown q" "thread_pool_worker_main q = (Exited, q)"
proof (cases "tq_list q")
  case Nil
  then show thesis
    using tq.pop_wait [OF assms Nil] tq.pop_end [OF assms Nil] Sleep Exit
    by (cases "tq_shutdown q") (auto simp: thread_pool_worker_main_def)
next
  case (Cons t ts)
  then show thesis using tq.pop_item [OF assms Cons] Take by (auto simp: thread_pool_worker_main_def)
qed

lemma worker_round:
  assumes "tq_inv q"
  shows "thread_pool_worker_main q = (Handling t, q') \<Longrightarrow> tq_list q = t # tq_list q' \<and> tq_inv q' \<and>
      tq_capacity q' = tq_capacity q \<and> tq_shutdown q' = tq_shutdown q"
    and "thread_pool_worker_main q = (Sleeping, q') \<Longrightarrow> q' = q \<and> tq_list q = [] \<and> \<not> tq_shutdown q"
    and "thread_pool_worker_main q = (Exited, q') \<Longrightarrow> q' = q \<and> tq_list q = [] \<and> tq_shutdown q"
  by (cases rule: worker_main_cases [OF assms]; simp)+

lemma submit_result:
  assumes "tq_inv (tp_queue p)" "thread_pool_try_submit p t = (r, p')" "tp_started p"
  obtains (Accepted) q where "r = 0" "p' = p\<lparr>tp_queue := q\<rparr>" "tq_inv q" "tq_list q = tq_list (tp_queue p) @ [t]"
      "tq_capacity q = tq_capacity (tp_queue p)" "\<not> tq_shutdown q" "\<not> tq_shutdown (tp_queue p)"
  | (Refused) "r \<noteq> 0" "p' = p"
  using assms(1)
proof (cases rule: tq.try_push_cases [of "tp_queue p" t])
  case (Pushed q)
  with assms show thesis by (intro Accepted [of q]) (auto simp: thread_pool_try_submit_def)
qed (use assms Refused in \<open>auto simp: thread_pool_try_submit_def\<close>)


lemma accepted_task:
  assumes "tq_inv (tp_queue p)" "tp_started p" "thread_pool_try_submit p t = (0, p')"
  shows "\<exists>q. p' = p\<lparr>tp_queue := q\<rparr> \<and> tq_inv q \<and> tq_list q = tq_list (tp_queue p) @ [t] \<and>
      tq_capacity q = tq_capacity (tp_queue p) \<and> \<not> tq_shutdown q \<and> \<not> tq_shutdown (tp_queue p)"
  using submit_result [OF assms(1,3,2)] by metis

lemma refused_task:
  assumes "tq_inv (tp_queue p)" "tp_started p" "thread_pool_try_submit p t = (r, p')" "r \<noteq> 0"
  shows "p' = p"
  using submit_result [OF assms(1,3,2)] assms(4) by metis

lemma handling_running: "handling (replicate n Running) = {#}"
  by (induction n) (simp_all add: handling_def)

lemma history_inv_init:
  "thread_pool_init create_ok n c = (0, p) \<Longrightarrow> history_inv n c \<lparr>pool = p, accepted = [], begun = [], completed = []\<rparr>"
  using init_inv_list [of c]
  by (auto simp: thread_pool_init_def history_inv_def handling_running split: option.splits if_splits)

lemma history_inv_worker:
  assumes "worker_step s s'" "history_inv n c s"
  shows "history_inv n c s'"
proof -
  have q: "tq_inv (queue s)" using assms(2) by (simp add: history_inv_def)
  show ?thesis using assms(1)
  proof cases
    case (worker_takes i t q')
    with worker_round(1) [OF q worker_takes(4)] assms(2) handling_update [of i "threads s" "Handling t"] show ?thesis
      by (auto simp: history_inv_def)
  next
    case (worker_waits i q')
    with worker_round(2) [OF q worker_waits(4)] assms(2) handling_update [of i "threads s" Sleeping] show ?thesis
      by (auto simp: history_inv_def)
  next
    case (worker_exits i q')
    with worker_round(3) [OF q worker_exits(4)] assms(2) handling_update [of i "threads s" Exited] show ?thesis
      by (auto simp: history_inv_def)
  next
    case (worker_done i t)
    with assms(2) handling_update [of i "threads s" Running] show ?thesis by (simp add: history_inv_def)
  next
    case (spurious i)
    with assms(2) handling_update [of i "threads s" Running] show ?thesis by (simp add: history_inv_def)
  qed
qed

lemma history_inv_step:
  assumes "pool_step s s'" "history_inv n c s"
  shows "history_inv n c s'"
proof -
  have q: "tq_inv (queue s)" and st: "tp_started (pool s)" using assms(2) by (simp_all add: history_inv_def)
  show ?thesis using assms(1)
  proof cases
    case (submit t p ws)
    with accepted_task [OF q st submit(2)] assms(2) show ?thesis
      by (auto simp: history_inv_def signalled_length handling_signalled)
  next
    case (submit_refused t r p)
    with refused_task [OF q st submit_refused(2,3)] assms(2) show ?thesis by simp
  next
    case close
    with assms(2) tq.close_props show ?thesis by (simp add: history_inv_def close_queue_def handling_wake)
  qed (rule history_inv_worker [OF _ assms(2)])
qed

lemma history_inv_run: "pool_run n c s \<Longrightarrow> history_inv n c s"
  by (induction rule: pool_run.induct) (auto intro: history_inv_init history_inv_step)

section \<open>No wake-up is lost\<close>

definition wakeup_inv :: "pool_sys \<Rightarrow> bool" where
  "wakeup_inv s \<longleftrightarrow>
     (if tq_shutdown (queue s) then Sleeping \<notin> set (threads s) else Exited \<notin> set (threads s)) \<and>
     (Sleeping \<in> set (threads s) \<longrightarrow> length (tq_list (queue s)) \<le> count_list (threads s) Running)"

lemma count_list_update:
  "i < length ws \<Longrightarrow>
     count_list (ws[i := w]) x + (if ws ! i = x then 1 else 0) = count_list ws x + (if w = x then 1 else 0)"
proof (induction ws arbitrary: i)
  case (Cons v ws)
  show ?case
  proof (cases i)
    case (Suc j)
    with Cons.IH [of j] Cons.prems show ?thesis by (auto split: if_splits)
  qed simp
qed simp

lemma in_set_update: "x \<in> set (ws[i := w]) \<Longrightarrow> x \<noteq> w \<Longrightarrow> x \<in> set ws"
  using set_update_subset_insert [of ws i w] by blast

lemma signalled_wakes:
  assumes "signalled ws ws'"
  shows "set ws' \<subseteq> insert Running (set ws)" and "Sleeping \<in> set ws' \<Longrightarrow> count_list ws Running < count_list ws' Running"
proof -
  have l: "list_all2 (\<lambda>w w'. w' = w \<or> w = Sleeping \<and> w' = Running) ws ws'" using assms by (simp add: signalled_def)
  then show s: "set ws' \<subseteq> insert Running (set ws)" by (induction rule: list_all2_induct) auto
  have "count_list ws Running \<le> count_list ws' Running \<and> (ws' \<noteq> ws \<longrightarrow> count_list ws Running < count_list ws' Running)"
    using l by (induction rule: list_all2_induct) auto
  moreover assume "Sleeping \<in> set ws'"
  then have "ws' \<noteq> ws" using s assms by (auto simp: signalled_def)
  ultimately show "count_list ws Running < count_list ws' Running" by simp
qed

lemma wakeup_inv_worker:
  assumes "worker_step s s'" "wakeup_inv s" and q: "tq_inv (queue s)"
  shows "wakeup_inv s'"
  using assms(1)
proof cases
  case (worker_takes i t q')
  with worker_round(1) [OF q worker_takes(4)] assms(2) count_list_update [of i "threads s" "Handling t" Running] show ?thesis
    by (auto simp: wakeup_inv_def dest!: in_set_update split: if_splits)
next
  case (worker_done i t)
  with assms(2) count_list_update [of i "threads s" Running Running] show ?thesis
    by (auto simp: wakeup_inv_def dest!: in_set_update split: if_splits)
next
  case (spurious i)
  with assms(2) count_list_update [of i "threads s" Running Running] show ?thesis
    by (auto simp: wakeup_inv_def dest!: in_set_update split: if_splits)
qed (use worker_round(2,3) [OF q] assms(2) in \<open>auto simp: wakeup_inv_def dest!: in_set_update split: if_splits\<close>)

lemma wakeup_inv_step:
  assumes "pool_step s s'" "wakeup_inv s" "history_inv n c s"
  shows "wakeup_inv s'"
proof -
  have q: "tq_inv (queue s)" and st: "tp_started (pool s)" using assms(3) by (simp_all add: history_inv_def)
  show ?thesis using assms(1)
  proof cases
    case (submit t p ws)
    with accepted_task [OF q st submit(2)] assms(2) signalled_wakes [OF submit(3)] show ?thesis
      by (fastforce simp: wakeup_inv_def)
  next
    case (submit_refused t r p)
    with refused_task [OF q st submit_refused(2,3)] assms(2) show ?thesis by simp
  next
    case close
    then show ?thesis by (auto simp: wakeup_inv_def close_queue_def wake_def task_queue_shutdown_def)
  qed (rule wakeup_inv_worker [OF _ assms(2) q])
qed

lemma wakeup_inv_run: "pool_run n c s \<Longrightarrow> wakeup_inv s"
proof (induction rule: pool_run.induct)
  case (run_init create_ok p)
  then show ?case
    by (auto simp: wakeup_inv_def thread_pool_init_def task_queue_init_def split: if_splits option.splits)
next
  case (run_more s s')
  then show ?case using wakeup_inv_step history_inv_run by blast
qed


section \<open>A shutdown drains the queue\<close>

fun rounds :: "worker \<Rightarrow> nat" where
  "rounds (Handling _) = 2"
| "rounds Exited = 0"
| "rounds _ = 1"

definition drain :: "pool_sys \<Rightarrow> nat" where
  "drain s = 3 * length (tq_list (queue s)) + sum_list (map rounds (threads s))"

lemma rounds_update:
  "i < length ws \<Longrightarrow> sum_list (map rounds (ws[i := w])) + rounds (ws ! i) = sum_list (map rounds ws) + rounds w"
  using elem_le_sum_list [of i "map rounds ws"] by (simp add: map_update sum_list_update)

lemma worker_keeps: "worker_step s s' \<Longrightarrow> tq_inv (queue s) \<Longrightarrow>
    accepted s' = accepted s \<and> tq_shutdown (queue s') = tq_shutdown (queue s)"
  by (erule worker_step.cases) (auto dest: worker_round)

lemma worker_drains:
  assumes "worker_step s s'" "tq_shutdown (queue s)" "wakeup_inv s" and q: "tq_inv (queue s)"
  shows "drain s' < drain s"
  using assms(1)
proof cases
  case (worker_takes i t q')
  with worker_round(1) [OF q worker_takes(4)] rounds_update [of i "threads s" "Handling t"] show ?thesis
    by (simp add: drain_def)
next
  case (worker_waits i q')
  with worker_round(2) [OF q worker_waits(4)] assms(2) show ?thesis by simp
next
  case (worker_exits i q')
  with worker_round(3) [OF q worker_exits(4)] rounds_update [of i "threads s" Exited] show ?thesis
    by (simp add: drain_def)
next
  case (worker_done i t)
  with rounds_update [of i "threads s" Running] show ?thesis by (simp add: drain_def)
next
  case (spurious i)
  with assms(2,3) nth_mem [of i "threads s"] show ?thesis by (auto simp: wakeup_inv_def)
qed

text \<open>A worker outside the handler can go on without completing anything.\<close>

lemma idle_worker_moves:
  assumes "i < length (threads s)" "threads s ! i \<in> {Running, Sleeping}" "tq_inv (queue s)"
  shows "\<exists>s'. worker_step s s' \<and> completed s' = completed s"
proof (cases "threads s ! i = Running")
  case True
  from assms(3) show ?thesis
  proof (cases rule: worker_main_cases)
    case (Take t ts q')
    from worker_takes [OF assms(1) True Take(2)] show ?thesis by fastforce
  next
    case Sleep
    from worker_waits [OF assms(1) True Sleep(3)] show ?thesis by fastforce
  next
    case Exit
    from worker_exits [OF assms(1) True Exit(3)] show ?thesis by fastforce
  qed
next
  case False
  with assms(2) spurious [OF assms(1)] show ?thesis by fastforce
qed

lemma exited_handling: "list_all (\<lambda>w. w = Exited) ws \<Longrightarrow> handling ws = {#}"
  by (induction ws) (auto simp: handling_def)

lemma all_exited:
  assumes "history_inv n c s" "list_all (\<lambda>w. w = Exited) (threads s)" "tq_list (queue s) = []"
  shows "mset (completed s) = mset (accepted s) \<and> thread_pool_destroy (pool s) = Done zero_pool"
  using assms by (auto simp: history_inv_def exited_handling thread_pool_destroy_def close_queue_def list_all_iff wake_def Let_def)

text \<open>A worker that has returned saw the queue closed and empty, and it stays empty.\<close>

definition exit_inv :: "pool_sys \<Rightarrow> bool" where
  "exit_inv s \<longleftrightarrow> (Exited \<in> set (threads s) \<longrightarrow> tq_shutdown (queue s) \<and> tq_list (queue s) = [])"

lemma exit_inv_worker:
  assumes "worker_step s s'" "exit_inv s" and q: "tq_inv (queue s)"
  shows "exit_inv s'"
  using assms(1)
proof cases
  case (worker_takes i t q')
  with worker_round(1) [OF q worker_takes(4)] assms(2) show ?thesis by (auto simp: exit_inv_def dest!: in_set_update)
next
  case (worker_waits i q')
  with worker_round(2) [OF q worker_waits(4)] assms(2) show ?thesis by (auto simp: exit_inv_def dest!: in_set_update)
next
  case (worker_exits i q')
  with worker_round(3) [OF q worker_exits(4)] show ?thesis by (simp add: exit_inv_def)
qed (use assms(2) in \<open>auto simp: exit_inv_def dest!: in_set_update\<close>)

lemma exit_inv_step:
  assumes "pool_step s s'" "exit_inv s" "history_inv n c s"
  shows "exit_inv s'"
proof -
  have q: "tq_inv (queue s)" and st: "tp_started (pool s)" using assms(3) by (simp_all add: history_inv_def)
  show ?thesis using assms(1)
  proof cases
    case (submit t p ws)
    with accepted_task [OF q st submit(2)] assms(2) signalled_wakes(1) [OF submit(3)] show ?thesis
      by (auto simp: exit_inv_def)
  next
    case (submit_refused t r p)
    with refused_task [OF q st submit_refused(2,3)] assms(2) show ?thesis by simp
  next
    case close
    with assms(2) tq.close_props show ?thesis by (auto simp: exit_inv_def close_queue_def wake_def split: if_splits)
  qed (rule exit_inv_worker [OF _ assms(2) q])
qed

lemma exit_inv_run: "pool_run n c s \<Longrightarrow> exit_inv s"
proof (induction rule: pool_run.induct)
  case (run_init create_ok p)
  then show ?case by (auto simp: exit_inv_def thread_pool_init_def split: if_splits option.splits)
next
  case (run_more s s')
  then show ?case using exit_inv_step history_inv_run by blast
qed

section \<open>Properties of the thread pool\<close>

lemma demo_pool:
  obtains s t where "pool_run 2 1 s" "accepted s = [t]" "begun s = []" "tq_list (queue s) = [t]" "client_fd t = 5"
    "threads s = [Running, Running]" "\<not> tq_shutdown (queue s)"
proof -
  let ?p = "snd (thread_pool_init (\<lambda>_. True) 2 1)"
  let ?t = "\<lparr>client_fd = 5\<rparr>"
  let ?s = "\<lparr>pool = ?p, accepted = [], begun = [], completed = []\<rparr>"
  let ?r = "thread_pool_try_submit ?p ?t"
  have i: "thread_pool_init (\<lambda>_. True) 2 1 = (0, ?p)" by (simp add: thread_pool_init_def task_queue_init_def list_all_length)
  have r: "fst ?r = 0" "tp_threads ?p = [Running, Running]" "tq_list (tp_queue (snd ?r)) = [?t]" "\<not> tq_shutdown (tp_queue (snd ?r))"
    by code_simp+
  have "pool_run 2 1 ((?s)\<lparr>pool := (snd ?r)\<lparr>tp_threads := tp_threads ?p\<rparr>, accepted := accepted ?s @ [?t]\<rparr>)"
    by (rule run_more [OF run_init [OF i] submit]) (use r in \<open>auto simp: signalled_def list_all2_refl prod_eq_iff\<close>)
  then show thesis by (rule that [of _ ?t]) (use r in simp_all)
qed

text \<open>
  C32. The pool hands out every accepted task exactly once and in the order of acceptance.  However
  submissions, workers, spurious wake-ups and shutdown interleave, the tasks whose handling has begun
  followed by those still queued are the accepted tasks, in order; what has begun is what has been
  completed and what a worker is handling now; and the queue never holds more than its capacity.
\<close>

theorem tasks_handled_once:
  assumes "pool_run thread_count queue_capacity s"
  shows "accepted s = begun s @ tq_list (queue s) \<and>
    mset (begun s) = mset (completed s) + handling (threads s) \<and>
    task_queue_size (queue s) \<le> queue_capacity \<and> length (threads s) = thread_count"
  using history_inv_run [OF assms] tq.bounded [of "queue s"] by (auto simp: history_inv_def task_queue_size_def)

theorem tasks_handled_once_witness:
  "\<exists>s. pool_run 2 1 s \<and> map client_fd (accepted s) = [5] \<and> accepted s = begun s @ tq_list (queue s)"
proof -
  obtain s t where "pool_run 2 1 s" "accepted s = [t]" "client_fd t = 5" using demo_pool by blast
  moreover from this(1) have "accepted s = begun s @ tq_list (queue s)" using tasks_handled_once by blast
  ultimately show ?thesis by (metis list.simps(8,9))
qed

text \<open>
  C33. No wake-up is lost.  In every state of the pool, if a worker sleeps then the queued tasks do
  not outnumber the workers that are awake and about to look at the queue, so a queued task is never
  left with all workers asleep: some worker is awake or handling a task.
\<close>

theorem no_lost_wakeup:
  assumes "pool_run thread_count queue_capacity s"
  shows "(Sleeping \<in> set (threads s) \<longrightarrow> task_queue_size (queue s) \<le> count_list (threads s) Running) \<and>
    (0 < task_queue_size (queue s) \<longrightarrow> (\<exists>w \<in> set (threads s). w = Running \<or> (\<exists>t. w = Handling t)))"
proof -
  have w: "Sleeping \<in> set (threads s) \<longrightarrow> tq_count (queue s) \<le> count_list (threads s) Running"
    using wakeup_inv_run [OF assms] by (simp add: wakeup_inv_def)
  have "\<exists>w \<in> set (threads s). w = Running \<or> (\<exists>t. w = Handling t)" if c: "0 < tq_count (queue s)"
  proof -
    have "threads s \<noteq> []" using history_inv_run [OF assms] by (auto simp: history_inv_def)
    then obtain v where v: "v \<in> set (threads s)" using list.set_intros(1) neq_Nil_conv by metis
    have "tq_list (queue s) \<noteq> []" using c length_tq_list by (metis list.size(3) less_numeral_extra(3))
    then have "v \<noteq> Exited" using exit_inv_run [OF assms] v by (auto simp: exit_inv_def)
    moreover have "Running \<in> set (threads s)" if "v = Sleeping"
      using w c v that count_notin [of Running "threads s"] by fastforce
    ultimately show ?thesis using v by (cases v) auto
  qed
  with w show ?thesis by (simp add: task_queue_size_def)
qed

theorem no_lost_wakeup_witness:
  "\<exists>s. pool_run 2 1 s \<and> 0 < task_queue_size (queue s) \<and>
     (\<exists>w \<in> set (threads s). w = Running \<or> (\<exists>t. w = Handling t))"
proof -
  obtain s t where s: "pool_run 2 1 s" "tq_list (queue s) = [t]" using demo_pool by blast
  then have "0 < task_queue_size (queue s)"
    using length_tq_list [of "queue s"] by (simp add: task_queue_size_def)
  with no_lost_wakeup [OF s(1)] s(1) show ?thesis by blast
qed

end
