(* ===== verification/Server.thy ===== *)
theory Server
  imports Http Json_Parser Db_Lock Thread_Pool
begin

text \<open>
  The server of \<^verbatim>\<open>src/server.c\<close> and \<^verbatim>\<open>src/server_main.c\<close>: its command line,
  start, release and main program, the accept loop that hands connections to the thread pool, and the handler that turns
  the bytes of one connection into a response.  Shown: every request is answered with a known status,
  a query is executed and its result returned, and every accepted connection reaches one worker or is
  refused at once.
\<close>

section \<open>Command line and start\<close>

record server_config =
  cfg_db_dir :: "string option"
  cfg_port :: int
  cfg_thread_count :: nat
  cfg_queue_capacity :: nat

definition parse_int_arg :: "string \<Rightarrow> int \<Rightarrow> int \<Rightarrow> int option" where
  "parse_int_arg txt_arg min_value max_value =
     (if txt_arg = [] then None
      else let (parsed, rest) = strtol txt_arg
           in if rest \<noteq> [] \<or> parsed < min_value \<or> parsed > max_value then None else Some parsed)"

definition parse_size_arg :: "string \<Rightarrow> nat option" where
  "parse_size_arg txt_arg =
     (if txt_arg = [] then None
      else let (parsed, rest) = strtoull txt_arg
           in if rest \<noteq> [] \<or> parsed = 0 then None else Some (unat parsed))"

definition default_config :: server_config where
  "default_config = \<lparr>cfg_db_dir = None, cfg_port = 8080, cfg_thread_count = 4, cfg_queue_capacity = 64\<rparr>"

datatype server_args = Args_error | Args_help | Args_config server_config

text \<open>The loop over \<^verbatim>\<open>argv\<close> after the program name.\<close>

fun server_args_loop :: "server_config \<Rightarrow> string list \<Rightarrow> server_args" where
  "server_args_loop cfg [] = (if cfg_db_dir cfg = None then Args_error else Args_config cfg)"
| "server_args_loop cfg (a # rest) =
     (if is_option a ''-h'' ''--help'' then Args_help
      else case rest of
        [] \<Rightarrow> Args_error
      | v # more_args \<Rightarrow>
          if is_option a ''-d'' ''--db'' then server_args_loop (cfg\<lparr>cfg_db_dir := Some v\<rparr>) more_args
          else if is_option a ''-p'' ''--port'' then
            (case parse_int_arg v 1 65535 of
               None \<Rightarrow> Args_error
             | Some p \<Rightarrow> server_args_loop (cfg\<lparr>cfg_port := p\<rparr>) more_args)
          else if is_option a ''-t'' ''--threads'' then
            (case parse_size_arg v of
               None \<Rightarrow> Args_error
             | Some n \<Rightarrow> server_args_loop (cfg\<lparr>cfg_thread_count := n\<rparr>) more_args)
          else if is_option a ''-q'' ''--queue-size'' then
            (case parse_size_arg v of
               None \<Rightarrow> Args_error
             | Some n \<Rightarrow> server_args_loop (cfg\<lparr>cfg_queue_capacity := n\<rparr>) more_args)
          else Args_error)"

definition parse_server_args :: "string list \<Rightarrow> server_args" where
  "parse_server_args args = server_args_loop default_config args"

text \<open>
  The outcomes of the system calls of the start; a thread may fail to be created.  A start that fails
  releases what it had acquired and reports why.
\<close>

record system_calls =
  sc_rwlock_init :: bool
  sc_socket :: int
  sc_setsockopt :: bool
  sc_bind :: bool
  sc_listen :: bool
  sc_thread :: "nat \<Rightarrow> bool"
  sc_strerror :: string

record server =
  srv_config :: server_config
  srv_listen_fd :: int
  srv_pool :: thread_pool
  srv_db_api :: "execution_context option"

definition set_errno_error :: "string \<Rightarrow> string \<Rightarrow> string" where
  "set_errno_error message err_text = set_error (message @ '': '' @ err_text)"

definition server_init :: "system_calls \<Rightarrow> server_config \<Rightarrow> string + server" where
  "server_init sc cfg =
     (case cfg_db_dir cfg of
        None \<Rightarrow> Inl ''invalid server configuration''
      | Some db_dir \<Rightarrow>
          if cfg_thread_count cfg = 0 \<or> cfg_queue_capacity cfg = 0 \<or> cfg_port cfg \<le> 0 \<or> cfg_port cfg > 65535
          then Inl ''invalid server configuration''
          else if db_api_init (sc_rwlock_init sc) db_dir = None then Inl ''failed to initialize database adapter''
          else if sc_socket sc < 0 then Inl (set_errno_error ''failed to create listen socket'' (sc_strerror sc))
          else if \<not> sc_setsockopt sc then Inl (set_errno_error ''failed to set SO_REUSEADDR'' (sc_strerror sc))
          else if \<not> sc_bind sc then Inl (set_errno_error ''failed to bind listen socket'' (sc_strerror sc))
          else if \<not> sc_listen sc then Inl (set_errno_error ''failed to listen on socket'' (sc_strerror sc))
          else case thread_pool_init (sc_thread sc) (cfg_thread_count cfg) (cfg_queue_capacity cfg) of
            (r, p) \<Rightarrow>
              if r \<noteq> 0 then Inl ''failed to initialize thread pool''
              else Inr \<lparr>srv_config = cfg, srv_listen_fd = sc_socket sc, srv_pool = p,
                        srv_db_api = db_api_init (sc_rwlock_init sc) db_dir\<rparr>)"

text \<open>
  \<^verbatim>\<open>server_destroy\<close> closes the listening socket, waits for the workers and frees the engine.
\<close>

definition server_destroy :: "server \<Rightarrow> (addr list list \<times> server) result blocking" where
  "server_destroy srv =
     (case thread_pool_destroy (srv_pool srv) of
        Wait \<Rightarrow> Wait
      | Done p \<Rightarrow> Done
          (case db_api_destroy (srv_db_api srv) of
             Inl e \<Rightarrow> Inl e
           | Inr (freed, api) \<Rightarrow> Inr (freed, srv\<lparr>srv_listen_fd := -1, srv_pool := p, srv_db_api := api\<rparr>)))"

section \<open>The main program\<close>

definition print_server_usage :: "string \<Rightarrow> string" where
  "print_server_usage program_name =
     ''Usage: '' @ program_name @ '' -d <db_dir> [-p <port>] [-t <threads>] [-q <queue_size>]'' @ [LF] @
     ''       '' @ program_name @ '' --db <db_dir> [--port <port>] [--threads <threads>] [--queue-size <queue_size>]'' @ [LF] @
     ''       '' @ program_name @ '' -h | --help'' @ [LF]"

text \<open>Exit code, standard output and standard error.\<close>

type_synonym exit_report = "int \<times> string \<times> string"

definition exit_failure :: "string \<Rightarrow> exit_report" where
  "exit_failure errbuf = (1, [], if errbuf = [] then [] else errbuf @ [LF])"

text \<open>
  \<^verbatim>\<open>main\<close> up to the accept loop, which it reaches with a running server, and from the end of
  the loop, which always ends with an error message.
\<close>

definition server_main :: "string \<Rightarrow> string list \<Rightarrow> system_calls \<Rightarrow> exit_report + server" where
  "server_main program_name args sc =
     (case parse_server_args args of
        Args_error \<Rightarrow> Inl (1, print_server_usage program_name, [])
      | Args_help \<Rightarrow> Inl (0, print_server_usage program_name, [])
      | Args_config cfg \<Rightarrow>
          (case server_init sc cfg of
             Inl errbuf \<Rightarrow> Inl (exit_failure errbuf)
           | Inr srv \<Rightarrow> Inr srv))"

definition server_main_end :: "string \<Rightarrow> server \<Rightarrow> (addr list list \<times> exit_report) result blocking" where
  "server_main_end errbuf srv =
     (case server_destroy srv of
        Wait \<Rightarrow> Wait
      | Done (Inl e) \<Rightarrow> Done (Inl e)
      | Done (Inr (freed, _)) \<Rightarrow> Done (Inr (freed, exit_failure errbuf)))"

section \<open>Handling one connection\<close>

text \<open>Status and body of the response to a request; none if the engine would not return.\<close>

type_synonym reply = "int \<times> string"

definition error_reply :: "int \<Rightarrow> string \<Rightarrow> string \<Rightarrow> string \<Rightarrow> reply" where
  "error_reply status_code error_code errbuf default_msg = (status_code, error_body error_code (message_or errbuf default_msg))"

fun read_failure :: "http_read_status \<times> string \<Rightarrow> reply" where
  "read_failure (HTTP_READ_PAYLOAD_TOO_LARGE, m) = error_reply 413 ''PAYLOAD_TOO_LARGE'' m ''request body too large''"
| "read_failure (HTTP_READ_INTERNAL_ERROR, m) = error_reply 500 ''INTERNAL_ERROR'' m ''internal server error''"
| "read_failure (HTTP_READ_BAD_REQUEST, m) = error_reply 400 ''BAD_REQUEST'' m ''bad request''"

fun json_failure :: "json_field_status \<times> string \<Rightarrow> reply" where
  "json_failure (JSON_FIELD_MISSING_FIELD, m) = error_reply 400 ''MISSING_SQL_FIELD'' m ''missing sql field''"
| "json_failure (JSON_FIELD_INTERNAL_ERROR, m) = error_reply 500 ''INTERNAL_ERROR'' m ''internal server error''"
| "json_failure (_, m) = error_reply 400 ''INVALID_JSON'' m ''invalid json''"

definition health_body :: string where
  "health_body = ''{'' @ json_key ''success'' @ ''true,'' @ json_key ''service'' @ [DQUOTE] @ ''mini_db_server'' @ [DQUOTE] @ ''}''"

definition route_request ::
  "bool \<Rightarrow> bool \<Rightarrow> execution_context \<Rightarrow> fs \<Rightarrow> http_request \<Rightarrow> reply option \<times> execution_context \<times> fs" where
  "route_request lock1 lock2 ctx fs req =
     (if path req = ''/health'' then
        (Some (if http_method req \<noteq> ''GET'' then error_reply 405 ''METHOD_NOT_ALLOWED'' [] ''only GET is allowed for /health''
               else (200, health_body)), ctx, fs)
      else if path req = ''/query'' then
        (if http_method req \<noteq> ''POST'' then
           (Some (error_reply 405 ''METHOD_NOT_ALLOWED'' [] ''only POST is allowed for /query''), ctx, fs)
         else case json_extract_string_field (body req) ''sql'' of
           Inl e \<Rightarrow> (Some (json_failure e), ctx, fs)
         | Inr sql \<Rightarrow>
             (case db_api_execute_sql lock1 lock2 ctx sql fs of
                (resp, ctx', fs') \<Rightarrow> (map_option (\<lambda>r. (int (resp_http r), resp_json r)) resp, ctx', fs')))
      else (Some (error_reply 404 ''NOT_FOUND'' [] ''route not found''), ctx, fs))"

text \<open>
  The handler on the events of its socket: the bytes sent and whether they all were.  The result of
  sending is ignored by the code, which closes the socket in any case.
\<close>

definition server_handle_client_task ::
  "bool \<Rightarrow> bool \<Rightarrow> execution_context \<Rightarrow> fs \<Rightarrow> recv_event list \<Rightarrow> send_event list \<Rightarrow>
     (string \<times> bool \<times> send_event list) option \<times> execution_context \<times> fs" where
  "server_handle_client_task lock1 lock2 ctx fs es ses =
     (case http_read_request es of
        Inl e \<Rightarrow> (case read_failure e of (status_code, b) \<Rightarrow> (Some (http_send_json_response status_code b ses), ctx, fs))
      | Inr req \<Rightarrow>
          (case route_request lock1 lock2 ctx fs req of
             (r, ctx', fs') \<Rightarrow>
               (map_option (\<lambda>(status_code, b). http_send_json_response status_code b ses) r, ctx', fs')))"


section \<open>Every request is answered\<close>

definition good_reply :: "reply \<Rightarrow> bool" where
  "good_reply r \<longleftrightarrow> fst r \<in> status_codes \<and> (\<exists>v. snd r = json_text v)"

lemma error_body_json: "error_body error_code msg = json_text (error_value error_code msg)"
  using error_json [of error_code msg] by (simp add: error_body_def make_error_json_def json_key_def)

lemma good_error_reply: "status_code \<in> status_codes \<Longrightarrow> good_reply (error_reply status_code error_code m d)"
  by (auto simp: good_reply_def error_reply_def error_body_json)

lemma codes [simp]: "200 \<in> status_codes" "400 \<in> status_codes" "404 \<in> status_codes" "405 \<in> status_codes"
  "413 \<in> status_codes" "500 \<in> status_codes" "503 \<in> status_codes"
  by (simp_all add: status_codes_def)

lemma good_failures: "good_reply (read_failure e)" "good_reply (json_failure j)"
  by (cases e rule: read_failure.cases; simp add: good_error_reply)
    (cases j rule: json_failure.cases; simp add: good_error_reply)

lemma good_health: "good_reply (200, health_body)"
proof -
  have "plain ''service''" "plain ''mini_db_server''" by (simp_all add: plain_def DQUOTE_def BSLASH_def code_def)
  then have "health_body = json_text (Jobject [(''success'', Jbool True), (''service'', Jstring ''mini_db_server'')])"
    by (simp add: health_body_def json_key_def separated_def name_texts plain_text)
  then have "\<exists>v. health_body = json_text v" by (rule exI)
  then show ?thesis by (simp add: good_reply_def)
qed

definition api_reply :: "api_response \<Rightarrow> reply" where
  "api_reply r = (int (resp_http r), resp_json r)"

lemma good_error_response: "int http \<in> status_codes \<Longrightarrow> good_reply (api_reply (error_response st http c m))"
  by (auto simp: good_reply_def api_reply_def error_response_def error_json)

lemma good_refusal: "db_api_parse sql = Inl r \<Longrightarrow> good_reply (api_reply r)"
proof -
  have "good_reply (api_reply (parse_failure m e))" for m e by (cases e) (simp_all add: good_error_response)
  then show "db_api_parse sql = Inl r \<Longrightarrow> ?thesis"
    by (auto simp: db_api_parse_def empty_query_def good_error_response Let_def split: sum.splits if_splits prod.splits)
qed

lemma engine_http: "int (fst (map_engine_status k)) \<in> status_codes"
  by (cases k) (simp_all add: map_engine_status_def)

lemma good_answer: "answers res resp \<Longrightarrow> \<exists>r. resp = Some r \<and> good_reply (api_reply r)"
  by (auto simp: answers_def good_reply_def api_reply_def engine_http split: sum.splits)

lemma good_lock_error: "good_reply (api_reply make_lock_error)"
  by (simp add: make_lock_error_def good_error_response)

lemma statement_answered:
  assumes "reachable db_dir fs0 ctx fs" "db_ok fs0 db_dir" "statement_ok st" "execute_statement ctx st fs = (res, ctx', fs')"
  shows "(\<exists>r. engine_response res = Some r \<and> good_reply (api_reply r)) \<and> reachable db_dir fs0 ctx' fs'"
proof -
  have "fails_with engine_errors res"
    using execute_statement_fails [of fs ctx st] reachable_inv [OF assms(1,2)] assms(3,4) by force
  then show ?thesis using good_answer answers_response reach_step [OF assms(1,3,4)] by blast
qed

lemma query_answered:
  assumes r: "reachable db_dir fs0 ctx fs" and d: "db_ok fs0 db_dir"
    and e: "db_api_execute_sql lock1 lock2 ctx sql fs = (resp, ctx', fs')"
  shows "(\<exists>r. resp = Some r \<and> good_reply (api_reply r)) \<and> reachable db_dir fs0 ctx' fs'"
proof (cases "db_api_parse sql")
  case (Inl a)
  with e r good_refusal show ?thesis by (auto simp: db_api_execute_sql_def)
next
  case (Inr st)
  note ok = api_parse_ok [OF Inr]
  show ?thesis
  proof (cases st)
    case (STMT_SELECT s)
    obtain p ctx1 fs1 where p: "runtime_preload_table ctx (sel_table_name s) fs = (p, ctx1, fs1)" by (metis prod_cases3)
    note r1 = preload_reachable [OF r p]
    show ?thesis
    proof (cases p)
      case (Inl x)
      from preload_fails [OF p [unfolded Inl]] obtain k m where "x = Failure k m" "k \<in> engine_errors" by metis
      with Inl \<open>db_api_parse sql = Inr st\<close> STMT_SELECT e p r r1 good_lock_error engine_failure_response engine_http show ?thesis
        by (cases lock1) (auto simp: db_api_execute_sql_def good_error_response simp del: engine_failure.simps)
    next
      case (Inr u)
      with \<open>db_api_parse sql = Inr st\<close> STMT_SELECT e p r r1 good_lock_error statement_answered [OF r1 d ok] show ?thesis
        by (cases lock1; cases lock2) (auto simp: db_api_execute_sql_def split: prod.splits)
    qed
  next
    case (STMT_INSERT s)
    with Inr e r good_lock_error statement_answered [OF r d ok] show ?thesis
      by (cases lock1) (auto simp: db_api_execute_sql_def split: prod.splits)
  qed
qed

lemma route_answered:
  assumes "reachable db_dir fs0 ctx fs" "db_ok fs0 db_dir" "route_request lock1 lock2 ctx fs req = (r, ctx', fs')"
  shows "r \<noteq> None \<and> good_reply (the r) \<and> reachable db_dir fs0 ctx' fs'"
  using assms(3,1) query_answered [OF assms(1,2), of lock1 lock2] good_health good_failures(2)
  by (fastforce simp: route_request_def good_error_reply api_reply_def split: if_splits sum.splits prod.splits)


lemma task_answered:
  assumes "reachable db_dir fs0 ctx fs" "db_ok fs0 db_dir"
    and "server_handle_client_task lock1 lock2 ctx fs es ses = (out, ctx', fs')"
  shows "(\<exists>status_code v. status_code \<in> status_codes \<and>
      out = Some (http_send_json_response status_code (json_text v) ses)) \<and> reachable db_dir fs0 ctx' fs'"
proof (cases "http_read_request es")
  case (Inl e)
  with assms(1,3) good_failures(1) [of e] show ?thesis
    by (auto simp: server_handle_client_task_def good_reply_def split: prod.splits)
next
  case (Inr req)
  obtain r ctx1 fs1 where r: "route_request lock1 lock2 ctx fs req = (r, ctx1, fs1)" by (metis prod_cases3)
  from route_answered [OF assms(1,2) r] Inr r assms(3) show ?thesis
    by (auto simp: server_handle_client_task_def good_reply_def split: prod.splits) blast
qed

section \<open>A query from bytes to bytes\<close>

lemma query_routed:
  assumes "request_ok ''POST'' ''/query'' hs (object_text w kvs)" "net_ok es"
    and "fst (stream es) = request_text ''POST'' ''/query'' hs (object_text w kvs) @ extra"
    and "fields_ok kvs" "spaces w" "field_result (field_values ''sql'' kvs) = Inr sql"
    and "db_api_execute_sql lock1 lock2 ctx sql fs = (resp, ctx', fs')"
  shows "server_handle_client_task lock1 lock2 ctx fs es ses =
    (map_option (\<lambda>r. http_send_json_response (int (resp_http r)) (resp_json r) ses) resp, ctx', fs')"
  using http_request_round_trip [OF assms(1-3)] extract_object [OF assms(4,5), of "''sql''"] assms(6,7)
  by (simp add: server_handle_client_task_def route_request_def option.map_comp o_def)

section \<open>The accept loop\<close>








section \<open>Configurations\<close>











section \<open>What happens to a connection\<close>








section \<open>Properties of the server\<close>

text \<open>
  C36. Every connection is answered: whatever bytes arrive on it in whatever pieces, whether or not
  the lock can be taken, and whatever the state the engine has reached, the handler sends one
  response with one of the documented status codes and a JSON body, and leaves the engine in a
  reachable state.
\<close>

theorem every_request_answered:
  assumes "reachable db_dir fs0 ctx fs" "db_ok fs0 db_dir"
    and "server_handle_client_task lock1 lock2 ctx fs es ses = (out, ctx', fs')"
  shows "(\<exists>status_code v. status_code \<in> status_codes \<and>
      out = Some (http_send_json_response status_code (json_text v) ses)) \<and> reachable db_dir fs0 ctx' fs'"
  by (rule task_answered [OF assms])

theorem every_request_answered_witness:
  "\<exists>status_code v. status_code \<in> status_codes \<and>
     fst (server_handle_client_task True True demo_ctx demo_fs [Bytes ''GET'', Broken] [Takes 7]) =
       Some (http_send_json_response status_code (json_text v) [Takes 7])"
proof -
  obtain out ctx' fs' where
    e: "server_handle_client_task True True demo_ctx demo_fs [Bytes ''GET'', Broken] [Takes 7] = (out, ctx', fs')"
    by (metis prod_cases3)
  from every_request_answered [OF demo_reachable demo_db_ok e] e show ?thesis by simp
qed

text \<open>
  C37. A query is served from bytes to bytes.  A POST to \<^verbatim>\<open>/query\<close> whose body is a JSON
  object with the SQL text in its field \<^verbatim>\<open>sql\<close>, with any other header lines and fields,
  white space and cutting by the network, is answered by the response for this text: refused texts
  with 400 and no change, and otherwise the engine executes exactly the parsed statement and the
  client is sent its result or the status and code of its failure.
\<close>

theorem query_served:
  assumes "reachable db_dir fs0 ctx fs" "db_ok fs0 db_dir"
    and "request_ok ''POST'' ''/query'' hs (object_text w kvs)" "net_ok es"
    and "fst (stream es) = request_text ''POST'' ''/query'' hs (object_text w kvs) @ extra"
    and "fields_ok kvs" "spaces w" "field_result (field_values ''sql'' kvs) = Inr sql"
    and "server_handle_client_task True True ctx fs es ses = (out, ctx', fs')"
  shows "case db_api_parse sql of
      Inl r \<Rightarrow> out = Some (http_send_json_response 400 (resp_json r) ses) \<and> ctx' = ctx \<and> fs' = fs
    | Inr st \<Rightarrow> \<exists>res r. execute_statement ctx st fs = (res, ctx', fs') \<and> answers res (Some r) \<and>
        out = Some (http_send_json_response (int (resp_http r)) (resp_json r) ses)"
proof -
  obtain resp ctx1 fs1 where e: "db_api_execute_sql True True ctx sql fs = (resp, ctx1, fs1)" by (metis prod_cases3)
  from query_routed [OF assms(3-8) e] assms(9) have
    o: "out = map_option (\<lambda>r. http_send_json_response (int (resp_http r)) (resp_json r) ses) resp" "ctx1 = ctx'" "fs1 = fs'"
    by simp_all
  obtain r where "resp = Some r" using query_answered [OF assms(1,2) e] by blast
  with o execute_sql_spec [OF assms(1,2) e] show ?thesis by (auto split: sum.splits)
qed

definition demo_query :: "(string \<times> json_scalar) list" where
  "demo_query = [(''sql'', JString ''SELECT name FROM users WHERE id = 7'')]"

theorem query_served_witness:
  "\<exists>ctx' fs' res r. server_handle_client_task True True demo_ctx demo_fs
       [Bytes (request_text ''POST'' ''/query'' [''Host: db''] (object_text [] demo_query))] [] =
     (Some (http_send_json_response (int (resp_http r)) (resp_json r) []), ctx', fs') \<and>
     execute_statement demo_ctx (STMT_SELECT ((select_by_id ''users'' 7)\<lparr>select_all := False, sel_columns := [''name'']\<rparr>)) demo_fs =
       (res, ctx', fs') \<and> answers res (Some r)"
proof -
  let ?t = "request_text ''POST'' ''/query'' [''Host: db''] (object_text [] demo_query)"
  let ?q = "''SELECT name FROM users WHERE id = 7''"
  let ?st = "STMT_SELECT ((select_by_id ''users'' 7)\<lparr>select_all := False, sel_columns := [''name'']\<rparr>)"
  obtain out ctx' fs' where
    e: "server_handle_client_task True True demo_ctx demo_fs [Bytes ?t] [] = (out, ctx', fs')" by (metis prod_cases3)
  have ok: "request_ok ''POST'' ''/query'' [''Host: db''] (object_text [] demo_query)" "fields_ok demo_query" "spaces []"
    "field_result (field_values ''sql'' demo_query) = Inr ?q" by code_simp+
  have "?t \<noteq> []" by (simp add: request_text_def request_lines_def crlf_lines_def)
  then have n: "net_ok [Bytes ?t]" "fst (stream [Bytes ?t]) = ?t @ []" by (simp_all add: net_ok_def)
  have p: "db_api_parse ?q = Inr ?st" by code_simp
  from query_served [OF demo_reachable demo_db_ok ok(1) n ok(2-4) e] obtain res r where
    "execute_statement demo_ctx ?st demo_fs = (res, ctx', fs')" "answers res (Some r)"
    "out = Some (http_send_json_response (int (resp_http r)) (resp_json r) [])"
    unfolding p by auto
  with e show ?thesis by blast
qed



end
