(* ===== verification/Sql_Program.thy ===== *)
theory Sql_Program
  imports Db_Api
begin

text \<open>
  The command-line program: \<^verbatim>\<open>src/main.c\<close> with \<^verbatim>\<open>src/cli.c\<close>,
  \<^verbatim>\<open>src/result.c\<close> and \<^verbatim>\<open>read_text_file\<close> of \<^verbatim>\<open>src/utils.c\<close>.
  It executes the statements of one SQL file in order and prints their results.  Shown: the program
  always ends with an exit code, the parsed statements are executed in order up to the first failure,
  a printed script is executed as written, and result tables are aligned.
\<close>

section \<open>Command line\<close>

record cli_options =
  cli_db_dir :: "string option"
  cli_sql_file :: "string option"
  cli_help :: bool

definition init_options :: cli_options where
  "init_options = \<lparr>cli_db_dir = None, cli_sql_file = None, cli_help = False\<rparr>"

fun cli_args_loop :: "cli_options \<Rightarrow> string list \<Rightarrow> cli_options option" where
  "cli_args_loop opts [] = Some opts"
| "cli_args_loop opts (a # rest) =
     (if is_option a ''-h'' ''--help'' then cli_args_loop (opts\<lparr>cli_help := True\<rparr>) rest
      else if is_option a ''-d'' ''--db'' then
        (case rest of [] \<Rightarrow> None | v # more_args \<Rightarrow> cli_args_loop (opts\<lparr>cli_db_dir := Some v\<rparr>) more_args)
      else if is_option a ''-f'' ''--file'' then
        (case rest of [] \<Rightarrow> None | v # more_args \<Rightarrow> cli_args_loop (opts\<lparr>cli_sql_file := Some v\<rparr>) more_args)
      else None)"

definition parse_cli_args :: "string list \<Rightarrow> cli_options option" where
  "parse_cli_args args =
     (case cli_args_loop init_options args of
        None \<Rightarrow> None
      | Some opts \<Rightarrow>
          if cli_help opts then Some opts
          else if cli_db_dir opts = None \<or> cli_sql_file opts = None then None
          else Some opts)"

definition print_usage :: "string \<Rightarrow> string" where
  "print_usage program_name =
     ''Usage: '' @ program_name @ '' -d <db_dir> -f <sql_file>'' @ [LF] @
     ''       '' @ program_name @ '' --db <db_dir> --file <sql_file>'' @ [LF] @
     ''       '' @ program_name @ '' -h | --help'' @ [LF]"

section \<open>Files and results\<close>

text \<open>An empty file counts as a failure.\<close>

definition read_text_file :: "fs \<Rightarrow> string \<Rightarrow> string option" where
  "read_text_file fs p = (case fopen_rb fs p of Opened b \<Rightarrow> if b = [] then None else Some b | _ \<Rightarrow> None)"

definition max_size :: "nat \<Rightarrow> nat \<Rightarrow> nat" where
  "max_size left right = (if left > right then left else right)"

text \<open>\<^verbatim>\<open>printf("%-*s", width, s)\<close>\<close>

definition pad_cell :: "nat \<Rightarrow> string \<Rightarrow> string" where
  "pad_cell width s = cstr s @ replicate (width - length (cstr s)) (CHR '' '')"

fun print_separator :: "nat list \<Rightarrow> string" where
  "print_separator [] = [LF]"
| "print_separator (w # ws) = replicate w (CHR ''-'') @ (if ws = [] then [] else ''-+-'') @ print_separator ws"

fun print_cells :: "nat list \<Rightarrow> string list \<Rightarrow> string" where
  "print_cells (w # ws) (v # vs) = pad_cell w v @ (if ws = [] then [] else '' | '') @ print_cells ws vs"
| "print_cells _ _ = [LF]"

definition widen :: "nat list \<Rightarrow> string list \<Rightarrow> nat list" where
  "widen widths vs = map2 (\<lambda>w v. max_size w (length (cstr v))) widths vs"

definition column_widths :: "query_result \<Rightarrow> nat list" where
  "column_widths qr = fold (\<lambda>row widths. widen widths row) (qr_rows qr) (map (\<lambda>c. length (cstr c)) (qr_columns qr))"

definition print_exec_result :: "exec_result \<Rightarrow> string" where
  "print_exec_result r =
     (if res_type r = RESULT_INSERT then ''INSERT '' @ print_nat (affected_rows r) @ [LF]
      else
        (let qr = query_result r; widths = column_widths qr in
         print_cells widths (qr_columns qr) @ print_separator widths @
         concat (map (\<lambda>row. print_cells widths row) (qr_rows qr)) @
         [LF] @ print_nat (length (qr_rows qr)) @ '' rows selected'' @ [LF]))"

section \<open>The program\<close>

definition status_number :: "status \<Rightarrow> nat" where
  "status_number st = (case st of
       STATUS_OK \<Rightarrow> 0 | STATUS_INVALID_ARGS \<Rightarrow> 1 | STATUS_FILE_ERROR \<Rightarrow> 2 | STATUS_LEX_ERROR \<Rightarrow> 3
     | STATUS_PARSE_ERROR \<Rightarrow> 4 | STATUS_SCHEMA_ERROR \<Rightarrow> 5 | STATUS_STORAGE_ERROR \<Rightarrow> 6 | STATUS_EXEC_ERROR \<Rightarrow> 7
     | STATUS_INDEX_ERROR \<Rightarrow> 8)"

record outcome =
  exit_code :: nat
  stdout :: string
  stderr :: string

definition print_error_message :: "string \<Rightarrow> string" where
  "print_error_message msg = (if msg \<noteq> [] then msg @ [LF] else [])"

text \<open>Leaving with the status of a failure; a diverging engine gives no outcome.\<close>

fun leave :: "string \<Rightarrow> failure \<Rightarrow> outcome option" where
  "leave out (Failure st m) = Some \<lparr>exit_code = status_number st, stdout = out, stderr = print_error_message m\<rparr>"
| "leave out Diverges = None"

lemma next_statement_forward:
  assumes "parse_next_statement toks c = (Inr st, c')"
  shows "c < length toks" "c < c'"
proof -
  show "c < length toks" using assms by (simp add: next_statement_iff)
  obtain m q where q: "reads \<lparr>tokens = toks, current = c\<rparr> (semis m @ statement_symbols st) q"
    "c' = current (snd (parser_match q TOKEN_SEMICOLON))" using assms by (auto simp: next_statement_iff)
  have "c < current q" using q(1) symbols_start [of st] by (auto simp: reads_def)
  with q(2) match_forward [of q TOKEN_SEMICOLON] show "c < c'" by simp
qed

lemma skip_forward: "c \<le> skip_semicolon_tokens toks c"
proof (induction toks c rule: skip_semicolon_tokens.induct)
  case (1 toks c)
  then show ?case by (subst skip_semicolon_tokens.simps) auto
qed

lemma next_statement_measure:
  "parse_next_statement toks c = (Inr st, c') \<Longrightarrow> length toks - skip_semicolon_tokens toks c' < length toks - c"
  using next_statement_forward [of toks c st c'] skip_forward [of c' toks] by simp

definition at_statement :: "token list \<Rightarrow> nat \<Rightarrow> bool" where
  "at_statement toks cursor \<longleftrightarrow> cursor < length toks \<and> tok_type (toks ! cursor) \<noteq> TOKEN_EOF"

text \<open>The loop over the statements, with the number executed and the output so far.\<close>

function statement_loop ::
  "token list \<Rightarrow> nat \<Rightarrow> execution_context \<Rightarrow> fs \<Rightarrow> nat \<Rightarrow> string \<Rightarrow> outcome option \<times> fs" where
  "statement_loop toks cursor ctx fs executed out =
     (if at_statement toks cursor then
        (case parse_next_statement toks cursor of
           (Inl e, _) \<Rightarrow> (leave out e, fs)
         | (Inr stmt, cursor') \<Rightarrow>
             (case execute_statement ctx stmt fs of
                (Inl e, ctx', fs') \<Rightarrow> (leave out e, fs')
              | (Inr r, ctx', fs') \<Rightarrow>
                  statement_loop toks (skip_semicolon_tokens toks cursor') ctx' fs' (executed + 1)
                    (out @ print_exec_result r)))
      else if executed = 0 then
        (Some \<lparr>exit_code = status_number STATUS_PARSE_ERROR, stdout = out,
               stderr = ''PARSE ERROR: no executable SQL statement found'' @ [LF]\<rparr>, fs)
      else (Some \<lparr>exit_code = status_number STATUS_OK, stdout = out, stderr = []\<rparr>, fs))"
  by pat_completeness auto
termination
  by (relation "measure (\<lambda>(toks, cursor, ctx, fs, executed, out). length toks - cursor)")
    (auto dest: next_statement_measure [OF sym])

declare statement_loop.simps [simp del]

definition main_program :: "string \<Rightarrow> string list \<Rightarrow> fs \<Rightarrow> outcome option \<times> fs" where
  "main_program program_name args fs =
     (case parse_cli_args args of
        None \<Rightarrow> (Some \<lparr>exit_code = status_number STATUS_INVALID_ARGS, stdout = print_usage program_name, stderr = []\<rparr>, fs)
      | Some opts \<Rightarrow>
          if cli_help opts then (Some \<lparr>exit_code = status_number STATUS_OK, stdout = print_usage program_name, stderr = []\<rparr>, fs)
          else
            (let sql_file = the (cli_sql_file opts) in
             case read_text_file fs sql_file of
               None \<Rightarrow>
                 (Some \<lparr>exit_code = status_number STATUS_FILE_ERROR, stdout = [],
                        stderr = ''FILE ERROR: failed to read SQL file '' @ quoted sql_file @ [LF]\<rparr>, fs)
             | Some sql_text \<Rightarrow>
                 (let trimmed_sql = trim_whitespace sql_text in
                  if trimmed_sql = [] then
                    (Some \<lparr>exit_code = status_number STATUS_FILE_ERROR, stdout = [],
                           stderr = ''FILE ERROR: SQL file '' @ quoted sql_file @ '' is empty'' @ [LF]\<rparr>, fs)
                  else case tokenize_sql trimmed_sql of
                    Inl e \<Rightarrow> (leave [] e, fs)
                  | Inr toks \<Rightarrow>
                      statement_loop toks (skip_semicolon_tokens toks 0)
                        (init_execution_context (the (cli_db_dir opts))) fs 0 [])))"


section \<open>Failures of the parser\<close>

abbreviation parse_fails :: "'a result \<Rightarrow> bool" where
  "parse_fails \<equiv> fails_with {STATUS_PARSE_ERROR}"

lemma parse_error_fails [simp]: "parse_fails (parse_error m)"
  by (simp add: parse_error_def)

lemma token_fails:
  "parse_fails (parser_expect_with_message p ty m)" "parse_fails (parse_identifier p)" "parse_fails (parse_literal p)"
  by (auto simp: parser_expect_with_message_def parse_identifier_def parse_literal_def Let_def split: prod.split bool.split)

lemma fails_bind:
  "parse_fails r \<Longrightarrow> (\<And>x. r = Inr x \<Longrightarrow> parse_fails (f x)) \<Longrightarrow> parse_fails (case r of Inl e \<Rightarrow> Inl e | Inr x \<Rightarrow> f x)"
  by (cases r) (simp_all add: fails_with_def)

lemma identifier_loop_fails: "parse_fails (identifier_list_loop p xs)"
proof (induction p xs rule: identifier_list_loop.induct)
  case (1 p items)
  then show ?case
    by (subst identifier_list_loop.simps) (auto intro!: fails_bind token_fails split: prod.split bool.split)
qed

lemma literal_loop_fails: "parse_fails (literal_list_loop p vs)"
proof (induction p vs rule: literal_list_loop.induct)
  case (1 p items)
  then show ?case
    by (subst literal_list_loop.simps) (auto intro!: fails_bind token_fails split: prod.split bool.split)
qed

lemmas list_loop_fails = identifier_loop_fails literal_loop_fails

lemma clause_fails:
  "parse_fails (parse_identifier_list p)" "parse_fails (parse_literal_list p)" "parse_fails (parse_where_clause p)"
  by (auto simp: parse_identifier_list_def parse_literal_list_def parse_where_clause_def
      intro!: fails_bind token_fails list_loop_fails split: prod.split bool.split)

lemma body_fails: "parse_fails (parse_body p)"
  by (auto simp: parse_body_def parse_insert_def parse_insert_columns_def parse_insert_values_def parse_select_def
      parse_select_list_def intro!: fails_bind token_fails clause_fails split: prod.split bool.split)

lemma next_statement_fails: "parse_fails (fst (parse_next_statement toks c))"
  using body_fails [of "parser_skip_semicolons \<lparr>tokens = toks, current = c\<rparr>"]
  by (auto simp: parse_next_statement_def Let_def split: sum.split)

section \<open>The statements of a script and their execution\<close>

function parse_script :: "token list \<Rightarrow> nat \<Rightarrow> statement list \<times> failure option" where
  "parse_script toks cursor =
     (if at_statement toks cursor then
        (case parse_next_statement toks cursor of
           (Inl e, _) \<Rightarrow> ([], Some e)
         | (Inr stmt, cursor') \<Rightarrow>
             (case parse_script toks (skip_semicolon_tokens toks cursor') of (sts, e) \<Rightarrow> (stmt # sts, e)))
      else ([], None))"
  by pat_completeness auto
termination
  by (relation "measure (\<lambda>(toks, cursor). length toks - cursor)") (auto dest: next_statement_measure [OF sym])

declare parse_script.simps [simp del]

fun run_script ::
  "statement list \<Rightarrow> execution_context \<Rightarrow> fs \<Rightarrow> exec_result list \<times> failure option \<times> execution_context \<times> fs" where
  "run_script [] ctx fs = ([], None, ctx, fs)"
| "run_script (st # sts) ctx fs =
     (case execute_statement ctx st fs of
        (Inl e, ctx', fs') \<Rightarrow> ([], Some e, ctx', fs')
      | (Inr r, ctx', fs') \<Rightarrow>
          (case run_script sts ctx' fs' of (rs, e, ctx'', fs'') \<Rightarrow> (r # rs, e, ctx'', fs'')))"

definition script_outcome :: "nat \<Rightarrow> string \<Rightarrow> failure option \<Rightarrow> outcome option" where
  "script_outcome executed out failed =
     (case failed of
        Some e \<Rightarrow> leave out e
      | None \<Rightarrow>
          if executed = 0 then
            Some \<lparr>exit_code = status_number STATUS_PARSE_ERROR, stdout = out,
                  stderr = ''PARSE ERROR: no executable SQL statement found'' @ [LF]\<rparr>
          else Some \<lparr>exit_code = status_number STATUS_OK, stdout = out, stderr = []\<rparr>)"

definition first_failure :: "failure option \<Rightarrow> failure option \<Rightarrow> failure option" where
  "first_failure e e' = (case e of None \<Rightarrow> e' | Some _ \<Rightarrow> e)"

lemma statement_loop_script:
  assumes "parse_script toks c = (sts, pe)" "run_script sts ctx fs = (rs, ee, ctx', fs')"
  shows "statement_loop toks c ctx fs n out =
    (script_outcome (n + length rs) (out @ concat (map print_exec_result rs)) (first_failure ee pe), fs')"
  using assms
proof (induction toks c ctx fs n out arbitrary: sts pe rs rule: statement_loop.induct)
  case (1 toks c ctx fs n out)
  show ?case
  proof (cases "at_statement toks c")
    case False
    with 1(2,3) show ?thesis
      by (simp add: statement_loop.simps [of toks c] parse_script.simps [of toks c] script_outcome_def first_failure_def)
  next
    case True
    obtain p c1 where p: "parse_next_statement toks c = (p, c1)" by fastforce
    show ?thesis
    proof (cases p)
      case (Inl e)
      with True p 1(2,3) show ?thesis
        by (auto simp: statement_loop.simps [of toks c] parse_script.simps [of toks c] script_outcome_def first_failure_def)
    next
      case (Inr st)
      obtain sts1 where s: "parse_script toks (skip_semicolon_tokens toks c1) = (sts1, pe)" "sts = st # sts1"
        using 1(2) True p Inr by (auto simp: parse_script.simps [of toks c] split: prod.splits)
      obtain x ctx1 fs1 where x: "execute_statement ctx st fs = (x, ctx1, fs1)" by (metis prod_cases3)
      show ?thesis
      proof (cases x)
        case (Inl e)
        with True p Inr x s 1(3) show ?thesis
          by (auto simp: statement_loop.simps [of toks c] script_outcome_def first_failure_def)
      next
        case r: (Inr r)
        obtain rs1 where "run_script sts1 ctx1 fs1 = (rs1, ee, ctx', fs')" "rs = r # rs1"
          using 1(3) s x r by (auto split: prod.splits)
        with 1(1) [OF True p [symmetric] Inr x [symmetric] r refl s(1)] True p Inr x r show ?thesis
          by (simp add: statement_loop.simps [of toks c])
      qed
    qed
  qed
qed


text \<open>Nothing diverges: failures of a script are those of the parser and of the engine.\<close>

lemma parse_script_fails: "snd (parse_script toks c) = Some e \<Longrightarrow> failure_in {STATUS_PARSE_ERROR} e"
proof (induction toks c rule: parse_script.induct)
  case (1 toks c)
  show ?case
  proof (cases "at_statement toks c")
    case True
    with 1 next_statement_fails [of toks c] show ?thesis
      by (auto simp: parse_script.simps [of toks c] split: prod.splits sum.splits)
  qed (use 1(2) in \<open>simp add: parse_script.simps [of toks c]\<close>)
qed

lemma parse_script_ok:
  assumes "tokenize_sql sql = Inr toks"
  shows "list_all sql_ok (fst (parse_script toks c))"
proof -
  obtain ts where ts: "toks = ts @ [EOF_TOKEN]" "list_all token_ok ts"
    using tokenize_loop_ok [of "cstr sql" "[]" toks] assms by (auto simp: tokenize_sql_def)
  show ?thesis
    unfolding ts(1)
  proof (induction "ts @ [EOF_TOKEN]" c rule: parse_script.induct)
    case (1 c)
    show ?case
    proof (cases "at_statement (ts @ [EOF_TOKEN]) c")
      case True
      with 1 lexed_statement_ok [OF ts(2), of c] show ?thesis
        by (auto simp: parse_script.simps [of "ts @ [EOF_TOKEN]" c] split: prod.splits sum.splits)
    qed (simp add: parse_script.simps [of "ts @ [EOF_TOKEN]" c])
  qed
qed

lemma run_script_reachable:
  "reachable db_dir fs0 ctx fs \<Longrightarrow> db_ok fs0 db_dir \<Longrightarrow> list_all sql_ok sts \<Longrightarrow>
   run_script sts ctx fs = (rs, e, ctx', fs') \<Longrightarrow>
   reachable db_dir fs0 ctx' fs' \<and> (\<forall>x. e = Some x \<longrightarrow> failure_in engine_errors x) \<and>
   (e = None \<longrightarrow> length rs = length sts)"
proof (induction sts arbitrary: ctx fs rs)
  case (Cons st sts)
  obtain r ctx1 fs1 where r: "execute_statement ctx st fs = (r, ctx1, fs1)" by (metis prod_cases3)
  have ok: "statement_ok st" using Cons.prems(3) sql_ok_statement_ok by simp
  have f: "fails_with engine_errors r"
    using execute_statement_fails [OF _ _ ok, of fs ctx] reachable_inv [OF Cons.prems(1,2)] r by force
  note r1 = reach_step [OF Cons.prems(1) ok r]
  show ?case
  proof (cases r)
    case (Inl x)
    with Cons.prems(4) r r1 f show ?thesis by auto
  next
    case (Inr y)
    with Cons.prems(4) r obtain rs1 where "run_script sts ctx1 fs1 = (rs1, e, ctx', fs')" "rs = y # rs1"
      by (auto split: prod.splits)
    with Cons.IH [OF r1 Cons.prems(2)] Cons.prems(3) show ?thesis by auto
  qed
qed simp

lemma failure_leaves: "failure_in S e \<Longrightarrow> \<exists>o'. leave out e = Some o' \<and> exit_code o' \<le> 8"
  by (auto simp: failure_in_def status_number_def split: status.splits)

lemma script_leaves:
  "(\<forall>x. e = Some x \<longrightarrow> (\<exists>S. failure_in S x)) \<Longrightarrow> \<exists>o'. script_outcome n out e = Some o' \<and> exit_code o' \<le> 8"
  using failure_leaves by (auto simp: script_outcome_def status_number_def split: option.splits)

lemma lex_failure_in: "e \<in> set lex_failures \<Longrightarrow> failure_in {STATUS_LEX_ERROR} e"
  by (auto simp: lex_failures_def)

lemma main_returns:
  assumes "parse_cli_args args = Some opts" "cli_db_dir opts = Some db_dir" "db_ok fs db_dir"
  shows "\<exists>o' fs'. main_program program_name args fs = (Some o', fs') \<and> exit_code o' \<le> 8"
proof -
  let ?f = "the (cli_sql_file opts)"
  have loop: "\<exists>o' fs'. statement_loop toks c (init_execution_context db_dir) fs 0 [] = (Some o', fs') \<and> exit_code o' \<le> 8"
    if "tokenize_sql sql = Inr toks" for sql toks c
  proof -
    obtain sts pe where s: "parse_script toks c = (sts, pe)" by fastforce
    obtain rs ee ctx' fs' where r: "run_script sts (init_execution_context db_dir) fs = (rs, ee, ctx', fs')" by (metis prod_cases4)
    have ok: "list_all sql_ok sts" using parse_script_ok [OF that, of c] s by simp
    have "\<forall>x. first_failure ee pe = Some x \<longrightarrow> (\<exists>S. failure_in S x)"
      using run_script_reachable [OF reach_init assms(3) ok r] parse_script_fails [of toks c] s
      by (auto simp: first_failure_def split: option.splits)
    from script_leaves [OF this] show ?thesis unfolding statement_loop_script [OF s r] by blast
  qed
  have lex: "\<exists>o'. leave [] e = Some o' \<and> exit_code o' \<le> 8" if "tokenize_sql sql = Inl e" for sql e
    using failure_leaves [OF lex_failure_in [OF tokenize_error [OF that]]] .
  show ?thesis
    using assms(1,2) loop lex
    by (auto simp: main_program_def Let_def status_number_def split: option.splits sum.splits)
qed


section \<open>Printed scripts\<close>

text \<open>The text of a script: one statement per line, each ended by a semicolon.\<close>

definition script_text :: "statement list \<Rightarrow> string" where
  "script_text sts = concat (map (\<lambda>st. statement_text st @ '';'' @ [LF]) sts)"

definition semicolon :: token where
  "semicolon = \<lparr>tok_type = TOKEN_SEMICOLON, tok_text = '';''\<rparr>"

definition script_tokens :: "statement list \<Rightarrow> token list" where
  "script_tokens sts = concat (map (\<lambda>st. map spell (statement_symbols st) @ [semicolon]) sts)"

lemma tokenize_print_append:
  "list_all token_ok ts \<Longrightarrow> tokenize_loop (print_tokens ts @ s) acc = tokenize_loop s (acc @ ts)"
proof (induction ts arbitrary: acc)
  case (Cons t ts)
  then obtain c u where c: "print_token t = c # u" "\<not> isspace c" by (auto elim: print_token_start)
  have "scan_token (print_token t @ CHR '' '' # print_tokens ts @ s) = Inr (t, CHR '' '' # print_tokens ts @ s)"
    using Cons.prems by (intro scan_print) simp
  moreover have "isspace (CHR '' '')" by (simp add: isspace_def code_def)
  ultimately show ?case using c Cons by (simp add: print_tokens_def)
qed (simp add: print_tokens_def)

lemma tokenize_semicolon: "tokenize_loop (CHR '';'' # s) acc = tokenize_loop s (acc @ [semicolon])"
  by (simp add: scan_token_def tokenize_symbol_def semicolon_def QUOTE_def ctype_defs)

lemma tokenize_statement:
  "sql_ok st \<Longrightarrow> tokenize_loop (statement_text st @ CHR '';'' # s) acc =
     tokenize_loop s (acc @ map spell (statement_symbols st) @ [semicolon])"
  using tokenize_print_append [OF spelled_tokens(1), of st "CHR '';'' # s" acc]
    tokenize_semicolon [of s "acc @ map spell (statement_symbols st)"]
  by (simp add: statement_text_def del: tokenize_loop.simps)

lemma tokenize_script:
  "list_all sql_ok sts \<Longrightarrow> tokenize_loop (script_text sts @ s) acc = tokenize_loop s (acc @ script_tokens sts)"
proof (induction sts arbitrary: acc)
  case (Cons st sts)
  have "isspace LF" by (simp add: isspace_def code_def LF_def)
  with Cons tokenize_statement [of st "LF # script_text sts @ s" acc] show ?case
    by (simp add: script_text_def script_tokens_def)
qed (simp add: script_text_def script_tokens_def)

lemma statement_text_start:
  assumes "sql_ok st"
  obtains c u where "statement_text st = c # u" "\<not> isspace c"
proof -
  obtain x ss where x: "statement_symbols st = x # ss" using symbols_start [of st] by blast
  then have "token_ok (spell x)" using spelled_tokens(1) [OF assms] by simp
  then obtain c u where "print_token (spell x) = c # u" "\<not> isspace c" by (rule print_token_start)
  with x that show thesis by (simp add: statement_text_def print_tokens_def)
qed

lemma trim_line:
  assumes "no_nul (c # t @ [d, LF])" "\<not> isspace c" "\<not> isspace d"
  shows "trim_whitespace (c # t @ [d, LF]) = c # t @ [d]"
proof -
  have "isspace LF" by (simp add: isspace_def code_def LF_def)
  moreover have "cstr (c # t @ [d, LF]) = c # t @ [d, LF]" using assms(1) by (rule cstr_no_nul)
  ultimately show ?thesis using assms(2,3) by (simp add: trim_whitespace_def)
qed

lemma no_nul_statement: "sql_ok st \<Longrightarrow> no_nul (statement_text st)"
  unfolding statement_text_def by (rule no_nul_print_tokens [OF spelled_tokens(1)])

lemma no_nul_script: "list_all sql_ok sts \<Longrightarrow> no_nul (script_text sts)"
  by (induction sts) (simp_all add: script_text_def no_nul_statement, simp add: NUL_def LF_def)

lemma trimmed_script:
  assumes "list_all sql_ok sts" "sql_ok st"
  shows "trim_whitespace (script_text (sts @ [st])) = script_text sts @ statement_text st @ '';''"
proof -
  obtain c u where c: "script_text sts @ statement_text st = c # u" "\<not> isspace c"
  proof (cases sts)
    case Nil
    with statement_text_start [OF assms(2)] that show thesis by (auto simp: script_text_def)
  next
    case (Cons s0 rest)
    with assms(1) obtain c u where "statement_text s0 = c # u" "\<not> isspace c" by (auto elim: statement_text_start)
    with Cons that show thesis by (simp add: script_text_def)
  qed
  have t: "script_text (sts @ [st]) = c # u @ [CHR '';'', LF]" using c(1) by (simp add: script_text_def)
  moreover have "no_nul (script_text (sts @ [st]))" using assms by (intro no_nul_script) simp
  moreover have "\<not> isspace (CHR '';'')" by (simp add: isspace_def code_def)
  ultimately have "trim_whitespace (script_text (sts @ [st])) = c # u @ '';''" using trim_line c(2) by metis
  with c(1) show ?thesis by (metis append.assoc append_Cons)
qed

lemma script_tokenized:
  assumes "list_all sql_ok sts" "sts \<noteq> []"
  shows "tokenize_sql (trim_whitespace (script_text sts)) = Inr (script_tokens sts @ [EOF_TOKEN])"
    and "trim_whitespace (script_text sts) \<noteq> []"
proof -
  obtain ss st where s: "sts = ss @ [st]" using assms(2) by (metis rev_exhaust)
  then have ok: "list_all sql_ok ss" "sql_ok st" using assms(1) by simp_all
  note t = trimmed_script [OF ok]
  have "no_nul (script_text ss @ statement_text st @ '';'')"
    using no_nul_script [OF ok(1)] no_nul_statement [OF ok(2)] by (simp add: NUL_def)
  then have "tokenize_sql (trim_whitespace (script_text sts)) = tokenize_loop (script_text ss @ statement_text st @ '';'') []"
    unfolding s t tokenize_sql_def by simp
  also have "\<dots> = Inr (script_tokens sts @ [EOF_TOKEN])"
    using tokenize_script [OF ok(1), of "statement_text st @ '';''" "[]"] tokenize_statement [OF ok(2), of "[]" "script_tokens ss"]
    by (simp add: s script_tokens_def)
  finally show "tokenize_sql (trim_whitespace (script_text sts)) = Inr (script_tokens sts @ [EOF_TOKEN])" .
  show "trim_whitespace (script_text sts) \<noteq> []" unfolding s t by simp
qed


lemma spell_type: "tok_type (spell x) = tok_type x"
  by (simp add: spell_def)

lemma script_start:
  assumes "list_all sql_ok sts"
  shows "\<exists>t rest. script_tokens sts @ [EOF_TOKEN] = t # rest \<and> tok_type t \<noteq> TOKEN_SEMICOLON \<and> (tok_type t = TOKEN_EOF \<longleftrightarrow> sts = [])"
proof (cases sts)
  case Nil
  then show ?thesis by (simp add: script_tokens_def EOF_TOKEN_def)
next
  case (Cons st rest)
  obtain ty ss where "statement_symbols st = symbol ty # ss" "ty \<in> {TOKEN_INSERT, TOKEN_SELECT}"
    using symbols_start [of st] by (cases st) auto
  with Cons show ?thesis by (auto simp: script_tokens_def spell_type symbol_def)
qed

lemma script_cursor:
  assumes "list_all sql_ok sts"
  shows "skip_semicolon_tokens (pre @ script_tokens sts @ [EOF_TOKEN]) (length pre) = length pre"
    and "at_statement (pre @ script_tokens sts @ [EOF_TOKEN]) (length pre) \<longleftrightarrow> sts \<noteq> []"
proof -
  obtain t rest where t: "script_tokens sts @ [EOF_TOKEN] = t # rest" "tok_type t \<noteq> TOKEN_SEMICOLON"
    "tok_type t = TOKEN_EOF \<longleftrightarrow> sts = []" using script_start [OF assms] by blast
  then show "skip_semicolon_tokens (pre @ script_tokens sts @ [EOF_TOKEN]) (length pre) = length pre"
    by (subst skip_semicolon_tokens.simps) simp
  show "at_statement (pre @ script_tokens sts @ [EOF_TOKEN]) (length pre) \<longleftrightarrow> sts \<noteq> []"
    using t by (simp add: at_statement_def)
qed

lemma next_of_script:
  assumes "sql_ok st" "toks = pre @ map spell (statement_symbols st) @ semicolon # rest"
  shows "parse_next_statement toks (length pre) = (Inr st, length pre + length (statement_symbols st) + 1)"
proof -
  let ?p = "\<lparr>tokens = toks, current = length pre\<rparr>"
  have u: "upcoming ?p = statement_symbols st @ map erase (semicolon # rest)"
    using spelled_tokens(2) [OF assms(1)] by (simp add: assms(2) upcoming_def)
  then obtain q where q: "reads ?p (statement_symbols st) q" "upcoming q = map erase (semicolon # rest)"
    using reads_exists by blast
  have "upcoming q = [symbol TOKEN_SEMICOLON] @ map erase rest"
    using q(2) by (simp add: erase_def semicolon_def has_text_def)
  then obtain q' where "reads q [symbol TOKEN_SEMICOLON] q'" using reads_exists by blast
  then have l: "looks q TOKEN_SEMICOLON" using reads_sym [of TOKEN_SEMICOLON q q'] by (simp add: has_text_def)
  then have c: "current (parser_advance q) = current q + 1" by (simp add: parser_advance_def looks_def)
  have "ends_before st q" using l by (cases st) (auto simp: looks_def)
  moreover have "reads ?p (semis 0 @ statement_symbols st) q" using q(1) by simp
  moreover have "current (snd (parser_match q TOKEN_SEMICOLON)) = length pre + length (statement_symbols st) + 1"
    using l c q(1) by (simp add: parser_match_def looks_def reads_def)
  moreover have "statement_wf st" using assms(1) by (simp add: sql_ok_def)
  moreover have "length pre < length toks" by (simp add: assms(2))
  ultimately show ?thesis unfolding next_statement_iff by metis
qed

lemma parse_script_tokens:
  "list_all sql_ok sts \<Longrightarrow> parse_script (pre @ script_tokens sts @ [EOF_TOKEN]) (length pre) = (sts, None)"
proof (induction sts arbitrary: pre)
  case Nil
  then show ?case using script_cursor(2) [of "[]" pre] by (simp add: parse_script.simps)
next
  case (Cons st sts)
  let ?s = "map spell (statement_symbols st) @ [semicolon]" and ?toks = "pre @ script_tokens (st # sts) @ [EOF_TOKEN]"
  have t: "?toks = pre @ map spell (statement_symbols st) @ semicolon # (script_tokens sts @ [EOF_TOKEN])"
    "?toks = (pre @ ?s) @ script_tokens sts @ [EOF_TOKEN]"
    by (simp_all add: script_tokens_def)
  have ok: "sql_ok st" "list_all sql_ok sts" using Cons.prems by simp_all
  have n: "parse_next_statement ?toks (length pre) = (Inr st, length (pre @ ?s))" using next_of_script [OF ok(1) t(1)] by simp
  have "skip_semicolon_tokens ?toks (length (pre @ ?s)) = length (pre @ ?s)" unfolding t(2) by (rule script_cursor(1) [OF ok(2)])
  moreover have "parse_script ?toks (length (pre @ ?s)) = (sts, None)" unfolding t(2) by (rule Cons.IH [OF ok(2)])
  moreover have "at_statement ?toks (length pre)" using script_cursor(2) [OF Cons.prems, of pre] by simp
  ultimately show ?case using n by (simp add: parse_script.simps [of ?toks "length pre"])
qed

lemma main_script:
  assumes "parse_cli_args args = Some opts" "\<not> cli_help opts" "cli_db_dir opts = Some db_dir" "cli_sql_file opts = Some f"
    and "read_text_file fs f = Some (script_text sts)" "list_all sql_ok sts" "sts \<noteq> []"
    and "run_script sts (init_execution_context db_dir) fs = (rs, e, ctx', fs')"
  shows "main_program program_name args fs = (script_outcome (length rs) (concat (map print_exec_result rs)) e, fs')"
proof -
  have "parse_script (script_tokens sts @ [EOF_TOKEN]) 0 = (sts, None)"
    "skip_semicolon_tokens (script_tokens sts @ [EOF_TOKEN]) 0 = 0"
    using parse_script_tokens [OF assms(6), of "[]"] script_cursor(1) [OF assms(6), of "[]"] by simp_all
  from this(2) statement_loop_script [OF this(1) assms(8), of 0 "[]"] script_tokenized [OF assms(6,7)] assms(1-5) show ?thesis
    by (simp add: main_program_def first_failure_def split: option.split)
qed

section \<open>Tables are aligned\<close>

lemma length_widen: "length (widen ws vs) = min (length ws) (length vs)"
  by (simp add: widen_def)

lemma widen_covers:
  assumes "length ws = length vs"
  shows "list_all2 (\<le>) ws (widen ws vs)" "list_all2 (\<lambda>v w. length (cstr v) \<le> w) vs (widen ws vs)"
  using assms by (auto simp: widen_def max_size_def list_all2_conv_all_nth)

lemma covers_mono: "list_all2 (\<lambda>v w. length (cstr v) \<le> w) vs ws \<Longrightarrow> list_all2 (\<le>) ws ws' \<Longrightarrow> list_all2 (\<lambda>v w. length (cstr v) \<le> w) vs ws'"
  by (auto simp: list_all2_conv_all_nth) (meson le_trans)

lemma widths_cover:
  assumes "list_all (\<lambda>row. length row = length ws) rows"
  shows "list_all2 (\<le>) ws (fold (\<lambda>row widths. widen widths row) rows ws) \<and>
    (\<forall>row \<in> set rows. list_all2 (\<lambda>v w. length (cstr v) \<le> w) row (fold (\<lambda>row widths. widen widths row) rows ws))"
  using assms
proof (induction rows arbitrary: ws)
  case (Cons row rows)
  let ?ws = "widen ws row"
  have l: "length ?ws = length ws" using Cons.prems by (simp add: length_widen)
  have c: "list_all2 (\<le>) ws ?ws" "list_all2 (\<lambda>v w. length (cstr v) \<le> w) row ?ws"
    using widen_covers [of ws row] Cons.prems by simp_all
  note IH = Cons.IH [of ?ws, unfolded l]
  have "list_all2 (\<le>) ws (fold (\<lambda>row widths. widen widths row) rows ?ws)"
    using IH Cons.prems c(1) by (auto simp: list_all2_conv_all_nth) (meson le_trans)
  with IH Cons.prems covers_mono [OF c(2)] show ?case by simp
qed (simp add: list_all2_refl)

definition table_width :: "nat list \<Rightarrow> nat" where
  "table_width ws = sum_list ws + 3 * (length ws - 1) + 1"

lemma cells_width:
  "list_all2 (\<lambda>v w. length (cstr v) \<le> w) vs ws \<Longrightarrow> length (print_cells ws vs) = table_width ws"
proof (induction ws vs rule: print_cells.induct)
  case (1 w ws v vs)
  then show ?case by (cases ws) (auto simp: pad_cell_def table_width_def)
qed (auto simp: table_width_def)

lemma separator_width: "length (print_separator ws) = table_width ws"
proof (induction ws)
  case (Cons w ws)
  then show ?case by (cases ws) (simp_all add: table_width_def)
qed (simp add: table_width_def)

text \<open>All lines of a result table have the same length.\<close>

lemma table_aligned:
  assumes "list_all (\<lambda>row. length row = length (qr_columns qr)) (qr_rows qr)"
  shows "length (print_cells (column_widths qr) (qr_columns qr)) = table_width (column_widths qr)"
    and "row \<in> set (qr_rows qr) \<Longrightarrow> length (print_cells (column_widths qr) row) = table_width (column_widths qr)"
proof -
  have w: "list_all2 (\<le>) (map (\<lambda>c. length (cstr c)) (qr_columns qr)) (column_widths qr) \<and>
    (\<forall>row \<in> set (qr_rows qr). list_all2 (\<lambda>v w. length (cstr v) \<le> w) row (column_widths qr))"
    unfolding column_widths_def by (rule widths_cover) (use assms in simp)
  then show "length (print_cells (column_widths qr) (qr_columns qr)) = table_width (column_widths qr)"
    by (intro cells_width) (simp add: list_all2_map1)
  show "row \<in> set (qr_rows qr) \<Longrightarrow> length (print_cells (column_widths qr) row) = table_width (column_widths qr)"
    using w cells_width by blast
qed


section \<open>Property of the program\<close>

text \<open>
  C39. The command-line program ends with an exit code from 0 to 8, whatever its SQL file contains.
  When the file is the text of a list of statements, one per line, it executes exactly these
  statements in order up to the first failure, prints the results of the executed ones in order, and
  its exit code and error message are those of that failure, or 0 and none if all succeed; the files
  it leaves behind are those of a state the engine can reach.
\<close>

theorem main_program_correct:
  assumes "parse_cli_args args = Some opts" "cli_db_dir opts = Some db_dir" "db_ok fs db_dir"
  shows "(\<exists>o' fs'. main_program program_name args fs = (Some o', fs') \<and> exit_code o' \<le> 8) \<and>
    (\<forall>f sts rs e ctx' fs'. \<not> cli_help opts \<and> cli_sql_file opts = Some f \<and>
       read_text_file fs f = Some (script_text sts) \<and> list_all sql_ok sts \<and> sts \<noteq> [] \<and>
       run_script sts (init_execution_context db_dir) fs = (rs, e, ctx', fs') \<longrightarrow>
       reachable db_dir fs ctx' fs' \<and>
       (case e of
          None \<Rightarrow> length rs = length sts \<and> main_program program_name args fs =
            (Some \<lparr>exit_code = 0, stdout = concat (map print_exec_result rs), stderr = []\<rparr>, fs')
        | Some x \<Rightarrow> \<exists>k m. x = Failure k m \<and> k \<in> engine_errors \<and> main_program program_name args fs =
            (Some \<lparr>exit_code = status_number k, stdout = concat (map print_exec_result rs), stderr = print_error_message m\<rparr>, fs')))"
proof (intro conjI allI impI)
  fix f sts rs e ctx' fs'
  assume a: "\<not> cli_help opts \<and> cli_sql_file opts = Some f \<and> read_text_file fs f = Some (script_text sts) \<and>
    list_all sql_ok sts \<and> sts \<noteq> [] \<and> run_script sts (init_execution_context db_dir) fs = (rs, e, ctx', fs')"
  note m = main_script [OF assms(1) _ assms(2), of f fs sts rs e ctx' fs' program_name]
  from a have r: "reachable db_dir fs ctx' fs' \<and> (\<forall>x. e = Some x \<longrightarrow> failure_in engine_errors x) \<and> (e = None \<longrightarrow> length rs = length sts)"
    using run_script_reachable [OF reach_init assms(3)] by blast
  then show "reachable db_dir fs ctx' fs'" by simp
  show "case e of
      None \<Rightarrow> length rs = length sts \<and> main_program program_name args fs =
        (Some \<lparr>exit_code = 0, stdout = concat (map print_exec_result rs), stderr = []\<rparr>, fs')
    | Some x \<Rightarrow> \<exists>k m. x = Failure k m \<and> k \<in> engine_errors \<and> main_program program_name args fs =
        (Some \<lparr>exit_code = status_number k, stdout = concat (map print_exec_result rs), stderr = print_error_message m\<rparr>, fs')"
    using a r m by (auto simp: script_outcome_def status_number_def failure_in_def split: option.splits)
qed (rule main_returns [OF assms])

definition demo_script :: "statement list" where
  "demo_script = [STMT_INSERT demo_insert, STMT_SELECT (select_by_id ''users'' 8)]"

definition demo_script_fs :: fs where
  "demo_script_fs = demo_fs(''q.sql'' := File (script_text demo_script))"

theorem main_program_correct_witness:
  "\<exists>fs'. main_program ''mini_db'' [''-d'', ''db'', ''--file'', ''q.sql''] demo_script_fs =
     (Some \<lparr>exit_code = 0,
            stdout = ''INSERT 1'' @ [LF] @ ''id | name'' @ [LF] @ ''---+-----'' @ [LF] @ ''8  | park'' @ [LF, LF] @
                     ''1 rows selected'' @ [LF],
            stderr = []\<rparr>, fs')"
proof -
  let ?o = "\<lparr>cli_db_dir = Some ''db'', cli_sql_file = Some ''q.sql'', cli_help = False\<rparr>"
  have p: "parse_cli_args [''-d'', ''db'', ''--file'', ''q.sql''] = Some ?o" by code_simp
  have d: "db_ok demo_script_fs ''db''"
    unfolding db_ok_def
  proof
    fix t
    have "data_path ''db'' t \<noteq> ''q.sql''" by (simp add: data_path_def build_table_path_def)
    then have "demo_script_fs (data_path ''db'' t) = demo_fs (data_path ''db'' t)" by (simp add: demo_script_fs_def)
    then show "data_file_ok demo_script_fs ''db'' t" using demo_db_ok by (simp add: db_ok_def data_file_ok_def)
  qed
  obtain rs e ctx' fs' where r: "run_script demo_script (init_execution_context ''db'') demo_script_fs = (rs, e, ctx', fs')"
    by (metis prod_cases4)
  have "(case run_script demo_script (init_execution_context ''db'') demo_script_fs of
      (rs, e, _, _) \<Rightarrow> e = None \<and> concat (map print_exec_result rs) =
        ''INSERT 1'' @ [LF] @ ''id | name'' @ [LF] @ ''---+-----'' @ [LF] @ ''8  | park'' @ [LF, LF] @ ''1 rows selected'' @ [LF])"
    by code_simp
  then have e: "e = None" "concat (map print_exec_result rs) =
      ''INSERT 1'' @ [LF] @ ''id | name'' @ [LF] @ ''---+-----'' @ [LF] @ ''8  | park'' @ [LF, LF] @ ''1 rows selected'' @ [LF]"
    using r by simp_all
  have "list_all sql_ok demo_script" by code_simp
  moreover have "demo_script \<noteq> []" by (simp add: demo_script_def)
  moreover have "read_text_file demo_script_fs ''q.sql'' = Some (script_text demo_script)"
    by (simp add: read_text_file_def fopen_rb_def demo_script_fs_def demo_script_def script_text_def)
  ultimately have "main_program ''mini_db'' [''-d'', ''db'', ''--file'', ''q.sql''] demo_script_fs =
      (Some \<lparr>exit_code = 0, stdout = concat (map print_exec_result rs), stderr = []\<rparr>, fs')"
    using conjunct2 [OF main_program_correct [OF p _ d, of "''mini_db''"],
        THEN spec, of "''q.sql''", THEN spec, of demo_script, THEN spec, of rs, THEN spec, of e, THEN spec, of ctx', THEN spec, of fs']
      r e(1) by simp
  then show ?thesis unfolding e(2) by blast
qed

end
