(* ===== verification/Benchmark.thy ===== *)
theory Benchmark
  imports Sql_Program
begin

text \<open>
  The benchmark: \<^verbatim>\<open>src/benchmark.c\<close> and its command line \<^verbatim>\<open>tools/benchmark_bptree.c\<close>.
  It resets a table \<^verbatim>\<open>id, name, age\<close>, fills it through the executor, and selects rows by
  \<^verbatim>\<open>id\<close> and by \<^verbatim>\<open>name\<close>, checking that the first goes through the index and the
  second does not.  The clock and the arithmetic of \<^verbatim>\<open>double\<close> are parameters: \<open>clock k\<close>
  is the reading of the \<open>k\<close>-th call of \<^verbatim>\<open>now_ms\<close>.  The theorem says that the benchmark
  always succeeds on a directory it can write, and what it leaves there.
\<close>

section \<open>The report\<close>

record 'f doubles =
  d_sub :: "'f \<Rightarrow> 'f \<Rightarrow> 'f"
  d_div :: "'f \<Rightarrow> 'f \<Rightarrow> 'f"
  d_of_size :: "nat \<Rightarrow> 'f"
  d_zero :: 'f
  d_positive :: "'f \<Rightarrow> bool"
  d_text :: "'f \<Rightarrow> string"

record 'f benchmark_report =
  rep_row_count :: nat
  rep_probe_count :: nat
  insert_total_ms :: 'f
  id_select_total_ms :: 'f
  id_select_avg_ms :: 'f
  non_id_select_total_ms :: 'f
  non_id_select_avg_ms :: 'f
  speedup_ratio :: 'f

section \<open>Preparing the table\<close>

text \<open>
  The outcomes of \<^verbatim>\<open>mkdir\<close>; a new directory makes room for files directly in it.
\<close>

datatype mkdir_outcome = Mkdir_created | Mkdir_exists | Mkdir_failed

definition in_directory :: "string \<Rightarrow> string \<Rightarrow> bool" where
  "in_directory dir p \<longleftrightarrow> starts_with (dir @ ''/'') p \<and> CHR ''/'' \<notin> set (drop (length dir + 1) p)"

definition ensure_directory :: "mkdir_outcome \<Rightarrow> string \<Rightarrow> fs \<Rightarrow> unit result \<times> fs" where
  "ensure_directory outcome p fs =
     (case outcome of
        Mkdir_failed \<Rightarrow>
          (fail STATUS_FILE_ERROR (''BENCHMARK ERROR: failed to create directory '' @ quoted p), fs)
      | Mkdir_exists \<Rightarrow> (Inr (), fs)
      | Mkdir_created \<Rightarrow>
          (Inr (), \<lambda>q. if fs q = MissingDir \<and> in_directory p q then Absent else fs q))"

text \<open>\<^verbatim>\<open>fopen(path, "w")\<close>: creates or empties the file; whether it could be opened.\<close>

definition fopen_w :: "fs \<Rightarrow> string \<Rightarrow> bool \<times> fs" where
  "fopen_w fs p =
     (case fs p of
        Absent \<Rightarrow> (True, fs(p := File []))
      | File b \<Rightarrow> (True, fs(p := File []))
      | _ \<Rightarrow> (False, fs))"

text \<open>\<^verbatim>\<open>snprintf(path, 1024, "%s/%s<suffix>", db_dir, table_name)\<close>\<close>

definition benchmark_path :: "string \<Rightarrow> string \<Rightarrow> string \<Rightarrow> string" where
  "benchmark_path db_dir table_name suffix = take 1023 (db_dir @ ''/'' @ table_name @ suffix)"

definition schema_text :: string where
  "schema_text = ''id'' @ [LF] @ ''name'' @ [LF] @ ''age'' @ [LF]"

definition ensure_benchmark_schema :: "mkdir_outcome \<Rightarrow> string \<Rightarrow> string \<Rightarrow> fs \<Rightarrow> unit result \<times> fs" where
  "ensure_benchmark_schema outcome db_dir table_name fs =
     (case ensure_directory outcome db_dir fs of
        (Inl e, fs1) \<Rightarrow> (Inl e, fs1)
      | (Inr u, fs1) \<Rightarrow>
          (let schema_file = benchmark_path db_dir table_name ''.schema'';
               data_file = benchmark_path db_dir table_name ''.data''
           in case fopen_w fs1 schema_file of
                (False, fs2) \<Rightarrow> (fail STATUS_FILE_ERROR ''BENCHMARK ERROR: failed to open schema file'', fs2)
              | (True, fs2) \<Rightarrow>
                  (let fs3 = fs2(schema_file := File schema_text)
                   in case fopen_w fs3 data_file of
                        (False, fs4) \<Rightarrow> (fail STATUS_FILE_ERROR ''BENCHMARK ERROR: failed to reset data file'', fs4)
                      | (True, fs4) \<Rightarrow> (Inr (), fs4))))"

section \<open>The loops\<close>

definition user_name :: "nat \<Rightarrow> string" where
  "user_name k = ''user_'' @ print_nat k"

definition bulk_statement :: "string \<Rightarrow> nat \<Rightarrow> insert_statement" where
  "bulk_statement table_name i =
     \<lparr>ins_table_name = table_name, ins_columns = [],
      ins_values = [\<lparr>lit_type = VALUE_STRING, lit_text = user_name (i + 1)\<rparr>,
                    \<lparr>lit_type = VALUE_STRING, lit_text = print_nat (20 + i mod 50)\<rparr>]\<rparr>"

text \<open>The loop with \<open>n\<close> rows to go, the next one with index \<open>i\<close>.\<close>

fun bulk_loop ::
  "nat \<Rightarrow> nat \<Rightarrow> string \<Rightarrow> execution_context \<Rightarrow> fs \<Rightarrow> unit result \<times> execution_context \<times> fs" where
  "bulk_loop 0 i table_name ctx fs = (Inr (), ctx, fs)"
| "bulk_loop (Suc n) i table_name ctx fs =
     (case execute_statement ctx (STMT_INSERT (bulk_statement table_name i)) fs of
        (Inl e, ctx', fs') \<Rightarrow> (Inl e, ctx', fs')
      | (Inr r, ctx', fs') \<Rightarrow> bulk_loop n (Suc i) table_name ctx' fs')"

definition benchmark_bulk_insert ::
  "execution_context \<Rightarrow> string \<Rightarrow> nat \<Rightarrow> fs \<Rightarrow> unit result \<times> execution_context \<times> fs" where
  "benchmark_bulk_insert ctx table_name row_count fs = bulk_loop row_count 0 table_name ctx fs"

definition probe_statement :: "string \<Rightarrow> string \<Rightarrow> literal_value \<Rightarrow> select_statement" where
  "probe_statement table_name column v =
     \<lparr>sel_table_name = table_name, select_all = True, sel_columns = [],
      sel_where = \<lparr>has_condition = True, where_column = column, where_value = v\<rparr>\<rparr>"

text \<open>
  The loop that both measurements share, with \<open>n\<close> probes to go: the statement of the probed row,
  whether the index has to be used, and the complaint otherwise.
\<close>

fun probe_loop ::
  "(nat \<Rightarrow> select_statement) \<Rightarrow> bool \<Rightarrow> string \<Rightarrow> nat \<Rightarrow> nat \<Rightarrow> nat \<Rightarrow> execution_context \<Rightarrow> fs \<Rightarrow>
     unit result \<times> execution_context \<times> fs" where
  "probe_loop stmt index msg row_count 0 i ctx fs = (Inr (), ctx, fs)"
| "probe_loop stmt index msg row_count (Suc n) i ctx fs =
     (case execute_statement ctx (STMT_SELECT (stmt (row_count - i mod row_count))) fs of
        (Inl e, ctx', fs') \<Rightarrow> (Inl e, ctx', fs')
      | (Inr r, ctx', fs') \<Rightarrow>
          if used_index r \<noteq> index \<or> length (qr_rows (query_result r)) \<noteq> 1 then
            (fail STATUS_EXEC_ERROR msg, ctx', fs')
          else probe_loop stmt index msg row_count n (Suc i) ctx' fs')"

definition id_probe :: "string \<Rightarrow> nat \<Rightarrow> select_statement" where
  "id_probe table_name k = probe_statement table_name ''id'' \<lparr>lit_type = VALUE_NUMBER, lit_text = print_nat k\<rparr>"

definition name_probe :: "string \<Rightarrow> nat \<Rightarrow> select_statement" where
  "name_probe table_name k = probe_statement table_name ''name'' \<lparr>lit_type = VALUE_STRING, lit_text = user_name k\<rparr>"

definition benchmark_id_selects ::
  "execution_context \<Rightarrow> string \<Rightarrow> nat \<Rightarrow> nat \<Rightarrow> fs \<Rightarrow> unit result \<times> execution_context \<times> fs" where
  "benchmark_id_selects ctx table_name row_count probe_count fs =
     probe_loop (id_probe table_name) True ''BENCHMARK ERROR: id select did not use index'' row_count probe_count 0 ctx fs"

definition benchmark_non_id_selects ::
  "execution_context \<Rightarrow> string \<Rightarrow> nat \<Rightarrow> nat \<Rightarrow> fs \<Rightarrow> unit result \<times> execution_context \<times> fs" where
  "benchmark_non_id_selects ctx table_name row_count probe_count fs =
     probe_loop (name_probe table_name) False ''BENCHMARK ERROR: non-id select unexpectedly used index''
       row_count probe_count 0 ctx fs"

section \<open>The benchmark and its command line\<close>

definition make_report :: "'f doubles \<Rightarrow> (nat \<Rightarrow> 'f) \<Rightarrow> nat \<Rightarrow> nat \<Rightarrow> 'f benchmark_report" where
  "make_report D clock row_count probe_count =
     (let id_total = d_sub D (clock 3) (clock 2); non_id_total = d_sub D (clock 5) (clock 4);
          id_avg = d_div D id_total (d_of_size D probe_count);
          non_id_avg = d_div D non_id_total (d_of_size D probe_count)
      in \<lparr>rep_row_count = row_count, rep_probe_count = probe_count,
          insert_total_ms = d_sub D (clock 1) (clock 0),
          id_select_total_ms = id_total, id_select_avg_ms = id_avg,
          non_id_select_total_ms = non_id_total, non_id_select_avg_ms = non_id_avg,
          speedup_ratio = (if d_positive D id_avg then d_div D non_id_avg id_avg else d_zero D)\<rparr>)"

definition run_benchmark ::
  "'f doubles \<Rightarrow> (nat \<Rightarrow> 'f) \<Rightarrow> mkdir_outcome \<Rightarrow> string \<Rightarrow> string \<Rightarrow> nat \<Rightarrow> nat \<Rightarrow> fs \<Rightarrow>
     'f benchmark_report result \<times> fs" where
  "run_benchmark D clock outcome db_dir table_name row_count probe_count fs =
     (if row_count = 0 \<or> probe_count = 0 then
        (fail STATUS_EXEC_ERROR ''BENCHMARK ERROR: invalid benchmark arguments'', fs)
      else case ensure_benchmark_schema outcome db_dir table_name fs of
        (Inl e, fs1) \<Rightarrow> (Inl e, fs1)
      | (Inr u, fs1) \<Rightarrow>
          (case benchmark_bulk_insert (init_execution_context db_dir) table_name row_count fs1 of
             (Inl e, ctx2, fs2) \<Rightarrow> (Inl e, fs2)
           | (Inr u, ctx2, fs2) \<Rightarrow>
               (case benchmark_id_selects ctx2 table_name row_count probe_count fs2 of
                  (Inl e, ctx3, fs3) \<Rightarrow> (Inl e, fs3)
                | (Inr u, ctx3, fs3) \<Rightarrow>
                    (case benchmark_non_id_selects ctx3 table_name row_count probe_count fs3 of
                       (Inl e, ctx4, fs4) \<Rightarrow> (Inl e, fs4)
                     | (Inr u, ctx4, fs4) \<Rightarrow> (Inr (make_report D clock row_count probe_count), fs4)))))"

record benchmark_options =
  bo_db_dir :: "string option"
  bo_table_name :: string
  bo_row_count :: nat
  bo_probe_count :: nat

definition benchmark_size_arg :: "string \<Rightarrow> nat option" where
  "benchmark_size_arg arg =
     (if arg = [] then None else let (v, rest) = strtoull arg in if rest \<noteq> [] then None else Some (unat v))"

fun benchmark_args_loop :: "benchmark_options \<Rightarrow> string list \<Rightarrow> benchmark_options option" where
  "benchmark_args_loop opts [] = Some opts"
| "benchmark_args_loop opts [a] = None"
| "benchmark_args_loop opts (a # v # more_args) =
     (if a = ''-d'' then benchmark_args_loop (opts\<lparr>bo_db_dir := Some v\<rparr>) more_args
      else if a = ''-t'' then benchmark_args_loop (opts\<lparr>bo_table_name := v\<rparr>) more_args
      else if a = ''-n'' then
        (case benchmark_size_arg v of
           None \<Rightarrow> None
         | Some n \<Rightarrow> benchmark_args_loop (opts\<lparr>bo_row_count := n\<rparr>) more_args)
      else if a = ''-p'' then
        (case benchmark_size_arg v of
           None \<Rightarrow> None
         | Some n \<Rightarrow> benchmark_args_loop (opts\<lparr>bo_probe_count := n\<rparr>) more_args)
      else None)"

definition benchmark_defaults :: benchmark_options where
  "benchmark_defaults =
     \<lparr>bo_db_dir = None, bo_table_name = ''users'', bo_row_count = 1000000, bo_probe_count = 100\<rparr>"

definition benchmark_usage :: "string \<Rightarrow> string" where
  "benchmark_usage program_name =
     ''Usage: '' @ program_name @ '' -d <db_dir> -t <table_name> -n <row_count> -p <probe_count>'' @ [LF]"

definition print_report :: "'f doubles \<Rightarrow> 'f benchmark_report \<Rightarrow> string" where
  "print_report D r =
     ''Rows inserted: '' @ print_nat (rep_row_count r) @ [LF] @
     ''Insert total: '' @ d_text D (insert_total_ms r) @ '' ms'' @ [LF] @
     ''ID select avg: '' @ d_text D (id_select_avg_ms r) @ '' ms'' @ [LF] @
     ''Name select avg: '' @ d_text D (non_id_select_avg_ms r) @ '' ms'' @ [LF] @
     ''Speedup: '' @ d_text D (speedup_ratio r) @ ''x'' @ [LF]"

definition benchmark_main ::
  "'f doubles \<Rightarrow> (nat \<Rightarrow> 'f) \<Rightarrow> mkdir_outcome \<Rightarrow> string \<Rightarrow> string list \<Rightarrow> fs \<Rightarrow> outcome option \<times> fs" where
  "benchmark_main D clock outcome program_name args fs =
     (let usage = (Some \<lparr>exit_code = status_number STATUS_INVALID_ARGS, stdout = benchmark_usage program_name,
                        stderr = []\<rparr>, fs)
      in case benchmark_args_loop benchmark_defaults args of
           None \<Rightarrow> usage
         | Some opts \<Rightarrow>
             (case bo_db_dir opts of
                None \<Rightarrow> usage
              | Some db_dir \<Rightarrow>
                  (case run_benchmark D clock outcome db_dir (bo_table_name opts) (bo_row_count opts)
                          (bo_probe_count opts) fs of
                     (Inl e, fs') \<Rightarrow> (leave [] e, fs')
                   | (Inr r, fs') \<Rightarrow>
                       (Some \<lparr>exit_code = status_number STATUS_OK, stdout = print_report D r, stderr = []\<rparr>, fs'))))"

section \<open>The rows of the benchmark\<close>

definition bench_columns :: "string list" where
  "bench_columns = [''id'', ''name'', ''age'']"

definition bench_row :: "nat \<Rightarrow> row" where
  "bench_row k = [print_nat k, user_name k, print_nat (20 + (k - 1) mod 50)]"

text \<open>The cache holds the table alone, and the table has the first \<open>k\<close> rows.\<close>

definition filled :: "fs \<Rightarrow> string \<Rightarrow> string \<Rightarrow> execution_context \<Rightarrow> nat \<Rightarrow> bool" where
  "filled fs db_dir t ctx k \<longleftrightarrow>
     (\<exists>table rs. ctx_inv fs ctx \<and> ctx_db_dir ctx = db_dir \<and> tables ctx = [table] \<and> rt_table_name table = t \<and>
        columns (rt_schema table) = bench_columns \<and> table_inv fs db_dir table rs \<and>
        map fst rs = map bench_row [1..<Suc k] \<and> next_id table = of_nat (Suc k))"

lemma filled_cached:
  assumes "filled fs db_dir t ctx k"
  shows "get_or_load_table_runtime ctx t fs = (Inr 0, ctx, fs)"
  using assms by (auto simp: filled_def get_or_load_table_runtime_def)

lemma filled_rows:
  assumes "filled fs db_dir t ctx k"
  shows "read_all_rows_from_table fs db_dir t 3 = Inr (map bench_row [1..<Suc k])" "data_file_ok fs db_dir t"
proof -
  obtain table rs where "rt_table_name table = t" "columns (rt_schema table) = bench_columns"
    "table_inv fs db_dir table rs" "map fst rs = map bench_row [1..<Suc k]"
    using assms unfolding filled_def by blast
  then have "table_rows fs db_dir t 3 rs" by (simp add: table_inv_def column_count_def bench_columns_def numeral_3_eq_3)
  with \<open>map fst rs = _\<close> read_all_table data_file_ok_rows
  show "read_all_rows_from_table fs db_dir t 3 = Inr (map bench_row [1..<Suc k])" "data_file_ok fs db_dir t"
    by metis+
qed

lemma bulk_row:
  assumes "columns schema = bench_columns" "Suc k < 2 ^ 64"
  shows "insert_accepts schema (bulk_statement t k)"
    "stored_row (inserted_row schema (bulk_statement t k) (of_nat (Suc k))) = bench_row (Suc k)"
proof -
  have "print_u64 (of_nat (Suc k)) = print_nat (Suc k)"
    using assms(2) by (simp add: print_u64_def unat_of_nat take_bit_nat_eq_self del: of_nat_Suc)
  then show "stored_row (inserted_row schema (bulk_statement t k) (of_nat (Suc k))) = bench_row (Suc k)"
    using assms(1)
    by (simp add: inserted_row_def inserted_value_def insert_targets_def bench_columns_def bulk_statement_def
        bench_row_def stored_row_def)
qed (use assms in \<open>simp add: insert_accepts_def insert_targets_def bench_columns_def bulk_statement_def\<close>)

lemma bulk_stmt_ok: "stmt_ok (bulk_statement t k)"
proof -
  have "no_nul ''user_''" by (simp add: no_nul_def NUL_def)
  then show ?thesis
    using no_nul_print_nat by (simp add: stmt_ok_def bulk_statement_def user_name_def no_nul_def)
qed

lemma filled_insert:
  assumes "filled fs db_dir t ctx k" "Suc k < 2 ^ 64"
  shows "\<exists>r ctx' fs'. execute_insert ctx (bulk_statement t k) fs = (Inr r, ctx', fs') \<and>
    filled fs' db_dir t ctx' (Suc k) \<and> (\<forall>p. p \<noteq> data_path db_dir t \<longrightarrow> fs' p = fs p)"
proof -
  obtain table rs where f: "ctx_inv fs ctx" "ctx_db_dir ctx = db_dir" "tables ctx = [table]" "rt_table_name table = t"
    "columns (rt_schema table) = bench_columns" "table_inv fs db_dir table rs"
    "map fst rs = map bench_row [1..<Suc k]" "next_id table = of_nat (Suc k)"
    using assms(1) unfolding filled_def by blast
  note B = bulk_row [OF f(5) assms(2)]
  have nm: "ins_table_name (bulk_statement t k) = t" by (simp add: bulk_statement_def)
  have nz: "next_id table \<noteq> 0" using assms(2) f(8) by (auto simp: word_of_nat_eq_0_iff simp del: of_nat_Suc dest: dvd_imp_le)
  have has: "has_id_column table" using f(5,6) by (simp add: table_inv_def bench_columns_def)
  have can: "can_insert table (bulk_statement t k)" using B nz by (simp add: can_insert_def)
  have dok: "data_file_ok fs (ctx_db_dir ctx) t" using filled_rows [OF assms(1)] f(2) by simp
  from execute_insert_outcome [OF f(1) _ bulk_stmt_ok, of t k, unfolded nm, OF dok filled_cached [OF assms(1)]] can f(3)
  obtain r ctx' fs' where e: "execute_insert ctx (bulk_statement t k) fs = (Inr r, ctx', fs')"
    and i: "inserted ctx fs 0 (bulk_statement t k) r ctx' fs'" by auto
  from i f has obtain rs' off table' where
    I: "table_inv fs db_dir table rs'"
       "table_inv fs' db_dir table' (rs' @ [(stored_row (inserted_row (rt_schema table) (bulk_statement t k) (of_nat (Suc k))), off)])"
       "ctx' = ctx\<lparr>tables := [table']\<rparr>" "rt_table_name table' = t" "rt_schema table' = rt_schema table"
       "\<forall>p. p \<noteq> data_path db_dir t \<longrightarrow> fs' p = fs p" "next_id table' = of_nat (Suc k) + 1"
    unfolding inserted_def Let_def by auto
  have "rs' = rs" using I(1) f(6) table_rows_unique by (auto simp: table_inv_def)
  with I(2) f(7) B(2) have "table_inv fs' db_dir table' (rs @ [(bench_row (Suc k), off)])"
    "map fst (rs @ [(bench_row (Suc k), off)]) = map bench_row [1..<Suc (Suc k)]" by auto
  moreover have "ctx_inv fs' ctx'" using inserted_inv [OF f(1) _ i] f(3) by simp
  ultimately have "filled fs' db_dir t ctx' (Suc k)"
    unfolding filled_def using I(3-5,7) f(2,5)
    by (intro exI [of _ table'] exI [of _ "rs @ [(bench_row (Suc k), off)]"]) (simp add: add.commute)
  with e I(6) show ?thesis by blast
qed

lemma bulk_filled:
  assumes "filled fs db_dir t ctx k" "k + n < 2 ^ 64"
  shows "\<exists>ctx' fs'. bulk_loop n k t ctx fs = (Inr (), ctx', fs') \<and> filled fs' db_dir t ctx' (k + n) \<and>
    (\<forall>p. p \<noteq> data_path db_dir t \<longrightarrow> fs' p = fs p)"
  using assms
proof (induction n arbitrary: k ctx fs)
  case (Suc n)
  from filled_insert [OF Suc.prems(1)] Suc.prems(2) obtain r ctx1 fs1 where
    e: "execute_insert ctx (bulk_statement t k) fs = (Inr r, ctx1, fs1)" "filled fs1 db_dir t ctx1 (Suc k)"
       "\<forall>p. p \<noteq> data_path db_dir t \<longrightarrow> fs1 p = fs p" by auto
  from Suc.IH [OF e(2)] Suc.prems(2) e show ?case by (auto simp: execute_statement_def)
qed auto

section \<open>The probes\<close>

lemma filled_select:
  assumes "filled fs db_dir t ctx n" "c \<in> {''id'', ''name''}"
  shows "\<exists>r. execute_select ctx (probe_statement t c v) fs = (Inr r, ctx, fs) \<and>
    used_index r = (c = ''id'' \<and> try_parse_indexable_id_literal v \<noteq> None) \<and>
    length (qr_rows (query_result r)) =
      length (filter (\<lambda>k. (if c = ''id'' then print_nat k else user_name k) = lit_text v) [1..<Suc n])"
proof -
  obtain table rs where f: "ctx_inv fs ctx" "ctx_db_dir ctx = db_dir" "tables ctx = [table]" "rt_table_name table = t"
    "columns (rt_schema table) = bench_columns" "table_inv fs db_dir table rs"
    "map fst rs = map bench_row [1..<Suc n]"
    using assms(1) unfolding filled_def by blast
  let ?s = "probe_statement t c v"
  have s: "sel_table_name ?s = t" by (simp add: probe_statement_def)
  have dok: "data_file_ok fs (ctx_db_dir ctx) t" using filled_rows [OF assms(1)] f(2) by simp
  have valid: "validate_select_columns (rt_schema table) ?s = Inr ()"
    using assms(2) f(5)
    by (auto simp: validate_select_columns_def probe_statement_def schema_find_column_index_def bench_columns_def)
  have used: "can_use_id_index table ?s \<noteq> None \<longleftrightarrow> c = ''id'' \<and> try_parse_indexable_id_literal v \<noteq> None"
    using f(5,6) by (simp add: can_use_id_index_def probe_statement_def table_inv_def bench_columns_def)
  have m: "row_matches_where_clause ?s (where_position (rt_schema table) ?s) (bench_row k) \<longleftrightarrow>
      (if c = ''id'' then print_nat k else user_name k) = lit_text v" for k
    using assms(2) f(5)
    by (auto simp: row_matches_where_clause_def where_position_def probe_statement_def bench_row_def
        schema_find_column_index_def bench_columns_def)
  have len: "length (select_rows (rt_schema table) ?s (map fst rs)) =
      length (filter (\<lambda>k. (if c = ''id'' then print_nat k else user_name k) = lit_text v) [1..<Suc n])"
    unfolding select_rows_def f(7) filter_map length_map comp_def m ..
  from execute_select_outcome [OF f(1) _ _, of ?s 0 ctx fs rs, unfolded s, OF dok filled_cached [OF assms(1)]] f(2,3,6)
  have "execute_select ctx ?s fs =
    (Inr ((select_result (rt_schema table) ?s (select_rows (rt_schema table) ?s (map fst rs)) (can_use_id_index table ?s \<noteq> None))
       \<lparr>res_type := RESULT_SELECT, affected_rows := length (select_rows (rt_schema table) ?s (map fst rs))\<rparr>), ctx, fs)"
    using valid by simp
  then show ?thesis using used len by (simp add: select_result_def)
qed

lemma one_row:
  assumes "inj f" "1 \<le> k" "k \<le> n"
  shows "length (filter (\<lambda>j. f j = f k) [1..<Suc n]) = 1"
proof -
  have "filter (\<lambda>j. f j = f k) [1..<Suc n] = filter (\<lambda>j. j = k) [1..<Suc n]" using assms(1) by (simp add: inj_eq)
  moreover have "{k} \<inter> set [1..<Suc n] = {k}" using assms(2,3) by auto
  then have "length (filter (\<lambda>j. j = k) [1..<Suc n]) = 1"
    unfolding distinct_length_filter [OF distinct_upt] singleton_conv by simp
  ultimately show ?thesis by simp
qed

lemma probe_filled:
  assumes "filled fs db_dir t ctx n" "0 < n"
    and "\<And>k. 1 \<le> k \<Longrightarrow> k \<le> n \<Longrightarrow> \<exists>r. execute_select ctx (stmt k) fs = (Inr r, ctx, fs) \<and>
      used_index r = index \<and> length (qr_rows (query_result r)) = 1"
  shows "probe_loop stmt index msg n m i ctx fs = (Inr (), ctx, fs)"
proof (induction m arbitrary: i)
  case (Suc m)
  have "1 \<le> n - i mod n" "n - i mod n \<le> n" using assms(2) by (simp_all add: Suc_le_eq)
  from assms(3) [OF this] Suc.IH show ?case by (auto simp: execute_statement_def)
qed simp

lemma id_literal: "0 < k \<Longrightarrow> k < 2 ^ 64 \<Longrightarrow>
  try_parse_indexable_id_literal \<lparr>lit_type = VALUE_NUMBER, lit_text = print_nat k\<rparr> \<noteq> None"
proof -
  assume k: "0 < k" "k < 2 ^ 64"
  then have "print_nat k = print_u64 (of_nat k)" "(of_nat k :: u64) \<noteq> 0"
    by (auto simp: print_u64_def unat_of_nat take_bit_nat_eq_self word_of_nat_eq_0_iff dest: dvd_imp_le)
  then show ?thesis by (auto simp: try_parse_indexable_id_literal_def parse_canonical_iff)
qed

lemma id_selects_filled:
  assumes "filled fs db_dir t ctx n" "0 < n" "n < 2 ^ 64"
  shows "benchmark_id_selects ctx t n p fs = (Inr (), ctx, fs)"
  unfolding benchmark_id_selects_def
proof (rule probe_filled [OF assms(1,2)])
  fix k assume k: "1 \<le> k" "k \<le> n"
  have "inj print_nat" by (rule injI) (simp add: print_nat_inj)
  from filled_select [OF assms(1), of "''id''" "\<lparr>lit_type = VALUE_NUMBER, lit_text = print_nat k\<rparr>"]
    id_literal [of k] one_row [OF this k] k assms(3)
  show "\<exists>r. execute_select ctx (id_probe t k) fs = (Inr r, ctx, fs) \<and> used_index r = True \<and>
      length (qr_rows (query_result r)) = 1"
    by (auto simp: id_probe_def)
qed

lemma non_id_selects_filled:
  assumes "filled fs db_dir t ctx n" "0 < n"
  shows "benchmark_non_id_selects ctx t n p fs = (Inr (), ctx, fs)"
  unfolding benchmark_non_id_selects_def
proof (rule probe_filled [OF assms])
  fix k assume k: "1 \<le> k" "k \<le> n"
  have "inj user_name" by (rule injI) (simp add: user_name_def print_nat_inj)
  from filled_select [OF assms(1), of "''name''" "\<lparr>lit_type = VALUE_STRING, lit_text = user_name k\<rparr>"] one_row [OF this k]
  show "\<exists>r. execute_select ctx (name_probe t k) fs = (Inr r, ctx, fs) \<and> used_index r = False \<and>
      length (qr_rows (query_result r)) = 1"
    by (auto simp: name_probe_def)
qed

section \<open>The whole benchmark\<close>

text \<open>The files the benchmark writes are the ones the engine reads.\<close>

definition plain_dir :: "string \<Rightarrow> bool" where
  "plain_dir db_dir \<longleftrightarrow> db_dir \<noteq> [] \<and> last db_dir \<noteq> CHR ''/'' \<and> last db_dir \<noteq> CHR 0x5C"

lemma benchmark_paths:
  assumes "plain_dir db_dir" "length db_dir + length t < 1016"
  shows "benchmark_path db_dir t ''.schema'' = schema_path db_dir t" "benchmark_path db_dir t ''.data'' = data_path db_dir t"
  using assms by (simp_all add: benchmark_path_def plain_dir_def schema_path_def data_path_def build_table_path_def)

definition writable :: "fs_entry \<Rightarrow> bool" where
  "writable e = (case e of Absent \<Rightarrow> True | File b \<Rightarrow> True | _ \<Rightarrow> False)"

lemma fopen_w_writable: "writable (fs p) \<Longrightarrow> fopen_w fs p = (True, fs(p := File []))"
  by (auto simp: writable_def fopen_w_def split: fs_entry.splits)

lemma reset_files:
  assumes "plain_dir db_dir" "length db_dir + length t < 1016" "ensure_directory outcome db_dir fs = (Inr (), fs1)"
    and "writable (fs1 (schema_path db_dir t))" "writable (fs1 (data_path db_dir t))"
  shows "ensure_benchmark_schema outcome db_dir t fs =
    (Inr (), fs1(schema_path db_dir t := File schema_text, data_path db_dir t := File []))"
  using assms fopen_w_writable schema_data_paths [of db_dir t t]
  by (simp add: ensure_benchmark_schema_def benchmark_paths Let_def)

lemma schema_columns: "read_columns t schema_text [] = Inr bench_columns"
  by code_simp

lemma fresh_filled:
  assumes "fs (schema_path db_dir t) = File schema_text" "fs (data_path db_dir t) = File []"
  shows "\<exists>ctx. get_or_load_table_runtime (init_execution_context db_dir) t fs = (Inr 0, ctx, fs) \<and> filled fs db_dir t ctx 0"
proof -
  let ?schema = "\<lparr>schema_table_name = t, columns = bench_columns\<rparr>"
  let ?table = "\<lparr>rt_table_name = t, rt_schema = ?schema, has_id_column = True, id_column_index = 0,
    id_index_ready = True, next_id = 1, id_index = bptree_init None\<rparr>"
  have rows: "table_rows fs db_dir t n []" for n using assms(2) by (simp add: table_rows_def terminated_def)
  have "load_table_schema fs db_dir t = Inr ?schema"
    using assms(1) schema_columns by (simp add: load_table_schema_def fopen_rb_def bench_columns_def)
  moreover have "ensure_table_data_file db_dir t fs = (Inr (), fs)"
    using assms(2) by (simp add: ensure_table_data_file_def fopen_ab_def)
  moreover have "build_id_index_for_table fs db_dir ?schema 0 = Inr (bptree_init None, 1)"
    by (simp add: build_id_index_for_table_def scan_table [OF rows])
  ultimately have l: "load_table_runtime fs db_dir t = (Inr ?table, fs)"
    by (simp add: load_table_runtime_def Let_def schema_find_column_index_def bench_columns_def)
  let ?ctx = "\<lparr>ctx_db_dir = db_dir, tables = [?table], table_capacity = 4\<rparr>"
  have g: "get_or_load_table_runtime (init_execution_context db_dir) t fs = (Inr 0, ?ctx, fs)"
    using l by (simp add: get_or_load_table_runtime_def init_execution_context_def)
  have dok: "data_file_ok fs (ctx_db_dir (init_execution_context db_dir)) t"
    using rows data_file_ok_rows by (simp add: init_execution_context_def) blast
  have inv: "ctx_inv fs ?ctx" by (rule get_or_load_inv(1) [OF init_ctx_inv dok g])
  then obtain rs where rs: "table_inv fs db_dir ?table rs" by (auto simp: ctx_inv_def)
  then have "rs = []" using table_rows_unique [OF rows] by (auto simp: table_inv_def)
  with inv rs have "filled fs db_dir t ?ctx 0" by (auto simp: filled_def)
  with g show ?thesis by blast
qed

lemma insert_cached:
  assumes "get_or_load_table_runtime ctx (ins_table_name s) fs = (Inr i, ctx1, fs1)"
    "get_or_load_table_runtime ctx1 (ins_table_name s) fs1 = (Inr i, ctx1, fs1)"
  shows "execute_insert ctx s fs = execute_insert ctx1 s fs1"
  using assms by (simp add: execute_insert_def)

lemma benchmark_fills:
  assumes "fs (schema_path db_dir t) = File schema_text" "fs (data_path db_dir t) = File []" "0 < n" "n < 2 ^ 64"
  shows "\<exists>ctx fs'. benchmark_bulk_insert (init_execution_context db_dir) t n fs = (Inr (), ctx, fs') \<and>
    filled fs' db_dir t ctx n \<and> (\<forall>p. p \<noteq> data_path db_dir t \<longrightarrow> fs' p = fs p)"
proof -
  obtain ctx where c: "get_or_load_table_runtime (init_execution_context db_dir) t fs = (Inr 0, ctx, fs)"
    "filled fs db_dir t ctx 0" using fresh_filled [OF assms(1,2)] by blast
  obtain m where n: "n = Suc m" using assms(3) by (cases n) auto
  have "execute_insert (init_execution_context db_dir) (bulk_statement t 0) fs = execute_insert ctx (bulk_statement t 0) fs"
    by (rule insert_cached [where i = 0]) (use c filled_cached in \<open>auto simp: bulk_statement_def\<close>)
  then have "benchmark_bulk_insert (init_execution_context db_dir) t n fs = bulk_loop n 0 t ctx fs"
    by (simp add: benchmark_bulk_insert_def n execute_statement_def)
  with bulk_filled [OF c(2), of n] assms(4) show ?thesis by simp
qed

lemma run_benchmark_ok:
  assumes "plain_dir db_dir" "length db_dir + length t < 1016" "ensure_directory outcome db_dir fs = (Inr (), fs1)"
    and "writable (fs1 (schema_path db_dir t))" "writable (fs1 (data_path db_dir t))"
    and "0 < n" "n < 2 ^ 64" "0 < p"
  shows "\<exists>fs'. run_benchmark D clock outcome db_dir t n p fs = (Inr (make_report D clock n p), fs') \<and>
    read_all_rows_from_table fs' db_dir t 3 = Inr (map bench_row [1..<Suc n]) \<and>
    fs' (schema_path db_dir t) = File schema_text \<and>
    (\<forall>q. q \<noteq> schema_path db_dir t \<and> q \<noteq> data_path db_dir t \<longrightarrow> fs' q = fs1 q)"
proof -
  let ?fs = "fs1(schema_path db_dir t := File schema_text, data_path db_dir t := File [])"
  have "?fs (schema_path db_dir t) = File schema_text" "?fs (data_path db_dir t) = File []"
    using schema_data_paths [of db_dir t t] by auto
  from benchmark_fills [OF this assms(6,7)] obtain ctx fs' where
    b: "benchmark_bulk_insert (init_execution_context db_dir) t n ?fs = (Inr (), ctx, fs')"
    "filled fs' db_dir t ctx n" "\<forall>q. q \<noteq> data_path db_dir t \<longrightarrow> fs' q = ?fs q" by blast
  have "run_benchmark D clock outcome db_dir t n p fs = (Inr (make_report D clock n p), fs')"
    using assms(6,8) b(1) reset_files [OF assms(1-5)] id_selects_filled [OF b(2) assms(6,7)]
      non_id_selects_filled [OF b(2) assms(6)]
    by (simp add: run_benchmark_def)
  with filled_rows(1) [OF b(2)] b(3) schema_data_paths [of db_dir t t] show ?thesis by auto
qed

lemma size_arg_bound: "benchmark_size_arg a = Some n \<Longrightarrow> n < 2 ^ 64"
  using unsigned_less [of "fst (strtoull a)"] by (auto simp: benchmark_size_arg_def Let_def split: if_splits prod.splits)

lemma size_arg_print: "n < 2 ^ 64 \<Longrightarrow> benchmark_size_arg (print_nat n) = Some n"
  by (simp add: benchmark_size_arg_def strtoull_print unat_of_nat take_bit_nat_eq_self)

lemma args_bound:
  "benchmark_args_loop opts args = Some opts' \<Longrightarrow> bo_row_count opts < 2 ^ 64 \<Longrightarrow> bo_row_count opts' < 2 ^ 64"
  by (induction opts args rule: benchmark_args_loop.induct) (auto split: if_splits option.splits dest: size_arg_bound)

section \<open>Property of the benchmark\<close>

text \<open>
  C40. Whenever its command line is accepted with counts that are not zero, its paths fit their
  buffers, and the two files of the table can be written, the benchmark ends with exit code 0 and
  prints the report of the measured times: every INSERT succeeds, every SELECT by
  \<^verbatim>\<open>id\<close> finds exactly one row through the index, and every SELECT by \<^verbatim>\<open>name\<close> finds exactly
  one row without it.  It leaves the table with exactly the generated rows, numbered from 1, and
  changes no other file.
\<close>

theorem benchmark_correct:
  assumes "benchmark_args_loop benchmark_defaults args = Some opts" "bo_db_dir opts = Some db_dir" "plain_dir db_dir"
    and "length db_dir + length (bo_table_name opts) < 1016" "0 < bo_row_count opts" "0 < bo_probe_count opts"
    and "ensure_directory outcome db_dir fs = (Inr (), fs1)"
    and "writable (fs1 (schema_path db_dir (bo_table_name opts)))" "writable (fs1 (data_path db_dir (bo_table_name opts)))"
  shows "\<exists>fs'. benchmark_main D clock outcome program_name args fs =
      (Some \<lparr>exit_code = 0, stdout = print_report D (make_report D clock (bo_row_count opts) (bo_probe_count opts)),
             stderr = []\<rparr>, fs') \<and>
    load_table_schema fs' db_dir (bo_table_name opts) =
      Inr \<lparr>schema_table_name = bo_table_name opts, columns = bench_columns\<rparr> \<and>
    read_all_rows_from_table fs' db_dir (bo_table_name opts) 3 = Inr (map bench_row [1..<Suc (bo_row_count opts)]) \<and>
    (\<forall>q. q \<notin> {schema_path db_dir (bo_table_name opts), data_path db_dir (bo_table_name opts)} \<longrightarrow> fs' q = fs1 q)"
proof -
  have "bo_row_count opts < 2 ^ 64" using args_bound [OF assms(1)] by (simp add: benchmark_defaults_def)
  from run_benchmark_ok [OF assms(3,4,7-9,5) this assms(6)] obtain fs' where
    r: "run_benchmark D clock outcome db_dir (bo_table_name opts) (bo_row_count opts) (bo_probe_count opts) fs =
        (Inr (make_report D clock (bo_row_count opts) (bo_probe_count opts)), fs')"
    and f: "read_all_rows_from_table fs' db_dir (bo_table_name opts) 3 = Inr (map bench_row [1..<Suc (bo_row_count opts)])"
      "fs' (schema_path db_dir (bo_table_name opts)) = File schema_text"
      "\<forall>q. q \<noteq> schema_path db_dir (bo_table_name opts) \<and> q \<noteq> data_path db_dir (bo_table_name opts) \<longrightarrow> fs' q = fs1 q"
    by blast
  have "load_table_schema fs' db_dir (bo_table_name opts) =
      Inr \<lparr>schema_table_name = bo_table_name opts, columns = bench_columns\<rparr>"
    using f(2) schema_columns by (simp add: load_table_schema_def fopen_rb_def bench_columns_def)
  with assms(1,2) r f(1,3) show ?thesis by (simp add: benchmark_main_def status_number_def)
qed

definition int_doubles :: "int doubles" where
  "int_doubles = \<lparr>d_sub = (-), d_div = (div), d_of_size = int, d_zero = 0, d_positive = (\<lambda>x. 0 < x),
                  d_text = (\<lambda>x. print_nat (nat x) @ ''.00'')\<rparr>"

theorem benchmark_correct_witness:
  "\<exists>fs'. benchmark_main int_doubles int Mkdir_created ''bench'' [''-d'', ''db'', ''-n'', ''2'', ''-p'', ''1''] (\<lambda>_. MissingDir) =
      (Some \<lparr>exit_code = 0,
             stdout = ''Rows inserted: 2'' @ [LF] @ ''Insert total: 1.00 ms'' @ [LF] @ ''ID select avg: 1.00 ms'' @ [LF] @
               ''Name select avg: 1.00 ms'' @ [LF] @ ''Speedup: 1.00x'' @ [LF],
             stderr = []\<rparr>, fs') \<and>
     read_all_rows_from_table fs' ''db'' ''users'' 3 = Inr [[''1'', ''user_1'', ''20''], [''2'', ''user_2'', ''21'']]"
proof -
  let ?o = "\<lparr>bo_db_dir = Some ''db'', bo_table_name = ''users'', bo_row_count = 2, bo_probe_count = 1\<rparr>"
  let ?fs = "\<lambda>q. if in_directory ''db'' q then Absent else MissingDir"
  have a: "benchmark_args_loop benchmark_defaults [''-d'', ''db'', ''-n'', ''2'', ''-p'', ''1''] = Some ?o"
  proof -
    have "print_nat 2 = ''2''" "print_nat 1 = ''1''" by code_simp+
    with size_arg_print [of 2] size_arg_print [of 1] have "benchmark_size_arg ''2'' = Some 2" "benchmark_size_arg ''1'' = Some 1"
      by simp_all
    then show ?thesis by (simp add: benchmark_defaults_def)
  qed
  have d: "ensure_directory Mkdir_created ''db'' (\<lambda>_. MissingDir) = (Inr (), ?fs)" by (simp add: ensure_directory_def)
  have p: "plain_dir ''db''" by code_simp
  have w: "writable (?fs (schema_path ''db'' ''users''))" "writable (?fs (data_path ''db'' ''users''))" by code_simp+
  have s: "print_report int_doubles (make_report int_doubles int 2 1) =
      ''Rows inserted: 2'' @ [LF] @ ''Insert total: 1.00 ms'' @ [LF] @ ''ID select avg: 1.00 ms'' @ [LF] @
      ''Name select avg: 1.00 ms'' @ [LF] @ ''Speedup: 1.00x'' @ [LF]" by code_simp
  have r: "map bench_row [1..<Suc 2] = [[''1'', ''user_1'', ''20''], [''2'', ''user_2'', ''21'']]" by code_simp
  from benchmark_correct [where D = int_doubles and clock = int and program_name = "''bench''", OF a _ p _ _ _ d] w s r
  show ?thesis by auto
qed

end
