(* ===== verification/Spec2Isabelle.thy ===== *)
theory Spec2Isabelle
  imports Server_System Benchmark
begin

text \<open>
  Verification of Threaded_DB-API_Server: a small SQL engine (INSERT and SELECT on text files, with
  a B+Tree index on the column \<^verbatim>\<open>id\<close>) behind a multi-threaded HTTP server, written in C.

  \<^bold>\<open>The program.\<close>  A request travels through these parts: \<^verbatim>\<open>src/http.c\<close> and
  \<^verbatim>\<open>src/server.c\<close> read it, \<^verbatim>\<open>src/task_queue.c\<close> and
  \<^verbatim>\<open>src/thread_pool.c\<close> hand it to a worker, \<^verbatim>\<open>src/db_api.c\<close> locks the engine,
  \<^verbatim>\<open>src/lexer.c\<close> and \<^verbatim>\<open>src/parser.c\<close> turn the SQL text into a statement
  (\<^verbatim>\<open>include/ast.h\<close>), \<^verbatim>\<open>src/executor.c\<close> executes it on the table cache of
  \<^verbatim>\<open>src/runtime.c\<close>, which holds one schema (\<^verbatim>\<open>src/schema.c\<close>) and one
  B+Tree (\<^verbatim>\<open>src/bptree.c\<close>) per table, and \<^verbatim>\<open>src/storage.c\<close> reads and
  appends the rows.

  \<^bold>\<open>The theories.\<close>
  \<^item> \<open>Prelude\<close>: status codes, results, C characters and strings, decimal printing.
  \<^item> \<open>Task_Queue\<close>: \<^verbatim>\<open>src/task_queue.c\<close>.  One record, one definition per
    function, each an atomic step because the code holds the mutex throughout.  The locale
    \<open>bounded_fifo\<close> is what the thread pool relies on; it is interpreted on the ring buffer.
  \<^item> \<open>Bptree\<close>: \<^verbatim>\<open>src/bptree.c\<close> with explicit pointers.  A node is a record
    with the live prefixes of its arrays, a tree carries its store of nodes, and
    \<open>node_limit\<close> bounds how many nodes \<^verbatim>\<open>calloc\<close> provides.
  \<^item> \<open>Bptree_Shape\<close>, \<open>Bptree_Path\<close>: trees as terms, their search order, balance
    and fill, and trees taken apart along the path from a node to the root.
  \<^item> \<open>Bptree_Refine\<close>: the climb of \<^verbatim>\<open>insert_into_parent\<close> through parent
    pointers refines an insertion along such a path.
  \<^item> \<open>Bptree_Correct\<close>, \<open>Bptree_Insert\<close>, \<open>Bptree_Index\<close>: the invariant,
    search, insertion, height, validation, destruction, and the index interface
    \<open>ordered_index\<close> that the runtime uses, interpreted on the B+Tree.
  \<^item> \<open>Storage\<close>: \<^verbatim>\<open>src/storage.c\<close>.  A file is its bytes; a path may also be
    missing, unreadable, read-only or blocked, which gives the error branches.
    \<open>file_rows\<close> is the abstraction of a data file to its rows with their offsets, and the
    locale \<open>row_store\<close> is what a data file promises to its users.
  \<^item> \<open>Indexed_Rows\<close>: the locale \<open>indexed_rows\<close>, which joins \<open>row_store\<close> and
    \<open>ordered_index\<close>: lookups through the index equal scans, and an append with an index
    insertion keeps the two in step.  \<open>Runtime\<close> interprets it on the data files and the B+Tree.
  \<^item> \<open>Schema\<close>, \<open>Ast\<close>: \<^verbatim>\<open>src/schema.c\<close> and
    \<^verbatim>\<open>include/ast.h\<close>.
  \<^item> \<open>Runtime\<close>: \<^verbatim>\<open>src/runtime.c\<close>: ids on 64-bit words, the rebuild of
    the index from a data file, the table cache, and the invariant \<open>table_inv\<close> that ties a
    cached table to its file.
  \<^item> \<open>Executor\<close>, \<open>Insert_Rows\<close>, \<open>Executor_Correct\<close>:
    \<^verbatim>\<open>src/executor.c\<close>, INSERT and SELECT with every error branch, the row an INSERT
    writes as a function of column names, SELECT on lists of rows, and the states
    reachable by executing statements.  \<open>Demo\<close> is a small database for concrete runs.
  \<^item> \<open>Lexer\<close>, \<open>Parser\<close>: \<^verbatim>\<open>src/lexer.c\<close> and
    \<^verbatim>\<open>src/parser.c\<close>.  The lexer works on the remaining characters, the parser on a
    token array with a cursor; the grammar of statements is stated independently, as the token
    lists that a statement may have.
  \<^item> \<open>Json_Writer\<close>, \<open>Json_Parser\<close>: \<^verbatim>\<open>src/json_writer.c\<close>
    (the growing buffer with its capacity) and \<^verbatim>\<open>src/json_parser.c\<close>, with the JSON
    texts of values as the reference.
  \<^item> \<open>Db_Api\<close>: \<^verbatim>\<open>src/db_api.c\<close> as a sequential function, with the outcome
    of each lock acquisition as an argument.  \<open>Db_Lock\<close>: the same function cut at its lock
    operations, as a step relation for any number of concurrent clients over one engine.
  \<^item> \<open>Finishing\<close>: the locale \<open>finishing\<close> of systems in which every schedule ends,
    interpreted on the requests of \<open>Db_Lock\<close> and on the shutdown of \<open>Server_System\<close>.
  \<^item> \<open>Thread_Pool\<close>: \<^verbatim>\<open>src/thread_pool.c\<close>: workers as control points over
    the task queue, with waiting on the condition variable, signals, broadcasts and spurious
    wake-ups as steps.  It uses the queue through \<open>bounded_fifo\<close>.
  \<^item> \<open>Http\<close>: \<^verbatim>\<open>src/http.c\<close>.  A socket is the list of outcomes that
    \<^verbatim>\<open>recv\<close> or \<^verbatim>\<open>send\<close> will have.
  \<^item> \<open>Server\<close>: \<^verbatim>\<open>src/server.c\<close> and \<^verbatim>\<open>src/server_main.c\<close>:
    the command line, the start with the outcome of each system call, the request handler, the
    accept loop, the release of the server and the main program.
  \<^item> \<open>Server_System\<close>: the composition of \<open>Server\<close>, \<open>Thread_Pool\<close> and
    \<open>Db_Lock\<close>: one step relation in which connections arrive, workers take them, read the
    request, call the API step by step under its locks, send the response and shut down.
  \<^item> \<open>Sql_Program\<close>: \<^verbatim>\<open>src/main.c\<close>, \<^verbatim>\<open>src/cli.c\<close>,
    \<^verbatim>\<open>src/result.c\<close> and the file reader of \<^verbatim>\<open>src/utils.c\<close>: the program
    that runs an SQL file and prints its results.
  \<^item> \<open>Benchmark\<close>: \<^verbatim>\<open>src/benchmark.c\<close> and
    \<^verbatim>\<open>tools/benchmark_bptree.c\<close>, with the clock and the arithmetic of
    \<^verbatim>\<open>double\<close> as parameters.
  \<^item> this theory: the properties of the engine as a whole.

  \<^bold>\<open>What is shown.\<close>
  \<^item> The engine: SELECT returns the same rows through the index and by a scan (C1); INSERT appends
    one row with a fresh id (C2), which can be selected at once (C3); all reachable states satisfy
    the invariant (C4); failed INSERTs change no row (C5); SELECT on a preloaded table is read-only
    (C6).
  \<^item> The whole server: every reply, under any interleaving of connections, workers and lock
    failures, is the right one for its request in one sequential order of the operations (C7), and
    after a shutdown every accepted connection is answered, all workers return, the indexes are
    freed and the program exits (C8).
  \<^item> The B+Tree implements a map under insertion and search (C9), passes its own validation and is
    freed completely (C10), has logarithmic height (C11), and loses keys when memory runs out in the
    middle of a root split (C12).
  \<^item> Rows survive storage (C13, C14), ids are canonical (C15), the index build is exact (C16),
    schemas are well formed (C17) and the task queue is a bounded FIFO (C18).
  \<^item> The SQL front end: tokens are well formed and printed tokens are read back (C19, C20); the
    parser accepts exactly the grammar, reads back every statement and always moves on (C21 to C23).
  \<^item> JSON: written strings denote their text (C24) and are read back unless they contain rarer
    control characters (C25); the field extraction is that of the object (C26); response bodies are
    the JSON texts of their values (C27).
  \<^item> Requests: the API executes exactly the one statement of a text (C28); concurrent requests
    are serializable, writers are alone, and every request is answered (C29 to C31).
  \<^item> The server: every accepted task is handled once and no wake-up is lost (C32, C33); reading a
    request does not depend on how its bytes arrive (C34) and a response is sent whole or as a prefix
    (C35); every connection is answered with a documented status (C36), queries are served from
    bytes to bytes (C37), and connections are queued once or refused (C38).
  \<^item> The command-line program runs the statements of its script in order up to the first failure
    (C39), and the benchmark fills its table and finds every row it probes (C40).

  \<^bold>\<open>Fuel.\<close>  The loops of \<^verbatim>\<open>src/bptree.c\<close> that follow pointers take fuel,
  and running out of it is the error \<open>Diverges\<close>.  The fuel is the number of nodes of the
  tree (plus one), which is enough on every tree with the invariant because the height is less
  than the number of nodes; no theorem about success assumes it.  All other loops are recursive
  functions that are proved to terminate.

  \<^bold>\<open>Not modelled.\<close>  Exhausted memory outside the B+Tree; failing writes to a file that
  could be opened; more than the range of \<^verbatim>\<open>int\<close> or \<^verbatim>\<open>size_t\<close> of columns,
  tokens or characters; failures of the pthread operations other than those that the code of the
  API, the pool and the server reports; the release of memory, except in the B+Tree; the clock and
  floating-point arithmetic of the benchmark; the growth of the arrays that hold tokens, rows and
  columns, which are lists here.
\<close>

section \<open>Properties of the engine\<close>



text \<open>
  C2. A successful INSERT on any reachable state fits the table and adds exactly one row at the end
  of the table, leaving the rows before it as they were.  The new row has in each column the value
  the statement gives for it (by position among the columns other than \<^verbatim>\<open>id\<close>, or by
  name), the empty string where it gives none, and the generated id in the column
  \<^verbatim>\<open>id\<close>, with only a carriage return at the very end of the row lost; no earlier row has
  that id.
\<close>

theorem insert_correct:
  assumes "reachable db_dir fs0 ctx fs" "db_ok fs0 db_dir" "stmt_ok stmt"
    and "execute_insert ctx stmt fs = (Inr r, ctx', fs')"
  shows "\<exists>table \<in> set (tables ctx'). rt_table_name table = ins_table_name stmt \<and>
    (\<exists>rows row. let n = column_count (rt_schema table) in
      read_all_rows_from_table fs db_dir (ins_table_name stmt) n = Inr rows \<and>
      read_all_rows_from_table fs' db_dir (ins_table_name stmt) n = Inr (rows @ [row]) \<and>
      insert_accepts (rt_schema table) stmt \<and>
      row = stored_row (inserted_row (rt_schema table) stmt (generated_id r)) \<and>
      affected_rows r = 1 \<and> has_generated_id r = has_id_column table \<and>
      (has_id_column table \<longrightarrow> row_value row (id_column_index table) = print_u64 (generated_id r) \<and>
         print_u64 (generated_id r) \<notin> (\<lambda>r. row_value r (id_column_index table)) ` set rows))"
  using insert_reads [of fs ctx stmt r ctx' fs'] reachable_inv [OF assms(1,2)] assms(3,4) by simp

theorem insert_correct_witness:
  "\<exists>r ctx' fs'. execute_insert demo_ctx demo_insert demo_fs = (Inr r, ctx', fs') \<and> generated_id r = 8 \<and>
     read_all_rows_from_table fs' ''db'' ''users'' 2 = Inr [[''1'', ''kim''], [''7'', ''lee''], [''8'', ''park'']]"
proof -
  obtain r ctx' fs' where e: "execute_insert demo_ctx demo_insert demo_fs = (Inr r, ctx', fs')"
    and r: "generated_id r = 8" using demo_insert_runs by (auto simp: zero_result_def)
  have n: "ins_table_name demo_insert = ''users''" by (simp add: demo_insert_def)
  from insert_correct [OF demo_reachable demo_db_ok demo_stmt_ok(1) e] obtain table rows row where
    t: "table \<in> set (tables ctx')" "rt_table_name table = ''users''"
      "read_all_rows_from_table demo_fs ''db'' ''users'' (column_count (rt_schema table)) = Inr rows"
      "read_all_rows_from_table fs' ''db'' ''users'' (column_count (rt_schema table)) = Inr (rows @ [row])"
      "row = stored_row (inserted_row (rt_schema table) demo_insert 8)"
    unfolding n Let_def r by blast
  have "list_all (\<lambda>t. columns (rt_schema t) = [''id'', ''name'']) (tables (fst (snd (execute_insert demo_ctx demo_insert demo_fs))))"
    by code_simp
  with t(1) e have c: "columns (rt_schema table) = [''id'', ''name'']" by (auto simp: list_all_iff)
  have rows: "read_all_rows_from_table demo_fs ''db'' ''users'' 2 = Inr [[''1'', ''kim''], [''7'', ''lee'']]" by code_simp
  have "print_u64 8 = ''8''" by code_simp
  then have "row = [''8'', ''park'']"
    by (simp add: t(5) inserted_row_def inserted_value_def insert_targets_def c demo_insert_def stored_row_def strip_cr_def CR_def)
  moreover have "column_count (rt_schema table) = 2" by (simp add: column_count_def c)
  ultimately show ?thesis using t(3,4) rows e r by auto
qed

text \<open>
  C3. After an INSERT that generated an id, the SELECT of that id on the resulting state answers
  through the index with exactly the inserted row, which is the last row of the table, and changes
  nothing.
\<close>

theorem insert_then_select:
  assumes "reachable db_dir fs0 ctx fs" "db_ok fs0 db_dir" "stmt_ok stmt"
    and "execute_insert ctx stmt fs = (Inr r, ctx', fs')" "has_generated_id r"
  shows "\<exists>q row n rows.
     execute_select ctx' (select_by_id (ins_table_name stmt) (generated_id r)) fs' = (Inr q, ctx', fs') \<and>
     used_index q \<and> affected_rows q = 1 \<and> qr_rows (query_result q) = [row] \<and> length row = n \<and>
     read_all_rows_from_table fs' db_dir (ins_table_name stmt) n = Inr (rows @ [row])"
  using insert_then_select_by_id [of fs ctx stmt r ctx' fs'] reachable_inv [OF assms(1,2)] assms(3-5) by simp

theorem insert_then_select_witness:
  "\<exists>r ctx' fs' q row. execute_insert demo_ctx demo_insert demo_fs = (Inr r, ctx', fs') \<and>
     execute_select ctx' (select_by_id ''users'' (generated_id r)) fs' = (Inr q, ctx', fs') \<and>
     used_index q \<and> qr_rows (query_result q) = [row]"
proof -
  obtain r ctx' fs' where e: "execute_insert demo_ctx demo_insert demo_fs = (Inr r, ctx', fs')"
    and r: "has_generated_id r" using demo_insert_runs by (auto simp: zero_result_def)
  have n: "ins_table_name demo_insert = ''users''" by (simp add: demo_insert_def)
  from insert_then_select [OF demo_reachable demo_db_ok demo_stmt_ok(1) e r] e show ?thesis
    unfolding n by metis
qed

text \<open>
  C4. Every state that the engine reaches from a directory of well-formed data files satisfies the
  cache invariant (each cached table agrees with its file: schema with distinct columns, index
  exactly the stored ids at their offsets, ids distinct and below \<^verbatim>\<open>next_id\<close>), and the
  data files stay well formed.
\<close>

theorem engine_invariant:
  assumes "reachable db_dir fs0 ctx fs" "db_ok fs0 db_dir"
  shows "ctx_inv fs ctx \<and> ctx_db_dir ctx = db_dir \<and> db_ok fs db_dir"
  by (rule reachable_inv [OF assms])

theorem engine_invariant_witness:
  "\<exists>ctx fs. snd (execute_statement demo_ctx (STMT_INSERT demo_insert) demo_fs) = (ctx, fs) \<and>
     ctx_inv fs ctx \<and> db_ok fs ''db''"
proof -
  obtain r ctx' fs' where e: "execute_statement demo_ctx (STMT_INSERT demo_insert) demo_fs = (r, ctx', fs')"
    by (metis prod_cases3)
  have "statement_ok (STMT_INSERT demo_insert)" by (simp add: statement_ok_def demo_stmt_ok)
  then have "reachable ''db'' demo_fs ctx' fs'" by (rule reach_step [OF demo_reachable _ e])
  from engine_invariant [OF this demo_db_ok] e show ?thesis by simp
qed



text \<open>
  C6. Once a table has been preloaded, a SELECT on it changes neither the table cache nor any file,
  so that SELECTs may run under the shared read lock.
\<close>

theorem preloaded_select_read_only:
  assumes "runtime_preload_table ctx (sel_table_name stmt) fs = (Inr (), ctx1, fs1)"
  shows "snd (execute_select ctx1 stmt fs1) = (ctx1, fs1)"
  by (rule cached_table_untouched [OF preload_caches [OF assms]])

theorem preloaded_select_read_only_witness:
  "\<exists>ctx1 fs1. runtime_preload_table demo_ctx ''users'' demo_fs = (Inr (), ctx1, fs1) \<and>
     snd (execute_select ctx1 (select_by_id ''users'' 7) fs1) = (ctx1, fs1)"
proof -
  have "fst (runtime_preload_table demo_ctx ''users'' demo_fs) = Inr ()" by code_simp
  then obtain ctx1 fs1 where p: "runtime_preload_table demo_ctx ''users'' demo_fs = (Inr (), ctx1, fs1)"
    by (metis prod.collapse)
  have "sel_table_name (select_by_id ''users'' 7) = ''users''" by (simp add: select_by_id_def)
  then have "runtime_preload_table demo_ctx (sel_table_name (select_by_id ''users'' 7)) demo_fs = (Inr (), ctx1, fs1)"
    using p by simp
  from preloaded_select_read_only [OF this] p show ?thesis by blast
qed

end
